(* ===== verification/Crps_Prelude.thy ===== *)
theory Crps_Prelude
  imports Main "HOL-Library.Word"
begin

text \<open>
  Shared vocabulary of the development: the machine integers of the sources as words, the ways
  a run of the C++ program can stop abnormally, a result type with its sequencing combinator,
  the byte-level view of memory (reading and writing ranges of a buffer), and the searches over
  \<^verbatim>\<open>std::vector\<close> that several components use.
\<close>

subsection \<open>Machine integers\<close>

type_synonym byte = "8 word"
type_synonym u16 = "16 word"
type_synonym u32 = "32 word"
type_synonym u64 = "64 word"

text \<open>An \<open>int8_t\<close> is a byte read with \<^const>\<open>sint\<close>.\<close>

type_synonym i8 = "8 word"

lemma unat_of_nat_lt: "n < 2 ^ LENGTH('a::len) \<Longrightarrow> unat (of_nat n :: 'a word) = n"
  by (simp add: unat_of_nat take_bit_nat_eq_self)

subsection \<open>Abnormal ends of a run\<close>

text \<open>
  The program catches no exception, so a thrown exception ends the process. Undefined behaviour
  (an index past the end of a \<^verbatim>\<open>std::vector\<close>, a \<^verbatim>\<open>memcpy\<close> outside its objects, a dereferenced
  end iterator) is \<open>OutOfBounds\<close>. \<open>FloatNumber\<close> marks the one place where the model stops and
  the program does not: a JSON number that only fits a \<^verbatim>\<open>double\<close>.
\<close>

datatype fault =
    JsonTypeError nat
  | JsonParseError nat
  | StdInvalidArgument
  | StdOutOfRange
  | OutOfBounds
  | FloatNumber

type_synonym 'a res = "fault + 'a"

definition rbind :: "'a res \<Rightarrow> ('a \<Rightarrow> 'b res) \<Rightarrow> 'b res" where
  "rbind m f = (case m of Inl e \<Rightarrow> Inl e | Inr x \<Rightarrow> f x)"

definition rguard :: "bool \<Rightarrow> unit res" where
  "rguard b = (if b then Inr () else Inl OutOfBounds)"

named_theorems crps_simps \<open>evaluation of the result combinators and of memory accesses\<close>
named_theorems crps_inv \<open>preservation of the component invariants\<close>

lemma rbind_Inl [simp, crps_simps]: "rbind (Inl e) f = Inl e"
  by (simp add: rbind_def)

lemma rbind_Inr [simp, crps_simps]: "rbind (Inr x) f = f x"
  by (simp add: rbind_def)

lemma rbind_eq_Inr_iff: "rbind m f = Inr y \<longleftrightarrow> (\<exists>x. m = Inr x \<and> f x = Inr y)"
  by (cases m) auto

lemma rbind_eq_Inl_iff: "rbind m f = Inl e \<longleftrightarrow> m = Inl e \<or> (\<exists>x. m = Inr x \<and> f x = Inl e)"
  by (cases m) auto

lemma rbind_InrE [elim]:
  assumes "rbind m f = Inr y"
  obtains x where "m = Inr x" "f x = Inr y"
  using assms by (auto simp: rbind_eq_Inr_iff)

lemma rbind_assoc: "rbind (rbind m f) g = rbind m (\<lambda>x. rbind (f x) g)"
  by (cases m) auto

lemma rbind_cong [fundef_cong]:
  "m = m' \<Longrightarrow> (\<And>x. m' = Inr x \<Longrightarrow> f x = f' x) \<Longrightarrow> rbind m f = rbind m' f'"
  by (cases m') auto

lemma rguard_simps [simp, crps_simps]:
  "rguard True = Inr ()" "rguard False = Inl OutOfBounds"
  by (simp_all add: rguard_def)

lemma rguard_eq_Inr_iff [simp]: "rguard b = Inr u \<longleftrightarrow> b"
  by (simp add: rguard_def)

text \<open>
  A contract for runs that may fault: \<open>m\<close> ends with a result that satisfies \<open>P\<close>, or with a fault that satisfies \<open>F\<close>.
\<close>

definition within :: "(fault \<Rightarrow> bool) \<Rightarrow> ('a \<Rightarrow> bool) \<Rightarrow> 'a res \<Rightarrow> bool" where
  "within F P m \<longleftrightarrow> (case m of Inl f \<Rightarrow> F f | Inr x \<Rightarrow> P x)"

lemma within_simps [simp]: "within F P (Inl f) = F f" "within F P (Inr x) = P x"
  by (simp_all add: within_def)

lemma within_rbind:
  "within F P m \<Longrightarrow> (\<And>x. m = Inr x \<Longrightarrow> P x \<Longrightarrow> within F Q (f x)) \<Longrightarrow> within F Q (rbind m f)"
  by (cases m) simp_all

lemma within_mono:
  "within F P m \<Longrightarrow> (\<And>f. F f \<Longrightarrow> G f) \<Longrightarrow> (\<And>x. m = Inr x \<Longrightarrow> P x \<Longrightarrow> Q x) \<Longrightarrow> within G Q m"
  by (cases m) simp_all

lemma within_never: "within (\<lambda>f. False) P m \<longleftrightarrow> (\<exists>x. m = Inr x \<and> P x)"
  by (cases m) simp_all

text \<open>Indexing a \<^verbatim>\<open>std::vector\<close>: past the end is undefined behaviour.\<close>

definition at :: "'a list \<Rightarrow> nat \<Rightarrow> 'a res" where
  "at xs i = (if i < length xs then Inr (xs ! i) else Inl OutOfBounds)"

lemma at_in [simp, crps_simps]: "i < length xs \<Longrightarrow> at xs i = Inr (xs ! i)"
  by (simp add: at_def)

lemma at_out [simp, crps_simps]: "length xs \<le> i \<Longrightarrow> at xs i = Inl OutOfBounds"
  by (simp add: at_def)

lemma at_eq_Inr_iff: "at xs i = Inr x \<longleftrightarrow> i < length xs \<and> x = xs ! i"
  by (auto simp: at_def)

subsection \<open>Bytes and characters\<close>

text \<open>
  A \<^verbatim>\<open>std::string\<close> is a \<open>string\<close>, a packet is a list of bytes; copying one into the other
  reinterprets each \<^verbatim>\<open>char\<close> as an \<^verbatim>\<open>unsigned char\<close>.
\<close>

definition byte_of_char :: "char \<Rightarrow> byte" where
  "byte_of_char c = of_nat (of_char c)"

definition char_of_byte :: "byte \<Rightarrow> char" where
  "char_of_byte b = char_of (unat b)"

lemma char_of_byte_of_char [simp]: "char_of_byte (byte_of_char c) = c"
proof -
  have "unat (of_nat (of_char c) :: byte) = of_char c"
    by (simp add: unat_of_nat)
  then show ?thesis by (simp add: char_of_byte_def byte_of_char_def)
qed

lemma char_of_bytes_of_chars [simp]: "map char_of_byte (map byte_of_char s) = s"
  by (induction s) auto

lemma map_char_of_byte_of_char [simp]: "map (char_of_byte \<circ> byte_of_char) s = s"
  by (induction s) auto

subsection \<open>Decimal text: \<^verbatim>\<open>std::to_string\<close>\<close>

definition digit :: "nat \<Rightarrow> char" where
  "digit n = char_of (48 + n)"

fun decimal :: "nat \<Rightarrow> string" where
  "decimal n = (if n < 10 then [digit n] else decimal (n div 10) @ [digit (n mod 10)])"

declare decimal.simps [simp del]

definition to_string :: "int \<Rightarrow> string" where
  "to_string x = (if x < 0 then CHR ''-'' # decimal (nat (- x)) else decimal (nat x))"

lemma of_char_digit [simp]: "n < 10 \<Longrightarrow> (of_char (digit n) :: nat) = 48 + n"
  by (simp add: digit_def)

subsection \<open>Ranges of a buffer\<close>

text \<open>\<open>slice off n buf\<close> is the \<open>n\<close> bytes at offset \<open>off\<close>; \<open>write_at\<close> is a \<^verbatim>\<open>memcpy\<close> into a buffer.\<close>

definition slice :: "nat \<Rightarrow> nat \<Rightarrow> 'a list \<Rightarrow> 'a list" where
  "slice off n xs = take n (drop off xs)"

definition read_at :: "nat \<Rightarrow> nat \<Rightarrow> 'a list \<Rightarrow> 'a list res" where
  "read_at off n buf = (if off + n \<le> length buf then Inr (slice off n buf) else Inl OutOfBounds)"

definition write_at :: "nat \<Rightarrow> 'a list \<Rightarrow> 'a list \<Rightarrow> 'a list res" where
  "write_at off src buf =
     (if off + length src \<le> length buf
      then Inr (take off buf @ src @ drop (off + length src) buf)
      else Inl OutOfBounds)"

lemma length_slice [simp]: "off + n \<le> length xs \<Longrightarrow> length (slice off n xs) = n"
  by (simp add: slice_def)

lemma slice_all [simp]: "slice 0 (length xs) xs = xs"
  by (simp add: slice_def)

lemma slice_append_left: "off + n \<le> length xs \<Longrightarrow> slice off n (xs @ ys) = slice off n xs"
  by (simp add: slice_def)

lemma slice_append_right: "length xs \<le> off \<Longrightarrow> slice off n (xs @ ys) = slice (off - length xs) n ys"
  by (simp add: slice_def)

lemma write_at_length: "write_at off src buf = Inr buf' \<Longrightarrow> length buf' = length buf"
  by (auto simp: write_at_def split: if_splits)

lemma write_at_ok [crps_simps]:
  "off + length src \<le> length buf \<Longrightarrow>
   write_at off src buf = Inr (take off buf @ src @ drop (off + length src) buf)"
  by (simp add: write_at_def)

lemma slice_write_at:
  "off + length src \<le> length buf \<Longrightarrow>
   slice off (length src) (take off buf @ src @ drop (off + length src) buf) = src"
  by (simp add: slice_def)

subsection \<open>Searching a vector: \<^verbatim>\<open>std::find_if\<close>\<close>

fun find_index :: "('a \<Rightarrow> bool) \<Rightarrow> 'a list \<Rightarrow> nat option" where
  "find_index P [] = None"
| "find_index P (x # xs) = (if P x then Some 0 else map_option Suc (find_index P xs))"

lemma find_index_None [simp]: "find_index P xs = None \<longleftrightarrow> (\<forall>x\<in>set xs. \<not> P x)"
  by (induction xs) auto

lemma find_index_Some:
  "find_index P xs = Some i \<Longrightarrow> i < length xs \<and> P (xs ! i) \<and> (\<forall>j<i. \<not> P (xs ! j))"
proof (induction xs arbitrary: i)
  case Nil
  then show ?case by simp
next
  case (Cons x xs)
  show ?case
  proof (cases "P x")
    case True
    with Cons.prems show ?thesis by simp
  next
    case False
    with Cons.prems obtain k where k: "find_index P xs = Some k" "i = Suc k" by auto
    with Cons.IH [OF k(1)] False show ?thesis by (auto simp: less_Suc_eq_0_disj)
  qed
qed

lemma find_index_append_hit [simp]:
  "find_index P xs = Some i \<Longrightarrow> find_index P (xs @ ys) = Some i"
  by (induction xs arbitrary: i) auto

lemma find_index_append_miss [simp]:
  "\<forall>x\<in>set xs. \<not> P x \<Longrightarrow> find_index P (xs @ [y]) = (if P y then Some (length xs) else None)"
  by (induction xs) auto

lemma find_index_map: "find_index P (map f xs) = find_index (\<lambda>x. P (f x)) xs"
  by (induction xs) auto

lemma find_index_distinct:
  assumes "distinct (map f xs)" and "i < length xs"
  shows "find_index (\<lambda>x. f x = f (xs ! i)) xs = Some i"
  using assms
proof (induction xs arbitrary: i)
  case Nil
  then show ?case by simp
next
  case (Cons x xs)
  show ?case
  proof (cases i)
    case 0
    then show ?thesis by simp
  next
    case (Suc k)
    with Cons.prems have "f (xs ! k) \<in> f ` set xs" by simp
    with Cons.prems have "f x \<noteq> f (xs ! k)" by auto
    with Suc Cons show ?thesis by simp
  qed
qed

lemma list_all2_map_eq: "list_all2 (\<lambda>x y. y = f x) xs ys \<longleftrightarrow> ys = map f xs"
  by (induction xs arbitrary: ys) (auto simp: list_all2_Cons1)

end
