(* ===== verification/Json.thy ===== *)
theory Json
  imports Crps_Prelude
begin

text \<open>
  The JSON values of the vendored \<^verbatim>\<open>nlohmann/json.hpp\<close> (version 3.10.4) as far as the program uses
  them: the value type, access by key (constant and inserting), \<^verbatim>\<open>empty()\<close>, the implicit
  conversions from and to C++ types with their integer truncations, and comparison with a string.
  Floating-point, binary and discarded values are not values of the model: the program creates
  none in its protocol, and the parser stops with \<open>FloatNumber\<close> where the library makes a
  \<^verbatim>\<open>double\<close>.
\<close>

section \<open>Values\<close>

text \<open>
  An object is a \<^verbatim>\<open>std::map\<close> ordered by its keys: an association list whose keys are strictly
  increasing in the byte order of \<^verbatim>\<open>std::less<std::string>\<close>. Both integer types have 64 bits.
\<close>

datatype json =
    JNull
  | JBool bool
  | JInt u64
  | JUInt u64
  | JString string
  | JArray "json list"
  | JObject "(string \<times> json) list"

fun str_less :: "string \<Rightarrow> string \<Rightarrow> bool" where
  "str_less _ [] = False"
| "str_less [] (d # ds) = True"
| "str_less (c # cs) (d # ds) =
     ((of_char c :: nat) < of_char d \<or> (c = d \<and> str_less cs ds))"

text \<open>\<open>obj_put\<close> is \<^verbatim>\<open>m[k] = v\<close> on the ordered map.\<close>

fun obj_put :: "string \<Rightarrow> 'v \<Rightarrow> (string \<times> 'v) list \<Rightarrow> (string \<times> 'v) list" where
  "obj_put k v [] = [(k, v)]"
| "obj_put k v ((k', v') # m) =
     (if k = k' then (k, v) # m
      else if str_less k k' then (k, v) # (k', v') # m
      else (k', v') # obj_put k v m)"

definition json_empty :: "json \<Rightarrow> bool" where
  "json_empty j =
     (case j of
        JNull \<Rightarrow> True
      | JArray xs \<Rightarrow> xs = []
      | JObject m \<Rightarrow> m = []
      | _ \<Rightarrow> False)"

section \<open>Access by key\<close>

text \<open>
  The constant \<^verbatim>\<open>operator[]\<close> throws \<^verbatim>\<open>type_error.305\<close> on anything but an object; a missing key is a
  failed assertion, and a dereferenced end iterator where assertions are compiled out.
\<close>

definition json_at :: "json \<Rightarrow> string \<Rightarrow> json res" where
  "json_at j k =
     (case j of
        JObject m \<Rightarrow> (case map_of m k of Some v \<Rightarrow> Inr v | None \<Rightarrow> Inl OutOfBounds)
      | _ \<Rightarrow> Inl (JsonTypeError 305))"

fun json_at_path :: "json \<Rightarrow> string list \<Rightarrow> json res" where
  "json_at_path j [] = Inr j"
| "json_at_path j (k # ks) = rbind (json_at j k) (\<lambda>v. json_at_path v ks)"

text \<open>
  The non-constant \<^verbatim>\<open>operator[]\<close> turns \<^verbatim>\<open>null\<close> into an empty object and inserts \<^verbatim>\<open>null\<close> for a missing
  key. \<open>json_subscript\<close> gives the value and the container it is then an element of.
\<close>

definition json_subscript :: "json \<Rightarrow> string \<Rightarrow> (json \<times> (string \<times> json) list) res" where
  "json_subscript j k =
     (let lookup = (\<lambda>m. case map_of m k of Some v \<Rightarrow> Inr (v, m) | None \<Rightarrow> Inr (JNull, obj_put k JNull m))
      in case j of
           JNull \<Rightarrow> lookup []
         | JObject m \<Rightarrow> lookup m
         | _ \<Rightarrow> Inl (JsonTypeError 305))"

text \<open>\<^verbatim>\<open>j[k1][k2]... = v\<close>.\<close>

fun json_assign :: "string list \<Rightarrow> json \<Rightarrow> json \<Rightarrow> json res" where
  "json_assign [] v j = Inr v"
| "json_assign (k # ks) v j =
     rbind (json_subscript j k) (\<lambda>(sub, m).
     rbind (json_assign ks v sub) (\<lambda>sub'.
     Inr (JObject (obj_put k sub' m))))"

definition json_set :: "string \<Rightarrow> json \<Rightarrow> json \<Rightarrow> json res" where
  "json_set k v j = json_assign [k] v j"

text \<open>Several assignments in a row, the way requests and responses are built.\<close>

fun json_assign_all :: "(string list \<times> json) list \<Rightarrow> json \<Rightarrow> json res" where
  "json_assign_all [] j = Inr j"
| "json_assign_all ((ks, v) # rest) j = rbind (json_assign ks v j) (json_assign_all rest)"

section \<open>Conversions\<close>

text \<open>
  Conversion to an integer type other than the two 64-bit ones of the library: a
  \<^verbatim>\<open>static_cast\<close> of either integer kind or of a boolean, \<^verbatim>\<open>type_error.302\<close> otherwise.
\<close>

definition json_to_word :: "json \<Rightarrow> 'a::len word res" where
  "json_to_word j =
     (case j of
        JUInt w \<Rightarrow> Inr (ucast w)
      | JInt w \<Rightarrow> Inr (ucast w)
      | JBool b \<Rightarrow> Inr (if b then 1 else 0)
      | _ \<Rightarrow> Inl (JsonTypeError 302))"

definition json_to_bool :: "json \<Rightarrow> bool res" where
  "json_to_bool j = (case j of JBool b \<Rightarrow> Inr b | _ \<Rightarrow> Inl (JsonTypeError 302))"

definition json_to_string :: "json \<Rightarrow> string res" where
  "json_to_string j = (case j of JString s \<Rightarrow> Inr s | _ \<Rightarrow> Inl (JsonTypeError 302))"

text \<open>Unsigned C++ integers become \<open>JUInt\<close>, signed ones \<open>JInt\<close> with their sign extended.\<close>

definition json_of_unsigned :: "'a::len word \<Rightarrow> json" where
  "json_of_unsigned w = JUInt (ucast w)"

definition json_of_signed :: "'a::len word \<Rightarrow> json" where
  "json_of_signed w = JInt (scast w)"

text \<open>\<^verbatim>\<open>j == "text"\<close>: values of different kinds are unequal, nothing is thrown.\<close>

definition json_eq_string :: "json \<Rightarrow> string \<Rightarrow> bool" where
  "json_eq_string j s = (case j of JString t \<Rightarrow> t = s | _ \<Rightarrow> False)"

section \<open>Lemmas\<close>

lemma str_less_irrefl [simp]: "\<not> str_less s s"
  by (induction s) auto

lemma str_less_trans: "str_less a b \<Longrightarrow> str_less b c \<Longrightarrow> str_less a c"
proof (induction a b arbitrary: c rule: str_less.induct)
  case (1 u)
  then show ?case by simp
next
  case (2 d ds)
  then show ?case by (cases c) auto
next
  case (3 x xs y ys)
  then show ?case by (cases c) auto
qed

lemma str_less_linear: "a \<noteq> b \<Longrightarrow> str_less a b \<or> str_less b a"
proof (induction a b rule: str_less.induct)
  case (1 u)
  then show ?case by (cases u) auto
next
  case (2 d ds)
  then show ?case by simp
next
  case (3 c cs d ds)
  have "c \<noteq> d \<Longrightarrow> (of_char c :: nat) \<noteq> of_char d" by (simp add: of_char_eq_iff)
  with 3 show ?case by fastforce
qed

lemma map_of_obj_put [simp]: "map_of (obj_put k v m) = (map_of m)(k \<mapsto> v)"
  by (induction k v m rule: obj_put.induct) (auto simp: fun_eq_iff)

text \<open>The order of the keys, the class invariant of the map.\<close>

definition obj_sorted :: "(string \<times> 'v) list \<Rightarrow> bool" where
  "obj_sorted m = sorted_wrt str_less (map fst m)"

lemma set_obj_put: "fst ` set (obj_put k v m) = insert k (fst ` set m)"
  by (induction k v m rule: obj_put.induct) auto

lemma obj_sorted_put: "obj_sorted m \<Longrightarrow> obj_sorted (obj_put k v m)"
proof (induction k v m rule: obj_put.induct)
  case (1 k v)
  then show ?case by (simp add: obj_sorted_def)
next
  case (2 k v k' v' m)
  have "\<forall>x\<in>fst ` set (obj_put k v m). str_less k' x" if "k \<noteq> k'" "\<not> str_less k k'"
    using 2 that str_less_linear [of k k'] by (auto simp: set_obj_put obj_sorted_def)
  moreover have "\<forall>x\<in>set (map fst m). str_less k x" if "str_less k k'"
    using "2.prems" that by (auto simp: obj_sorted_def intro: str_less_trans)
  ultimately show ?case using 2 by (auto simp: obj_sorted_def)
qed

lemma obj_put_last:
  "\<forall>x\<in>set m. str_less (fst x) k \<Longrightarrow> obj_put k v m = m @ [(k, v)]"
proof (induction m)
  case Nil
  then show ?case by simp
next
  case (Cons x m)
  obtain k' v' where x: "x = (k', v')" by (cases x)
  from Cons.prems x have less: "str_less k' k" by simp
  then have "k \<noteq> k'" by auto
  moreover have "\<not> str_less k k'" using less str_less_trans [of k k' k] by auto
  ultimately show ?case using Cons x by simp
qed

lemma json_at_simps [simp]:
  "json_at (JObject m) k = (case map_of m k of Some v \<Rightarrow> Inr v | None \<Rightarrow> Inl OutOfBounds)"
  "json_at JNull k = Inl (JsonTypeError 305)" "json_at (JBool b) k = Inl (JsonTypeError 305)"
  "json_at (JInt w) k = Inl (JsonTypeError 305)" "json_at (JUInt w) k = Inl (JsonTypeError 305)"
  "json_at (JString s) k = Inl (JsonTypeError 305)" "json_at (JArray xs) k = Inl (JsonTypeError 305)"
  by (simp_all add: json_at_def)

lemma json_subscript_simps [simp]:
  "json_subscript JNull k = Inr (JNull, [(k, JNull)])"
  "json_subscript (JObject m) k =
     (case map_of m k of Some v \<Rightarrow> Inr (v, m) | None \<Rightarrow> Inr (JNull, obj_put k JNull m))"
  by (simp_all add: json_subscript_def)

lemma obj_put_obj_put [simp]: "obj_put k v (obj_put k w m) = obj_put k v m"
  by (induction k w m rule: obj_put.induct) auto

lemma json_set_simps [simp]:
  "json_set k v JNull = Inr (JObject [(k, v)])"
  "json_set k v (JObject m) = Inr (JObject (obj_put k v m))"
  by (auto simp: json_set_def split: option.splits)

lemma json_to_word_simps [simp]:
  "json_to_word (JUInt w) = Inr (ucast w)" "json_to_word (JInt w) = Inr (ucast w)"
  by (simp_all add: json_to_word_def)

lemma json_to_bool_simps [simp]: "json_to_bool (JBool b) = Inr b"
  by (simp add: json_to_bool_def)

lemma json_to_string_simps [simp]: "json_to_string (JString s) = Inr s"
  by (simp add: json_to_string_def)

lemma json_eq_string_simps [simp]: "json_eq_string (JString t) s = (t = s)"
  by (simp add: json_eq_string_def)

text \<open>Up to 64 bits, an integer survives its way through a JSON number of either kind.\<close>

lemma ucast_ucast_word: "LENGTH('a::len) \<le> LENGTH('b::len) \<Longrightarrow> ucast (ucast (w :: 'a word) :: 'b word) = w"
  by (rule bit_word_eqI) (simp add: bit_simps)

lemma ucast_scast_word: "LENGTH('a::len) \<le> LENGTH('b::len) \<Longrightarrow> ucast (scast (w :: 'a word) :: 'b word) = w"
proof (rule bit_word_eqI)
  fix n
  assume "LENGTH('a) \<le> LENGTH('b)" and n: "n < LENGTH('a)"
  moreover from n have "min n (LENGTH('a) - Suc 0) = n" by simp
  ultimately show "bit (ucast (scast w :: 'b word) :: 'a word) n \<longleftrightarrow> bit w n" by (simp add: bit_simps)
qed

lemma json_unsigned_roundtrip [simp]:
  "LENGTH('a::len) \<le> 64 \<Longrightarrow> json_to_word (json_of_unsigned (w :: 'a word)) = Inr w"
  by (simp add: json_of_unsigned_def ucast_ucast_word)

lemma json_signed_roundtrip [simp]:
  "LENGTH('a::len) \<le> 64 \<Longrightarrow> json_to_word (json_of_signed (w :: 'a word)) = Inr w"
  by (simp add: json_of_signed_def ucast_scast_word)

end
