(* ===== verification/Json_Dump.thy ===== *)
theory Json_Dump
  imports Json
begin

text \<open>
  Serialisation: \<^verbatim>\<open>basic_json::dump()\<close> with its default arguments, that is the compact branch of
  \<^verbatim>\<open>serializer::dump\<close> with \<^verbatim>\<open>ensure_ascii == false\<close> and the error handler \<^verbatim>\<open>strict\<close>. The character
  buffers of the serializer only collect output, so the model concatenates; that the digit buffer
  is always large enough is the lemma \<open>dump_integer_fits\<close>.
\<close>

unbundle bit_operations_syntax

section \<open>Strings\<close>

text \<open>The table of the UTF-8 automaton: 256 byte classes, then a row of 16 per state.\<close>

definition utf8d :: "nat list" where
  "utf8d =
     replicate 128 0 @ replicate 16 1 @ replicate 16 9 @ replicate 32 7 @
     [8, 8] @ replicate 30 2 @
     [10, 3, 3, 3, 3, 3, 3, 3, 3, 3, 3, 3, 3, 4, 3, 3] @
     [11, 6, 6, 6, 5, 8, 8, 8, 8, 8, 8, 8, 8, 8, 8, 8] @
     [0, 1, 2, 3, 5, 8, 7, 1, 1, 1, 4, 6, 1, 1, 1, 1] @
     [1, 1, 1, 1, 1, 1, 1, 1, 1, 1, 1, 1, 1, 1, 1, 1, 1, 0, 1, 1, 1, 1, 1, 0, 1, 0, 1, 1, 1, 1, 1, 1] @
     [1, 2, 1, 1, 1, 1, 1, 2, 1, 2, 1, 1, 1, 1, 1, 1, 1, 1, 1, 1, 1, 1, 1, 2, 1, 1, 1, 1, 1, 1, 1, 1] @
     [1, 2, 1, 1, 1, 1, 1, 1, 1, 2, 1, 1, 1, 1, 1, 1, 1, 1, 1, 1, 1, 1, 1, 3, 1, 3, 1, 1, 1, 1, 1, 1] @
     [1, 3, 1, 1, 1, 1, 1, 3, 1, 3, 1, 1, 1, 1, 1, 1, 1, 3, 1, 1, 1, 1, 1, 1, 1, 1, 1, 1, 1, 1, 1, 1]"

definition utf8_decode :: "nat \<Rightarrow> u32 \<Rightarrow> byte \<Rightarrow> nat \<times> u32" where
  "utf8_decode state codep byte =
     (let type = utf8d ! unat byte;
          codep' = (if state \<noteq> 0 then (ucast byte AND 0x3F) OR push_bit 6 codep
                    else drop_bit type 0xFF AND ucast byte)
      in (utf8d ! (256 + state * 16 + type), codep'))"

definition hex_digit :: "nat \<Rightarrow> char" where
  "hex_digit n = (if n < 10 then char_of (48 + n) else char_of (87 + n))"

text \<open>\<^verbatim>\<open>snprintf("\\u%04x")\<close> of a 16-bit value.\<close>

definition hex4 :: "nat \<Rightarrow> string" where
  "hex4 n = [CHR 0x5C, CHR ''u'', hex_digit (n div 4096 mod 16), hex_digit (n div 256 mod 16),
             hex_digit (n div 16 mod 16), hex_digit (n mod 16)]"

text \<open>What is written when the byte \<open>c\<close> completes the code point \<open>cp\<close>.\<close>

definition escape_accepted :: "u32 \<Rightarrow> char \<Rightarrow> string" where
  "escape_accepted cp c =
     (if cp = 0x08 then [CHR 0x5C, CHR ''b'']
      else if cp = 0x09 then [CHR 0x5C, CHR ''t'']
      else if cp = 0x0A then [CHR 0x5C, CHR ''n'']
      else if cp = 0x0C then [CHR 0x5C, CHR ''f'']
      else if cp = 0x0D then [CHR 0x5C, CHR ''r'']
      else if cp = 0x22 then [CHR 0x5C, CHR 0x22]
      else if cp = 0x5C then [CHR 0x5C, CHR 0x5C]
      else if cp \<le> 0x1F then hex4 (unat cp)
      else [c])"

fun dump_escaped_from :: "nat \<Rightarrow> u32 \<Rightarrow> string \<Rightarrow> string res" where
  "dump_escaped_from state codep [] = (if state = 0 then Inr [] else Inl (JsonTypeError 316))"
| "dump_escaped_from state codep (c # cs) =
     (let (state', codep') = utf8_decode state codep (byte_of_char c)
      in if state' = 0 then
           rbind (dump_escaped_from state' codep' cs) (\<lambda>out. Inr (escape_accepted codep' c @ out))
         else if state' = 1 then Inl (JsonTypeError 316)
         else rbind (dump_escaped_from state' codep' cs) (\<lambda>out. Inr (c # out)))"

definition dump_escaped :: "string \<Rightarrow> string res" where
  "dump_escaped s = dump_escaped_from 0 0 s"

section \<open>Integers\<close>

fun count_digits :: "nat \<Rightarrow> nat" where
  "count_digits x =
     (if x < 10 then 1 else if x < 100 then 2 else if x < 1000 then 3 else if x < 10000 then 4
      else count_digits (x div 10000) + 4)"

declare count_digits.simps [simp del]

text \<open>
  The digits are written backwards, two at a time from the table \<^verbatim>\<open>digits_to_99\<close>; \<open>acc\<close> is what
  is already in the buffer to the right.
\<close>

fun digits_backward :: "nat \<Rightarrow> string \<Rightarrow> string" where
  "digits_backward n acc =
     (if 100 \<le> n then digits_backward (n div 100) (digit (n mod 100 div 10) # digit (n mod 10) # acc)
      else if 10 \<le> n then digit (n div 10) # digit (n mod 10) # acc
      else digit n # acc)"

declare digits_backward.simps [simp del]

text \<open>\<^verbatim>\<open>dump_integer\<close> for the unsigned and the signed type; \<^verbatim>\<open>remove_sign\<close> avoids overflow at the minimum.\<close>

definition remove_sign :: "u64 \<Rightarrow> u64" where
  "remove_sign x = (- (x + 1)) + 1"

definition dump_unsigned :: "u64 \<Rightarrow> string" where
  "dump_unsigned x = (if x = 0 then ''0'' else digits_backward (unat x) [])"

definition dump_signed :: "u64 \<Rightarrow> string" where
  "dump_signed x =
     (if x = 0 then ''0''
      else if sint x < 0 then CHR ''-'' # digits_backward (unat (remove_sign x)) []
      else digits_backward (unat x) [])"

section \<open>Values\<close>

fun json_dump :: "json \<Rightarrow> string res"
  and dump_members :: "(string \<times> json) list \<Rightarrow> string res"
  and dump_elements :: "json list \<Rightarrow> string res" where
  "json_dump (JObject m) =
     (if m = [] then Inr ''{}'' else rbind (dump_members m) (\<lambda>s. Inr (''{'' @ s @ ''}'')))"
| "json_dump (JArray xs) =
     (if xs = [] then Inr ''[]'' else rbind (dump_elements xs) (\<lambda>s. Inr (''['' @ s @ '']'')))"
| "json_dump (JString s) = rbind (dump_escaped s) (\<lambda>e. Inr ([CHR 0x22] @ e @ [CHR 0x22]))"
| "json_dump (JBool b) = Inr (if b then ''true'' else ''false'')"
| "json_dump (JInt w) = Inr (dump_signed w)"
| "json_dump (JUInt w) = Inr (dump_unsigned w)"
| "json_dump JNull = Inr ''null''"
| "dump_members [] = Inr []"
| "dump_members ((k, v) # m) =
     rbind (dump_escaped k) (\<lambda>e.
     rbind (json_dump v) (\<lambda>d.
     (if m = [] then Inr ([CHR 0x22] @ e @ [CHR 0x22, CHR '':''] @ d)
      else rbind (dump_members m) (\<lambda>s. Inr ([CHR 0x22] @ e @ [CHR 0x22, CHR '':''] @ d @ '','' @ s)))))"
| "dump_elements [] = Inr []"
| "dump_elements (x # xs) =
     rbind (json_dump x) (\<lambda>d.
     (if xs = [] then Inr d else rbind (dump_elements xs) (\<lambda>s. Inr (d @ '','' @ s))))"

section \<open>Lemmas\<close>

text \<open>On 7-bit characters the automaton accepts every byte as its own code point.\<close>

definition ascii :: "string \<Rightarrow> bool" where
  "ascii s = (\<forall>c\<in>set s. of_char c < (128 :: nat))"

lemma ascii_simps [simp]: "ascii []" "ascii (c # cs) \<longleftrightarrow> (of_char c :: nat) < 128 \<and> ascii cs"
  by (simp_all add: ascii_def)

lemma unat_byte_of_char [simp]: "unat (byte_of_char c) = of_char c"
  by (simp add: byte_of_char_def unat_of_nat)

lemma and_0xFF_byte: "(0xFF :: u32) AND ucast (b :: byte) = ucast b"
proof -
  have "(0xFF :: u32) = mask 8" by (simp add: mask_eq_exp_minus_1)
  then have "(0xFF :: u32) AND ucast b = take_bit 8 (ucast b)" by (simp add: take_bit_eq_mask and.commute)
  also have "\<dots> = ucast b" by (rule bit_word_eqI) (auto simp: bit_simps dest: bit_imp_le_length)
  finally show ?thesis .
qed

lemma utf8_decode_ascii:
  assumes "(of_char c :: nat) < 128"
  shows "utf8_decode 0 codep (byte_of_char c) = (0, ucast (byte_of_char c))"
proof -
  have "utf8d ! of_char c = 0" using assms by (simp add: utf8d_def nth_append)
  moreover have "utf8d ! 256 = 0" by (simp add: utf8d_def nth_append)
  ultimately show ?thesis by (simp add: utf8_decode_def and_0xFF_byte)
qed

definition escape_char :: "char \<Rightarrow> string" where
  "escape_char c = escape_accepted (ucast (byte_of_char c)) c"

lemma dump_escaped_from_ascii:
  "ascii s \<Longrightarrow> dump_escaped_from 0 codep s = Inr (concat (map escape_char s))"
  by (induction s arbitrary: codep) (simp_all add: utf8_decode_ascii escape_char_def)

lemma dump_escaped_ascii: "ascii s \<Longrightarrow> dump_escaped s = Inr (concat (map escape_char s))"
  by (simp add: dump_escaped_def dump_escaped_from_ascii)

text \<open>The escape of a 7-bit character, by its code.\<close>

lemma unat_ucast_byte_of_char [simp]: "unat (ucast (byte_of_char c) :: u32) = of_char c"
proof -
  have "(of_char c :: nat) < 2 ^ 32" by (rule order_less_trans [OF nat_of_char_less_256]) simp
  then show ?thesis by (simp add: unsigned_ucast_eq take_bit_nat_eq_self)
qed

lemma ucast_byte_of_char_eq_numeral:
  "ucast (byte_of_char c) = (numeral n :: u32) \<longleftrightarrow> (of_char c :: nat) = unat (numeral n :: u32)"
  by (metis unat_ucast_byte_of_char word_unat_eq_iff)

lemma ucast_byte_of_char_le_numeral:
  "ucast (byte_of_char c) \<le> (numeral n :: u32) \<longleftrightarrow> (of_char c :: nat) \<le> unat (numeral n :: u32)"
  by (metis unat_ucast_byte_of_char word_le_nat_alt)

lemma escape_char_eq:
  "escape_char c =
     (let n = (of_char c :: nat) in
      if n = 8 then [CHR 0x5C, CHR ''b''] else if n = 9 then [CHR 0x5C, CHR ''t'']
      else if n = 10 then [CHR 0x5C, CHR ''n''] else if n = 12 then [CHR 0x5C, CHR ''f'']
      else if n = 13 then [CHR 0x5C, CHR ''r''] else if n = 34 then [CHR 0x5C, CHR 0x22]
      else if n = 92 then [CHR 0x5C, CHR 0x5C] else if n \<le> 31 then hex4 n else [c])"
  by (simp add: escape_char_def escape_accepted_def ucast_byte_of_char_eq_numeral
      ucast_byte_of_char_le_numeral Let_def)

text \<open>The digit buffer.\<close>

lemma digits_backward_append: "digits_backward n (acc @ r) = digits_backward n acc @ r"
proof (induction n acc rule: digits_backward.induct)
  case (1 n acc)
  then show ?case by (subst (1 2) digits_backward.simps) simp
qed

lemma length_digits_backward: "length (digits_backward n acc) = length (digits_backward n []) + length acc"
  using digits_backward_append [of n "[]" acc] by simp

lemma digits_backward_small:
  "n < 100 \<Longrightarrow> digits_backward n acc = (if 10 \<le> n then [digit (n div 10), digit (n mod 10)] else [digit n]) @ acc"
  by (subst digits_backward.simps) simp

lemma digits_backward_large:
  "100 \<le> n \<Longrightarrow> digits_backward n acc =
     digits_backward (n div 100) (digit (n mod 100 div 10) # digit (n mod 10) # acc)"
  by (subst digits_backward.simps) simp

lemma count_digits_correct: "length (digits_backward n []) = count_digits n"
proof (induction n rule: count_digits.induct)
  case (1 n)
  consider "n < 100" | "100 \<le> n" "n < 10000" | "10000 \<le> n" by linarith
  then show ?case
  proof cases
    case 1
    then show ?thesis by (simp add: digits_backward_small count_digits.simps)
  next
    case 2
    then have "n div 100 < 100" "10 \<le> n div 100 \<longleftrightarrow> 1000 \<le> n" by auto
    with 2 show ?thesis by (simp add: digits_backward_large digits_backward_small count_digits.simps)
  next
    case 3
    then have "n div 100 div 100 = n div 10000" "100 \<le> n div 100" by (simp_all add: div_mult2_eq [symmetric])
    with 3 "1.IH" show ?thesis
      by (simp add: digits_backward_large count_digits.simps [of n]
          length_digits_backward [of _ "_ # _"])
  qed
qed

lemma count_digits_bound: "n < 10 ^ k \<Longrightarrow> 0 < k \<Longrightarrow> count_digits n \<le> k"
proof (induction n arbitrary: k rule: count_digits.induct)
  case (1 n)
  show ?case
  proof (cases "n < 10000")
    case True
    consider "k = 1" | "k = 2" | "k = 3" | "4 \<le> k" using 1(3) by linarith
    then show ?thesis using True 1(2) by cases (simp_all add: count_digits.simps [of n])
  next
    case False
    have k: "4 < k"
    proof (rule ccontr)
      assume "\<not> 4 < k"
      then have "(10 :: nat) ^ k \<le> 10 ^ 4" by (intro power_increasing) auto
      with 1(2) False show False by simp
    qed
    have "(10 :: nat) ^ k = 10 ^ (k - 4) * 10 ^ 4" using k by (subst power_add [symmetric]) simp
    with 1(2) have "n div 10000 < 10 ^ (k - 4)" by (simp add: less_mult_imp_div_less)
    with 1(1) False k have "count_digits (n div 10000) \<le> k - 4" by simp
    with False k show ?thesis by (subst count_digits.simps) simp
  qed
qed

text \<open>
  The number buffer of the serializer is large enough. For every 64-bit integer, signed or
  unsigned, the text has at most 20 characters, as many as \<^verbatim>\<open>count_digits\<close> announces, so the
  backward writes stay inside the 64 characters of \<^verbatim>\<open>number_buffer\<close> and its terminator is spared.
\<close>

theorem dump_integer_fits:
  "length (dump_unsigned x) = count_digits (unat x) \<and> length (dump_unsigned x) \<le> 20 \<and>
   length (dump_signed x) \<le> 21"
proof -
  have b: "unat (y :: u64) < 10 ^ 20" for y
    using unsigned_less [of y, where 'a = nat] by (rule order_less_le_trans) simp
  have len: "count_digits (unat (y :: u64)) \<le> 20" for y
    using count_digits_bound [OF b [of y]] by simp
  show ?thesis
    using len [of x] len [of "remove_sign x"]
    by (auto simp: dump_unsigned_def dump_signed_def count_digits_correct count_digits.simps [of 0])
qed

end
