(* ===== verification/Json_Parse.thy ===== *)
theory Json_Parse
  imports Json
begin

text \<open>
  Parsing: the lexer, the event loop of the parser and the builder of \<^verbatim>\<open>nlohmann/json.hpp\<close>, as
  \<^verbatim>\<open>json::parse(first, last)\<close> runs them (strict, no callback, comments not ignored). The input is
  the list of characters not read yet, so \<^verbatim>\<open>get()\<close> takes its head, \<^verbatim>\<open>unget()\<close> puts it back and the
  end of input is the empty list. Every loop consumes input, which is how termination is proved.
\<close>

section \<open>The lexer: strings\<close>

text \<open>\<^verbatim>\<open>get_codepoint()\<close>: four hexadecimal digits.\<close>

definition hex_value :: "char \<Rightarrow> nat option" where
  "hex_value c =
     (let n = of_char c in
      if 48 \<le> n \<and> n \<le> 57 then Some (n - 48)
      else if 65 \<le> n \<and> n \<le> 70 then Some (n - 55)
      else if 97 \<le> n \<and> n \<le> 102 then Some (n - 87)
      else None)"

fun get_codepoint :: "string \<Rightarrow> (nat \<times> string) option" where
  "get_codepoint (c1 # c2 # c3 # c4 # s) =
     (case (hex_value c1, hex_value c2, hex_value c3, hex_value c4) of
        (Some a, Some b, Some c, Some d) \<Rightarrow> Some (a * 4096 + b * 256 + c * 16 + d, s)
      | _ \<Rightarrow> None)"
| "get_codepoint _ = None"

text \<open>The UTF-8 bytes of a code point.\<close>

definition codepoint_bytes :: "nat \<Rightarrow> string" where
  "codepoint_bytes cp =
     (if cp < 0x80 then [char_of cp]
      else if cp \<le> 0x7FF then [char_of (0xC0 + cp div 64), char_of (0x80 + cp mod 64)]
      else if cp \<le> 0xFFFF then
        [char_of (0xE0 + cp div 4096), char_of (0x80 + cp div 64 mod 64), char_of (0x80 + cp mod 64)]
      else
        [char_of (0xF0 + cp div 262144), char_of (0x80 + cp div 4096 mod 64),
         char_of (0x80 + cp div 64 mod 64), char_of (0x80 + cp mod 64)])"

text \<open>One round of the loop of \<^verbatim>\<open>scan_string()\<close>: the end, characters added to the token, or an error.\<close>

datatype str_step = StrDone string | StrAdd string string | StrFail

definition scan_unicode :: "string \<Rightarrow> str_step" where
  "scan_unicode s =
     (case get_codepoint s of
        None \<Rightarrow> StrFail
      | Some (cp1, s1) \<Rightarrow>
          if 0xD800 \<le> cp1 \<and> cp1 \<le> 0xDBFF then
            (case s1 of
               c1 # c2 # s2 \<Rightarrow>
                 if c1 = CHR 0x5C \<and> c2 = CHR ''u'' then
                   (case get_codepoint s2 of
                      None \<Rightarrow> StrFail
                    | Some (cp2, s3) \<Rightarrow>
                        if 0xDC00 \<le> cp2 \<and> cp2 \<le> 0xDFFF
                        then StrAdd (codepoint_bytes (cp1 * 1024 + cp2 - 0x35FDC00)) s3
                        else StrFail)
                 else StrFail
             | _ \<Rightarrow> StrFail)
          else if 0xDC00 \<le> cp1 \<and> cp1 \<le> 0xDFFF then StrFail
          else StrAdd (codepoint_bytes cp1) s1)"

definition scan_escape :: "string \<Rightarrow> str_step" where
  "scan_escape s =
     (case s of
        [] \<Rightarrow> StrFail
      | c # r \<Rightarrow>
          if c = CHR 0x22 then StrAdd [CHR 0x22] r
          else if c = CHR 0x5C then StrAdd [CHR 0x5C] r
          else if c = CHR ''/'' then StrAdd [CHR ''/''] r
          else if c = CHR ''b'' then StrAdd [CHR 0x08] r
          else if c = CHR ''f'' then StrAdd [CHR 0x0C] r
          else if c = CHR ''n'' then StrAdd [CHR 0x0A] r
          else if c = CHR ''r'' then StrAdd [CHR 0x0D] r
          else if c = CHR ''t'' then StrAdd [CHR 0x09] r
          else if c = CHR ''u'' then scan_unicode r
          else StrFail)"

text \<open>\<^verbatim>\<open>next_byte_in_range()\<close>: the bytes that must follow, each with its bounds.\<close>

fun bytes_in_range :: "(nat \<times> nat) list \<Rightarrow> string \<Rightarrow> (string \<times> string) option" where
  "bytes_in_range [] s = Some ([], s)"
| "bytes_in_range ((lo, hi) # rs) [] = None"
| "bytes_in_range ((lo, hi) # rs) (c # s) =
     (if lo \<le> of_char c \<and> of_char c \<le> hi
      then map_option (\<lambda>(cs, r). (c # cs, r)) (bytes_in_range rs s)
      else None)"

definition scan_multibyte :: "char \<Rightarrow> (nat \<times> nat) list \<Rightarrow> string \<Rightarrow> str_step" where
  "scan_multibyte c ranges s =
     (case bytes_in_range ranges s of
        None \<Rightarrow> StrFail
      | Some (cs, r) \<Rightarrow> StrAdd (c # cs) r)"

definition scan_step :: "string \<Rightarrow> str_step" where
  "scan_step s =
     (case s of
        [] \<Rightarrow> StrFail
      | c # r \<Rightarrow>
          (let n = (of_char c :: nat) in
           if n = 0x22 then StrDone r
           else if n = 0x5C then scan_escape r
           else if n \<le> 0x1F then StrFail
           else if n \<le> 0x7F then StrAdd [c] r
           else if 0xC2 \<le> n \<and> n \<le> 0xDF then scan_multibyte c [(0x80, 0xBF)] r
           else if n = 0xE0 then scan_multibyte c [(0xA0, 0xBF), (0x80, 0xBF)] r
           else if n = 0xED then scan_multibyte c [(0x80, 0x9F), (0x80, 0xBF)] r
           else if 0xE1 \<le> n \<and> n \<le> 0xEF then scan_multibyte c [(0x80, 0xBF), (0x80, 0xBF)] r
           else if n = 0xF0 then scan_multibyte c [(0x90, 0xBF), (0x80, 0xBF), (0x80, 0xBF)] r
           else if 0xF1 \<le> n \<and> n \<le> 0xF3 then scan_multibyte c [(0x80, 0xBF), (0x80, 0xBF), (0x80, 0xBF)] r
           else if n = 0xF4 then scan_multibyte c [(0x80, 0x8F), (0x80, 0xBF), (0x80, 0xBF)] r
           else StrFail))"

lemma get_codepoint_shorter: "get_codepoint s = Some (cp, r) \<Longrightarrow> length r < length s"
  by (induction s rule: get_codepoint.induct) (auto split: option.splits)

lemma scan_unicode_shorter: "scan_unicode s = StrAdd cs r \<Longrightarrow> length r < length s"
  by (auto simp: scan_unicode_def split: option.splits prod.splits if_splits list.splits
      dest!: get_codepoint_shorter)

lemma scan_escape_shorter: "scan_escape s = StrAdd cs r \<Longrightarrow> length r < length s"
  by (auto simp: scan_escape_def split: list.splits if_splits dest!: scan_unicode_shorter)

lemma bytes_in_range_shorter: "bytes_in_range rs s = Some (cs, r) \<Longrightarrow> length r \<le> length s"
  by (induction rs s arbitrary: cs r rule: bytes_in_range.induct) (fastforce split: if_splits)+

lemma scan_multibyte_shorter: "scan_multibyte c rs s = StrAdd cs r \<Longrightarrow> length r \<le> length s"
  by (auto simp: scan_multibyte_def split: option.splits dest!: bytes_in_range_shorter)

lemma scan_step_shorter: "scan_step s = StrAdd cs r \<Longrightarrow> length r < length s"
  by (auto simp: scan_step_def Let_def less_Suc_eq_le split: list.splits if_splits
      dest!: scan_escape_shorter scan_multibyte_shorter)

lemma scan_step_done_shorter: "scan_step s = StrDone r \<Longrightarrow> length r < length s"
  by (auto simp: scan_step_def scan_escape_def scan_unicode_def scan_multibyte_def Let_def
      split: list.splits if_splits option.splits prod.splits)

function scan_string :: "string \<Rightarrow> (string \<times> string) option" where
  "scan_string s =
     (case scan_step s of
        StrDone r \<Rightarrow> Some ([], r)
      | StrAdd cs r \<Rightarrow> map_option (\<lambda>(t, r'). (cs @ t, r')) (scan_string r)
      | StrFail \<Rightarrow> None)"
  by pat_completeness auto
termination
  by (relation "measure length") (auto dest: scan_step_shorter)

declare scan_string.simps [simp del]

lemma scan_string_shorter: "scan_string s = Some (t, r) \<Longrightarrow> length r < length s"
proof (induction s arbitrary: t r rule: scan_string.induct)
  case (1 s)
  from "1.prems" show ?case
    by (subst (asm) scan_string.simps)
       (auto split: str_step.splits dest: scan_step_done_shorter scan_step_shorter "1.IH" order_less_trans)
qed

section \<open>The lexer: numbers\<close>

datatype number_type = NUnsigned | NInteger | NFloat

text \<open>The labels of \<^verbatim>\<open>scan_number()\<close>; in each state the next character decides the jump.\<close>

datatype number_state = NMinus | NZero | NAny1 | NDecimal1 | NDecimal2 | NExponent | NSign | NAny2

definition is_digit :: "char \<Rightarrow> bool" where
  "is_digit c = (48 \<le> (of_char c :: nat) \<and> (of_char c :: nat) \<le> 57)"

datatype number_jump = NGoto number_state number_type | NAccept | NReject

fun number_next :: "number_state \<Rightarrow> number_type \<Rightarrow> char \<Rightarrow> number_jump" where
  "number_next NMinus ty c =
     (if c = CHR ''0'' then NGoto NZero ty else if is_digit c then NGoto NAny1 ty else NReject)"
| "number_next NZero ty c =
     (if c = CHR ''.'' then NGoto NDecimal1 NFloat
      else if c = CHR ''e'' \<or> c = CHR ''E'' then NGoto NExponent NFloat else NAccept)"
| "number_next NAny1 ty c =
     (if is_digit c then NGoto NAny1 ty
      else if c = CHR ''.'' then NGoto NDecimal1 NFloat
      else if c = CHR ''e'' \<or> c = CHR ''E'' then NGoto NExponent NFloat else NAccept)"
| "number_next NDecimal1 ty c = (if is_digit c then NGoto NDecimal2 ty else NReject)"
| "number_next NDecimal2 ty c =
     (if is_digit c then NGoto NDecimal2 ty
      else if c = CHR ''e'' \<or> c = CHR ''E'' then NGoto NExponent NFloat else NAccept)"
| "number_next NExponent ty c =
     (if c = CHR ''+'' \<or> c = CHR ''-'' then NGoto NSign ty
      else if is_digit c then NGoto NAny2 ty else NReject)"
| "number_next NSign ty c = (if is_digit c then NGoto NAny2 ty else NReject)"
| "number_next NAny2 ty c = (if is_digit c then NGoto NAny2 ty else NAccept)"

text \<open>At the end of the input each state accepts or rejects as on any other character.\<close>

definition number_final :: "number_state \<Rightarrow> bool" where
  "number_final st = (st \<in> {NZero, NAny1, NDecimal2, NAny2})"

fun number_loop :: "number_state \<Rightarrow> number_type \<Rightarrow> string \<Rightarrow> (number_type \<times> string \<times> string) option" where
  "number_loop st ty [] = (if number_final st then Some (ty, [], []) else None)"
| "number_loop st ty (c # s) =
     (case number_next st ty c of
        NGoto st' ty' \<Rightarrow> map_option (\<lambda>(ty'', t, r). (ty'', c # t, r)) (number_loop st' ty' s)
      | NAccept \<Rightarrow> Some (ty, [], c # s)
      | NReject \<Rightarrow> None)"

lemma number_loop_shorter: "number_loop st ty s = Some (ty', t, r) \<Longrightarrow> length r \<le> length s"
  by (induction st ty s arbitrary: ty' t r rule: number_loop.induct)
     (fastforce split: number_jump.splits if_splits)+

section \<open>The lexer: tokens\<close>

datatype token =
    LiteralTrue | LiteralFalse | LiteralNull
  | ValueString string | ValueUnsigned u64 | ValueInteger u64 | ValueFloat string
  | BeginArray | BeginObject | EndArray | EndObject | NameSeparator | ValueSeparator
  | ParseError | EndOfInput

text \<open>\<^verbatim>\<open>strtoull\<close> and \<^verbatim>\<open>strtoll\<close> on text already known to be digits; out of range falls back to \<^verbatim>\<open>double\<close>.\<close>

fun decimal_value :: "nat \<Rightarrow> string \<Rightarrow> nat" where
  "decimal_value n [] = n"
| "decimal_value n (c # s) = decimal_value (10 * n + (of_char c - 48)) s"

definition number_token :: "number_type \<Rightarrow> string \<Rightarrow> token" where
  "number_token ty t =
     (case ty of
        NUnsigned \<Rightarrow>
          (let n = decimal_value 0 t in if n < 2 ^ 64 then ValueUnsigned (of_nat n) else ValueFloat t)
      | NInteger \<Rightarrow>
          (let n = decimal_value 0 (tl t) in if n \<le> 2 ^ 63 then ValueInteger (- of_nat n) else ValueFloat t)
      | NFloat \<Rightarrow> ValueFloat t)"

definition scan_number :: "char \<Rightarrow> string \<Rightarrow> token \<times> string" where
  "scan_number c s =
     (case (if c = CHR ''-'' then number_loop NMinus NInteger s
            else if c = CHR ''0'' then number_loop NZero NUnsigned s
            else number_loop NAny1 NUnsigned s) of
        None \<Rightarrow> (ParseError, s)
      | Some (ty, t, r) \<Rightarrow> (number_token ty (c # t), r))"

fun scan_literal :: "string \<Rightarrow> token \<Rightarrow> string \<Rightarrow> token \<times> string" where
  "scan_literal [] tok s = (tok, s)"
| "scan_literal (l # ls) tok [] = (ParseError, [])"
| "scan_literal (l # ls) tok (c # s) = (if c = l then scan_literal ls tok s else (ParseError, s))"

fun skip_whitespace :: "string \<Rightarrow> string" where
  "skip_whitespace [] = []"
| "skip_whitespace (c # s) =
     (if c = CHR '' '' \<or> c = CHR 0x09 \<or> c = CHR 0x0A \<or> c = CHR 0x0D then skip_whitespace s else c # s)"

text \<open>\<^verbatim>\<open>scan()\<close> after the first token, when the byte order mark is no longer looked for.\<close>

definition scan :: "string \<Rightarrow> token \<times> string" where
  "scan s =
     (case skip_whitespace s of
        [] \<Rightarrow> (EndOfInput, [])
      | c # r \<Rightarrow>
          if c = CHR ''['' then (BeginArray, r)
          else if c = CHR '']'' then (EndArray, r)
          else if c = CHR ''{'' then (BeginObject, r)
          else if c = CHR ''}'' then (EndObject, r)
          else if c = CHR '':'' then (NameSeparator, r)
          else if c = CHR '','' then (ValueSeparator, r)
          else if c = CHR ''t'' then scan_literal ''rue'' LiteralTrue r
          else if c = CHR ''f'' then scan_literal ''alse'' LiteralFalse r
          else if c = CHR ''n'' then scan_literal ''ull'' LiteralNull r
          else if c = CHR 0x22 then
            (case scan_string r of None \<Rightarrow> (ParseError, r) | Some (t, r') \<Rightarrow> (ValueString t, r'))
          else if c = CHR ''-'' \<or> is_digit c then scan_number c r
          else if c = CHR 0x00 then (EndOfInput, r)
          else (ParseError, r))"

definition scan_first :: "string \<Rightarrow> token \<times> string" where
  "scan_first s =
     (case s of
        c # r \<Rightarrow>
          if c = CHR 0xEF then
            (case r of
               c1 # c2 # r' \<Rightarrow> if c1 = CHR 0xBB \<and> c2 = CHR 0xBF then scan r' else (ParseError, r')
             | _ \<Rightarrow> (ParseError, []))
          else scan s
      | [] \<Rightarrow> scan s)"

lemma skip_whitespace_shorter: "length (skip_whitespace s) \<le> length s"
  by (induction s) auto

lemma scan_literal_shorter: "length (snd (scan_literal ls tok s)) \<le> length s"
  by (induction ls tok s rule: scan_literal.induct) auto

lemma scan_number_shorter: "length (snd (scan_number c s)) \<le> length s"
  by (auto simp: scan_number_def split: option.splits if_splits dest: number_loop_shorter)

lemma scan_shorter: "scan s = (tok, r) \<Longrightarrow> length r < length s \<or> tok = EndOfInput"
proof (cases "skip_whitespace s")
  case Nil
  then show "scan s = (tok, r) \<Longrightarrow> ?thesis" by (simp add: scan_def)
next
  case (Cons c cs)
  assume "scan s = (tok, r)"
  moreover have "length cs < length s" using skip_whitespace_shorter [of s] Cons by simp
  moreover note scan_literal_shorter [of _ _ cs] scan_number_shorter [of c cs]
  ultimately show ?thesis using Cons
    by (auto simp: scan_def split: if_splits option.splits dest: scan_string_shorter)
       (metis le_less_trans snd_conv)+
qed

section \<open>The parser\<close>

text \<open>
  The builder's \<^verbatim>\<open>ref_stack\<close>: an array under construction, or an object with the key whose value
  comes next. The flags of \<^verbatim>\<open>states\<close> are the kinds of these frames.
\<close>

datatype frame = FArray "json list" | FObject "(string \<times> json) list" string

definition token_weight :: "token \<Rightarrow> string \<Rightarrow> nat" where
  "token_weight tok s = (if tok = EndOfInput then 0 else Suc (2 * length s))"

lemma scan_weight: "(tok, r) = scan s \<Longrightarrow> token_weight tok r \<le> 2 * length s"
  by (auto simp: token_weight_def dest!: sym [of _ "scan _"] scan_shorter)

lemma scan_consumes: "(tok, r) = scan s \<Longrightarrow> tok \<noteq> EndOfInput \<Longrightarrow> length r < length s"
  by (auto dest!: sym [of _ "scan _"] scan_shorter)

lemma scan_weight_after:
  "(tok, s1) = scan s \<Longrightarrow> tok \<noteq> EndOfInput \<Longrightarrow> (tok2, s2) = scan s1 \<Longrightarrow> token_weight tok2 s2 < 2 * length s"
  using scan_consumes [of tok s1 s] scan_weight [of tok2 s2 s1] by linarith

text \<open>
  \<open>parse_value\<close> is the \<^verbatim>\<open>switch (last_token)\<close> of the loop, \<open>parse_after\<close> the evaluation of the state
  once a value is complete, \<open>parse_key\<close> the key and the separator that both object branches read.
  A token that starts no value, or is not the one expected, throws \<^verbatim>\<open>parse_error.101\<close>.
\<close>

function parse_value :: "token \<Rightarrow> string \<Rightarrow> frame list \<Rightarrow> (json \<times> string) res"
  and parse_key :: "token \<Rightarrow> string \<Rightarrow> (string \<times> json) list \<Rightarrow> frame list \<Rightarrow> (json \<times> string) res"
  and parse_after :: "json \<Rightarrow> string \<Rightarrow> frame list \<Rightarrow> (json \<times> string) res" where
  "parse_value tok s fs =
     (case tok of
        BeginObject \<Rightarrow>
          (case scan s of
             (tok1, s1) \<Rightarrow>
               if tok1 = EndObject then parse_after (JObject []) s1 fs else parse_key tok1 s1 [] fs)
      | BeginArray \<Rightarrow>
          (case scan s of
             (tok1, s1) \<Rightarrow>
               if tok1 = EndArray then parse_after (JArray []) s1 fs else parse_value tok1 s1 (FArray [] # fs))
      | ValueFloat t \<Rightarrow> Inl FloatNumber
      | LiteralFalse \<Rightarrow> parse_after (JBool False) s fs
      | LiteralNull \<Rightarrow> parse_after JNull s fs
      | LiteralTrue \<Rightarrow> parse_after (JBool True) s fs
      | ValueInteger w \<Rightarrow> parse_after (JInt w) s fs
      | ValueString t \<Rightarrow> parse_after (JString t) s fs
      | ValueUnsigned w \<Rightarrow> parse_after (JUInt w) s fs
      | _ \<Rightarrow> Inl (JsonParseError 101))"
| "parse_key tok s m fs =
     (case tok of
        ValueString k \<Rightarrow>
          (case scan s of
             (tok1, s1) \<Rightarrow>
               if tok1 = NameSeparator then (case scan s1 of (tok2, s2) \<Rightarrow> parse_value tok2 s2 (FObject m k # fs))
               else Inl (JsonParseError 101))
      | _ \<Rightarrow> Inl (JsonParseError 101))"
| "parse_after v s fs =
     (case fs of
        [] \<Rightarrow> Inr (v, s)
      | FArray xs # fs' \<Rightarrow>
          (case scan s of
             (tok1, s1) \<Rightarrow>
               if tok1 = ValueSeparator then (case scan s1 of (tok2, s2) \<Rightarrow> parse_value tok2 s2 (FArray (xs @ [v]) # fs'))
               else if tok1 = EndArray then parse_after (JArray (xs @ [v])) s1 fs'
               else Inl (JsonParseError 101))
      | FObject m k # fs' \<Rightarrow>
          (case scan s of
             (tok1, s1) \<Rightarrow>
               if tok1 = ValueSeparator then (case scan s1 of (tok2, s2) \<Rightarrow> parse_key tok2 s2 (obj_put k v m) fs')
               else if tok1 = EndObject then parse_after (JObject (obj_put k v m)) s1 fs'
               else Inl (JsonParseError 101)))"
  by pat_completeness auto

termination
  by (relation "measure (\<lambda>x. case x of Inl (tok, s, fs) \<Rightarrow> token_weight tok s
        | Inr (Inl (tok, s, m, fs)) \<Rightarrow> token_weight tok s | Inr (Inr (v, s, fs)) \<Rightarrow> 2 * length s)")
     (auto simp: token_weight_def le_imp_less_Suc less_SucI intro: scan_consumes
        dest: scan_consumes scan_weight [unfolded token_weight_def] scan_weight_after [unfolded token_weight_def])

declare parse_value.simps [simp del] parse_key.simps [simp del] parse_after.simps [simp del]

text \<open>\<^verbatim>\<open>parser::parse()\<close> in strict mode: the input must end after the value.\<close>

definition json_parse :: "string \<Rightarrow> json res" where
  "json_parse s =
     (case scan_first s of
        (tok, r) \<Rightarrow>
          rbind (parse_value tok r []) (\<lambda>(v, r').
            (if fst (scan r') = EndOfInput then Inr v else Inl (JsonParseError 101))))"

lemmas json_parse_eval = parse_value.simps parse_key.simps parse_after.simps scan_first_def scan_def
  scan_string.simps scan_step_def scan_escape_def scan_number_def number_token_def is_digit_def

end
