(* ===== verification/Json_Roundtrip.thy ===== *)
theory Json_Roundtrip
  imports Json_Dump Json_Parse
begin

text \<open>
  Parsing what the serializer wrote. For every value whose strings are 7-bit characters and whose
  objects are ordered, the dump exists and parses back to the value, except that a non-negative
  signed number comes back as an unsigned one (\<open>json_norm\<close>). The locale \<open>json_codec\<close> states this
  as the contract between the two routines, for the protocol layer.
\<close>

section \<open>The values covered and their normal form\<close>

fun json_norm :: "json \<Rightarrow> json" where
  "json_norm (JObject m) = JObject (map (\<lambda>(k, v). (k, json_norm v)) m)"
| "json_norm (JArray xs) = JArray (map json_norm xs)"
| "json_norm (JInt w) = (if sint w < 0 then JInt w else JUInt w)"
| "json_norm j = j"

fun json_ok :: "json \<Rightarrow> bool" where
  "json_ok (JObject m) = (obj_sorted m \<and> (\<forall>kv\<in>set m. ascii (fst kv) \<and> json_ok (snd kv)))"
| "json_ok (JArray xs) = (\<forall>x\<in>set xs. json_ok x)"
| "json_ok (JString s) = ascii s"
| "json_ok _ = True"

text \<open>What may follow a value in a dump.\<close>

definition delim :: "string \<Rightarrow> bool" where
  "delim r = (r = [] \<or> hd r \<in> {CHR '','', CHR ''}'', CHR '']''})"

lemma delim_simps [simp]: "delim []" "delim (CHR '','' # r)" "delim (CHR ''}'' # r)" "delim (CHR '']'' # r)"
  by (simp_all add: delim_def)

section \<open>Strings\<close>

lemma hex_value_digit [simp]:
  assumes "n < 16"
  shows "hex_value (hex_digit n) = Some n"
proof -
  have "(of_char (char_of (48 + n) :: char) :: nat) = 48 + n" "(of_char (char_of (87 + n) :: char) :: nat) = 87 + n"
    using assms by simp_all
  then show ?thesis using assms by (simp add: hex_value_def hex_digit_def Let_def)
qed

lemma get_codepoint_hex4: "n < 65536 \<Longrightarrow> get_codepoint (tl (tl (hex4 n)) @ r) = Some (n, r)"
proof -
  assume n: "n < 65536"
  have "n div 4096 < 16" using n by (simp add: less_mult_imp_div_less)
  then have "n div 4096 mod 16 = n div 4096" by simp
  moreover have "n div 256 = n div 4096 * 16 + n div 256 mod 16" "n div 16 = n div 256 * 16 + n div 16 mod 16"
    using div_mult_mod_eq [of "n div 256" 16] div_mult_mod_eq [of "n div 16" 16]
    by (simp_all add: div_mult2_eq [symmetric])
  ultimately have "n div 4096 mod 16 * 4096 + n div 256 mod 16 * 256 + n div 16 mod 16 * 16 + n mod 16 = n"
    "n div 4096 * 4096 + n div 256 mod 16 * 256 + n div 16 mod 16 * 16 + n mod 16 = n"
    using div_mult_mod_eq [of n 16] by linarith+
  then show ?thesis by (simp add: hex4_def)
qed

lemma scan_step_escape:
  assumes "(of_char c :: nat) < 128"
  shows "scan_step (escape_char c @ r) = StrAdd [c] r"
proof -
  define n where "n = (of_char c :: nat)"
  have c: "c = char_of n" by (simp add: n_def)
  have hex: "scan_step (hex4 n @ r) = StrAdd [c] r" if "n < 32"
  proof -
    have eq: "hex4 n @ r = CHR 0x5C # CHR ''u'' # (tl (tl (hex4 n)) @ r)" by (simp add: hex4_def)
    have "scan_step (hex4 n @ r) = scan_unicode (tl (tl (hex4 n)) @ r)"
      unfolding eq scan_step_def scan_escape_def by simp
    then show ?thesis
      using that by (simp add: scan_unicode_def get_codepoint_hex4 codepoint_bytes_def c)
  qed
  have "n \<le> 31 \<or> 31 < n" by linarith
  then consider "n \<in> {8, 9, 10, 12, 13, 34, 92}" | "n \<le> 31" "n \<notin> {8, 9, 10, 12, 13}"
    | "31 < n" "n \<noteq> 34" "n \<noteq> 92" by blast
  then show ?thesis
  proof cases
    case 1
    then show ?thesis
      by (auto simp: escape_char_eq n_def [symmetric] c scan_step_def scan_escape_def)
         (simp_all add: char_of_def bit_0)
  next
    case 2
    with hex show ?thesis by (simp add: escape_char_eq n_def [symmetric])
  next
    case 3
    with assms show ?thesis by (simp add: escape_char_eq n_def [symmetric] scan_step_def)
  qed
qed

lemma scan_string_escaped:
  "ascii s \<Longrightarrow> scan_string (concat (map escape_char s) @ CHR 0x22 # r) = Some (s, r)"
proof (induction s)
  case Nil
  then show ?case by (simp add: scan_string.simps [of "CHR 0x22 # r"] scan_step_def)
next
  case (Cons c s)
  then show ?case
    by (subst scan_string.simps) (simp add: scan_step_escape)
qed

lemma scan_quoted:
  "ascii s \<Longrightarrow> scan (CHR 0x22 # concat (map escape_char s) @ CHR 0x22 # r) = (ValueString s, r)"
  by (simp add: scan_def scan_string_escaped)

section \<open>Integers\<close>

text \<open>The backward writer produces the usual decimal text.\<close>

lemma digits_backward_decimal: "digits_backward n acc = decimal n @ acc"
proof (induction n acc rule: digits_backward.induct)
  case (1 n acc)
  show ?case
  proof (cases "100 \<le> n")
    case True
    then have "\<not> n div 10 < 10" "n div 10 mod 10 = n mod 100 div 10"
      by (simp_all add: mod_mult2_eq [of n 10 10, simplified])
    with True have "decimal n = decimal (n div 100) @ [digit (n mod 100 div 10), digit (n mod 10)]"
      by (simp add: decimal.simps [of n] decimal.simps [of "n div 10"] div_mult2_eq [symmetric])
    with True 1 show ?thesis by (simp add: digits_backward_large)
  next
    case False
    then have "n div 10 < 10" by simp
    with False show ?thesis
      by (simp add: digits_backward_small decimal.simps [of n] decimal.simps [of "n div 10"])
  qed
qed

lemma is_digit_digit [simp]: "n < 10 \<Longrightarrow> is_digit (digit n)"
  by (simp add: is_digit_def)

lemma decimal_digits: "c \<in> set (decimal n) \<Longrightarrow> is_digit c"
proof (induction n rule: decimal.induct)
  case (1 n)
  then show ?case by (cases "n < 10") (auto simp: decimal.simps [of n])
qed

lemma decimal_value_append: "decimal_value a (s @ t) = decimal_value (decimal_value a s) t"
  by (induction s arbitrary: a) auto

lemma decimal_value_decimal: "decimal_value 0 (decimal n) = n"
proof (induction n rule: decimal.induct)
  case (1 n)
  then show ?case by (cases "n < 10") (auto simp: decimal.simps [of n] decimal_value_append)
qed

lemma decimal_head: "0 < n \<Longrightarrow> \<exists>c s. decimal n = c # s \<and> is_digit c \<and> c \<noteq> CHR ''0''"
proof (induction n rule: decimal.induct)
  case (1 n)
  show ?case
  proof (cases "n < 10")
    case True
    have "(of_char (digit n) :: nat) \<noteq> of_char (CHR ''0'')" using 1(2) True by simp
    then have "digit n \<noteq> CHR ''0''" by fastforce
    with True show ?thesis by (simp add: decimal.simps [of n])
  next
    case False
    then have "0 < n div 10" by linarith
    with 1(1) False obtain c s where "decimal (n div 10) = c # s" "is_digit c" "c \<noteq> CHR ''0''" by auto
    with False show ?thesis by (simp add: decimal.simps [of n])
  qed
qed

lemma number_loop_digits:
  "\<forall>c\<in>set s. is_digit c \<Longrightarrow> delim r \<Longrightarrow> number_loop NAny1 ty (s @ r) = Some (ty, s, r)"
  by (induction s) (cases r; auto simp: number_final_def delim_def is_digit_def)+

lemma number_loop_minus_digits:
  assumes "\<forall>c\<in>set s. is_digit c" and "is_digit c" "c \<noteq> CHR ''0''" and "delim r"
  shows "number_loop NMinus ty (c # s @ r) = Some (ty, c # s, r)"
  using assms by (simp add: number_loop_digits)

lemma is_digit_not:
  "is_digit c \<Longrightarrow> c \<notin> {CHR '' '', CHR 0x09, CHR 0x0A, CHR 0x0D, CHR ''['', CHR '']'', CHR ''{'', CHR ''}'',
     CHR '':'', CHR '','', CHR ''t'', CHR ''f'', CHR ''n'', CHR 0x22, CHR ''-''}"
  by (auto simp: is_digit_def)

lemma scan_digit: "is_digit c \<Longrightarrow> scan (c # s) = scan_number c s"
  using is_digit_not [of c] by (simp add: scan_def)

lemma scan_unsigned:
  assumes "delim r"
  shows "scan (dump_unsigned w @ r) = (ValueUnsigned w, r)"
proof (cases "w = 0")
  case True
  then show ?thesis using assms
    by (cases r) (auto simp: dump_unsigned_def scan_def is_digit_def scan_number_def number_final_def
        number_token_def delim_def)
next
  case False
  then obtain c s where d: "decimal (unat w) = c # s" "is_digit c" "c \<noteq> CHR ''0''"
    using decimal_head [of "unat w"] by (auto simp: unat_gt_0)
  have s: "\<forall>x\<in>set s. is_digit x" using decimal_digits [of _ "unat w"] d by simp
  have v: "decimal_value 0 (c # s) = unat w" using decimal_value_decimal [of "unat w"] d by simp
  have "c \<noteq> CHR ''-''" using d(2) by (auto simp: is_digit_def)
  then show ?thesis
    using False d s assms v unsigned_less [of w, where 'a = nat]
    by (simp add: dump_unsigned_def digits_backward_decimal scan_digit scan_number_def
        number_loop_digits number_token_def del: decimal_value.simps)
qed

lemma remove_sign_minus: "remove_sign w = - w"
  by (simp add: remove_sign_def)

lemma unat_remove_sign: "sint (w :: u64) < 0 \<Longrightarrow> 0 < unat (- w) \<and> unat (- w) \<le> 2 ^ 63"
proof -
  assume neg: "sint w < 0"
  have "uint (- w) = uint (word_of_int (- sint w) :: u64)" by simp
  also have "\<dots> = (- sint w) mod 2 ^ 64" by (simp only: uint_word_of_int) simp
  also have "(- sint w) mod 2 ^ 64 = - sint w" using neg sint_range_size [of w] by (simp add: word_size)
  finally have "uint (- w) = - sint w" .
  with neg sint_range_size [of w] show ?thesis by (simp add: word_size unat_eq_nat_uint)
qed

lemma scan_signed:
  assumes "delim r"
  shows "scan (dump_signed w @ r) = (if sint w < 0 then ValueInteger w else ValueUnsigned w, r)"
proof (cases "sint w < 0")
  case False
  then have "dump_signed w = dump_unsigned w" by (simp add: dump_signed_def dump_unsigned_def)
  with False scan_unsigned [OF assms] show ?thesis by simp
next
  case True
  note b = unat_remove_sign [OF True]
  from decimal_head [of "unat (- w)"] b obtain c s where
    d: "decimal (unat (- w)) = c # s" "is_digit c" "c \<noteq> CHR ''0''" by auto
  have s: "\<forall>x\<in>set s. is_digit x" using decimal_digits [of _ "unat (- w)"] d by simp
  have v: "decimal_value 0 (c # s) = unat (- w)" using decimal_value_decimal [of "unat (- w)"] d by simp
  from True have "w \<noteq> 0" by auto
  then have "dump_signed w = CHR ''-'' # c # s"
    using True d by (simp add: dump_signed_def digits_backward_decimal remove_sign_minus)
  moreover have "scan (CHR ''-'' # x) = scan_number (CHR ''-'') x" for x
    by (simp add: scan_def)
  ultimately show ?thesis
    using True d s assms v b
    by (simp add: scan_number_def number_loop_minus_digits number_token_def
        del: decimal_value.simps number_loop.simps)
qed

section \<open>Values\<close>

text \<open>Reading a token and parsing on from it.\<close>

definition value_from :: "string \<Rightarrow> frame list \<Rightarrow> (json \<times> string) res" where
  "value_from s fs = (case scan s of (tok, r) \<Rightarrow> parse_value tok r fs)"

definition key_from :: "string \<Rightarrow> (string \<times> json) list \<Rightarrow> frame list \<Rightarrow> (json \<times> string) res" where
  "key_from s m fs = (case scan s of (tok, r) \<Rightarrow> parse_key tok r m fs)"

text \<open>\<open>s\<close> is the text of the value \<open>v\<close>.\<close>

definition text_of :: "string \<Rightarrow> json \<Rightarrow> bool" where
  "text_of s v \<longleftrightarrow>
     (\<forall>r. delim r \<longrightarrow> fst (scan (s @ r)) \<noteq> EndArray) \<and>
     (\<forall>r fs. delim r \<longrightarrow> value_from (s @ r) fs = parse_after v r fs)"

lemma text_ofI:
  assumes "\<And>r. delim r \<Longrightarrow> scan (s @ r) = (tok, r)" and "tok \<noteq> EndArray"
    and "\<And>r fs. parse_value tok r fs = parse_after v r fs"
  shows "text_of s v"
  using assms by (simp add: text_of_def value_from_def)

lemma scan_structural [simp]:
  "scan (CHR '','' # r) = (ValueSeparator, r)" "scan (CHR ''}'' # r) = (EndObject, r)"
  "scan (CHR '']'' # r) = (EndArray, r)" "scan (CHR ''{'' # r) = (BeginObject, r)"
  "scan (CHR ''['' # r) = (BeginArray, r)" "scan (CHR '':'' # r) = (NameSeparator, r)"
  by (simp_all add: scan_def)

lemma text_of_unsigned: "text_of (dump_unsigned w) (JUInt w)"
  by (rule text_ofI [OF scan_unsigned]) (simp_all add: parse_value.simps)

lemma text_of_signed: "text_of (dump_signed w) (json_norm (JInt w))"
  by (rule text_ofI [OF scan_signed]) (simp_all add: parse_value.simps)

lemma text_of_literals:
  "text_of ''true'' (JBool True)" "text_of ''false'' (JBool False)" "text_of ''null'' JNull"
  by (rule text_ofI [of _ LiteralTrue], simp_all add: scan_def parse_value.simps)
     (rule text_ofI [of _ LiteralFalse], simp_all add: scan_def parse_value.simps,
      rule text_ofI [of _ LiteralNull], simp_all add: scan_def parse_value.simps)

lemma text_of_string:
  "ascii s \<Longrightarrow> text_of (CHR 0x22 # concat (map escape_char s) @ [CHR 0x22]) (JString s)"
  by (rule text_ofI [of _ "ValueString s"]) (simp_all add: scan_quoted parse_value.simps)

text \<open>The text of the members of an object continues a partly read object, up to its brace.\<close>

definition text_of_members :: "string \<Rightarrow> (string \<times> json) list \<Rightarrow> bool" where
  "text_of_members s m \<longleftrightarrow>
     (\<forall>r. fst (scan (s @ CHR ''}'' # r)) \<noteq> EndObject) \<and>
     (\<forall>r fs m0. (\<forall>x\<in>set m0. \<forall>y\<in>set m. str_less (fst x) (fst y)) \<longrightarrow>
        key_from (s @ CHR ''}'' # r) m0 fs = parse_after (JObject (m0 @ m)) r fs)"

definition text_of_elements :: "string \<Rightarrow> json list \<Rightarrow> bool" where
  "text_of_elements s xs \<longleftrightarrow>
     (\<forall>r. fst (scan (s @ CHR '']'' # r)) \<noteq> EndArray) \<and>
     (\<forall>r fs ys. value_from (s @ CHR '']'' # r) (FArray ys # fs) = parse_after (JArray (ys @ xs)) r fs)"

lemma text_of_object:
  assumes "text_of_members s m"
  shows "text_of (''{'' @ s @ ''}'') (JObject m)"
proof -
  have "parse_value BeginObject (s @ CHR ''}'' # r) fs = key_from (s @ CHR ''}'' # r) [] fs" for r fs
  proof -
    obtain tok r' where tok: "scan (s @ CHR ''}'' # r) = (tok, r')" by (cases "scan (s @ CHR ''}'' # r)")
    moreover from assms have "fst (scan (s @ CHR ''}'' # r)) \<noteq> EndObject" by (simp add: text_of_members_def)
    ultimately show ?thesis by (cases tok) (simp_all add: parse_value.simps [of BeginObject] key_from_def)
  qed
  then show ?thesis
    using assms by (simp add: text_of_def text_of_members_def value_from_def)
qed

lemma text_of_array:
  assumes "text_of_elements s xs"
  shows "text_of (''['' @ s @ '']'') (JArray xs)"
proof -
  have "parse_value BeginArray (s @ CHR '']'' # r) fs = value_from (s @ CHR '']'' # r) (FArray [] # fs)" for r fs
  proof -
    obtain tok r' where tok: "scan (s @ CHR '']'' # r) = (tok, r')" by (cases "scan (s @ CHR '']'' # r)")
    moreover from assms have "fst (scan (s @ CHR '']'' # r)) \<noteq> EndArray" by (simp add: text_of_elements_def)
    ultimately show ?thesis by (cases tok) (simp_all add: parse_value.simps [of BeginArray] value_from_def)
  qed
  then show ?thesis
    using assms by (simp add: text_of_def text_of_elements_def value_from_def)
qed

text \<open>One member: its key, the separator, its value.\<close>

lemma key_from_member:
  assumes "ascii k" and "text_of d v" and "delim r"
  shows "key_from (CHR 0x22 # concat (map escape_char k) @ CHR 0x22 # CHR '':'' # d @ r) m0 fs =
         parse_after v r (FObject m0 k # fs)"
  using assms
  by (simp add: key_from_def scan_quoted parse_key.simps text_of_def value_from_def
      prod.case_eq_if)

lemma text_of_members_single:
  assumes "ascii k" and "text_of d v"
  shows "text_of_members (CHR 0x22 # concat (map escape_char k) @ CHR 0x22 # CHR '':'' # d) [(k, v)]"
  unfolding text_of_members_def
proof (intro conjI allI impI)
  fix r fs and m0 :: "(string \<times> json) list"
  assume "\<forall>x\<in>set m0. \<forall>y\<in>set [(k, v)]. str_less (fst x) (fst y)"
  then have "obj_put k v m0 = m0 @ [(k, v)]" by (intro obj_put_last) auto
  then show "key_from ((CHR 0x22 # concat (map escape_char k) @ CHR 0x22 # CHR '':'' # d) @ CHR ''}'' # r) m0 fs =
      parse_after (JObject (m0 @ [(k, v)])) r fs"
    using key_from_member [OF assms, of "CHR ''}'' # r" m0 fs]
    by (simp add: parse_after.simps [of _ "_ # _"])
qed (simp add: scan_quoted assms)

lemma text_of_members_cons:
  assumes "ascii k" and "text_of d v" and "text_of_members s m"
    and "\<forall>y\<in>set m. str_less k (fst y)"
  shows "text_of_members (CHR 0x22 # concat (map escape_char k) @ CHR 0x22 # CHR '':'' # d @ '','' @ s) ((k, v) # m)"
  unfolding text_of_members_def
proof (intro conjI allI impI)
  fix r fs and m0 :: "(string \<times> json) list"
  assume m0: "\<forall>x\<in>set m0. \<forall>y\<in>set ((k, v) # m). str_less (fst x) (fst y)"
  then have put: "obj_put k v m0 = m0 @ [(k, v)]" by (intro obj_put_last) auto
  have "key_from (s @ CHR ''}'' # r) (m0 @ [(k, v)]) fs = parse_after (JObject ((m0 @ [(k, v)]) @ m)) r fs"
    using assms(3,4) m0 unfolding text_of_members_def by auto
  then show "key_from ((CHR 0x22 # concat (map escape_char k) @ CHR 0x22 # CHR '':'' # d @ '','' @ s) @ CHR ''}'' # r) m0 fs =
      parse_after (JObject (m0 @ (k, v) # m)) r fs"
    using key_from_member [OF assms(1,2), of "CHR '','' # s @ CHR ''}'' # r" m0 fs] put
    by (simp add: parse_after.simps [of _ "_ # _"] key_from_def)
qed (simp add: scan_quoted assms)

lemma text_of_elements_single:
  assumes "text_of d v"
  shows "text_of_elements d [v]"
  using assms by (simp add: text_of_elements_def text_of_def parse_after.simps [of _ "_ # _"])

lemma text_of_elements_cons:
  assumes "text_of d v" and "text_of_elements s xs"
  shows "text_of_elements (d @ '','' @ s) (v # xs)"
  using assms
  by (simp add: text_of_elements_def text_of_def parse_after.simps [of _ "CHR '','' # _"] value_from_def)

lemma text_of_empty: "text_of ''{}'' (JObject [])" "text_of ''[]'' (JArray [])"
  by (simp_all add: text_of_def value_from_def parse_value.simps [of BeginObject] parse_value.simps [of BeginArray])

text \<open>The texts the serializer writes.\<close>

lemma json_dump_text:
  "json_ok j \<Longrightarrow> \<exists>s. json_dump j = Inr s \<and> text_of s (json_norm j)"
  "(\<forall>kv\<in>set m. ascii (fst kv) \<and> json_ok (snd kv)) \<Longrightarrow> obj_sorted m \<Longrightarrow> m \<noteq> [] \<Longrightarrow>
     \<exists>s. dump_members m = Inr s \<and> text_of_members s (map (\<lambda>(k, v). (k, json_norm v)) m)"
  "(\<forall>x\<in>set xs. json_ok x) \<Longrightarrow> xs \<noteq> [] \<Longrightarrow>
     \<exists>s. dump_elements xs = Inr s \<and> text_of_elements s (map json_norm xs)"
proof (induction j and m and xs rule: json_dump_dump_members_dump_elements.induct)
  case (1 m)
  show ?case
  proof (cases "m = []")
    case True
    with text_of_empty show ?thesis by simp
  next
    case False
    with 1 obtain s where "dump_members m = Inr s" "text_of_members s (map (\<lambda>(k, v). (k, json_norm v)) m)"
      by auto
    with False text_of_object show ?thesis by fastforce
  qed
next
  case (2 xs)
  show ?case
  proof (cases "xs = []")
    case True
    with text_of_empty show ?thesis by simp
  next
    case False
    with 2 obtain s where "dump_elements xs = Inr s" "text_of_elements s (map json_norm xs)"
      by auto
    with False text_of_array show ?thesis by fastforce
  qed
next
  case (9 k v m)
  from "9.prems"(1) have k: "ascii k" "json_ok v" by auto
  with "9.IH"(1) [OF dump_escaped_ascii [OF k(1)]] obtain d where d: "json_dump v = Inr d" "text_of d (json_norm v)"
    by auto
  show ?case
  proof (cases "m = []")
    case True
    with d k text_of_members_single [OF k(1) d(2)] show ?thesis by (simp add: dump_escaped_ascii)
  next
    case False
    from "9.prems" have "obj_sorted m" "\<forall>y\<in>set m. str_less k (fst y)" by (auto simp: obj_sorted_def)
    moreover from this "9.prems" "9.IH"(2) [OF dump_escaped_ascii [OF k(1)] d(1) False] False
    obtain s where "dump_members m = Inr s" "text_of_members s (map (\<lambda>(k, v). (k, json_norm v)) m)"
      by auto
    ultimately show ?thesis
      using d k False text_of_members_cons [OF k(1) d(2)] by (fastforce simp: dump_escaped_ascii)
  qed
next
  case (11 x xs)
  then obtain d where d: "json_dump x = Inr d" "text_of d (json_norm x)" by auto
  show ?case
  proof (cases "xs = []")
    case True
    with d text_of_elements_single show ?thesis by simp
  next
    case False
    with 11 d obtain s where "dump_elements xs = Inr s" "text_of_elements s (map json_norm xs)" by auto
    with d False text_of_elements_cons [OF d(2)] show ?thesis by fastforce
  qed
qed (use text_of_literals text_of_signed text_of_unsigned text_of_string in
     \<open>simp_all add: dump_escaped_ascii del: json_norm.simps(3)\<close>)

lemma text_of_whole: "text_of s v \<Longrightarrow> value_from s [] = Inr (v, [])"
proof -
  assume "text_of s v"
  then have "value_from (s @ []) [] = parse_after v [] []"
    unfolding text_of_def using delim_simps(1) by blast
  then show ?thesis by (simp add: parse_after.simps)
qed

lemma text_of_not_bom:
  assumes "text_of s v"
  shows "scan_first s = scan s"
proof (cases s)
  case Nil
  then show ?thesis by (simp add: scan_first_def)
next
  case (Cons c r)
  have "c \<noteq> CHR 0xEF"
  proof
    assume "c = CHR 0xEF"
    with Cons have "scan s = (ParseError, r)" by (simp add: scan_def is_digit_def)
    then have "value_from s [] = Inl (JsonParseError 101)" by (simp add: value_from_def parse_value.simps)
    with text_of_whole [OF assms] show False by simp
  qed
  with Cons show ?thesis by (simp add: scan_first_def)
qed

lemma json_parse_text:
  assumes "text_of s v"
  shows "json_parse s = Inr v"
proof -
  obtain tok r where scan: "scan s = (tok, r)" by (cases "scan s")
  note text_of_whole [OF assms]
  then have "parse_value tok r [] = Inr (v, [])" by (simp add: value_from_def scan)
  then show ?thesis
    by (simp add: json_parse_def text_of_not_bom [OF assms] scan) (simp add: scan_def)
qed

lemma json_roundtrip_law: "json_ok j \<Longrightarrow> \<exists>s. json_dump j = Inr s \<and> json_parse s = Inr (json_norm j)"
  using json_dump_text(1) json_parse_text by blast

section \<open>The contract for the protocol layer\<close>

text \<open>
  What the packet layer needs of a pair of a serializer and a parser: on the values it sends,
  writing succeeds and reading gives an equal value up to a normal form.
\<close>

locale json_codec =
  fixes wr :: "'j \<Rightarrow> string res"
    and rd :: "string \<Rightarrow> 'j res"
    and valid :: "'j \<Rightarrow> bool"
    and norm :: "'j \<Rightarrow> 'j"
  assumes read_write: "valid j \<Longrightarrow> \<exists>s. wr j = Inr s \<and> rd s = Inr (norm j)"
begin

lemma write_total: "valid j \<Longrightarrow> \<exists>s. wr j = Inr s"
  using read_write by blast

lemma read_of_write: "valid j \<Longrightarrow> wr j = Inr s \<Longrightarrow> rd s = Inr (norm j)"
  using read_write [of j] by auto

lemma write_inject: "valid j \<Longrightarrow> valid k \<Longrightarrow> wr j = wr k \<Longrightarrow> norm j = norm k"
  using read_write [of j] read_write [of k] by auto

end

interpretation codec: json_codec json_dump json_parse json_ok json_norm
  by unfold_locales (rule json_roundtrip_law)

section \<open>The round trip\<close>

text \<open>
  C13: JSON text round trip. Every JSON value built from objects with ordered keys, arrays, 64-bit
  integers, booleans, null and 7-bit strings (control characters, quotes and backslashes
  included) is serialised without an exception, and parsing the text gives the value back, with
  non-negative signed integers read as unsigned ones.
\<close>

theorem json_roundtrip:
  assumes "json_ok j"
  shows "\<exists>s. json_dump j = Inr s \<and> json_parse s = Inr (json_norm j)"
  using assms by (rule codec.read_write)

theorem json_roundtrip_witness:
  "\<exists>s. json_dump (JObject [(''a'', JInt (- 5)), (''b'', JArray [JString [CHR 0x0A, CHR 0x22], JNull])]) = Inr s \<and>
     json_parse s = Inr (json_norm (JObject [(''a'', JInt (- 5)), (''b'', JArray [JString [CHR 0x0A, CHR 0x22], JNull])]))"
  by (rule json_roundtrip) (simp add: obj_sorted_def)

end
