(* ===== verification/Broker_Protocol.thy ===== *)
theory Broker_Protocol
  imports Json_Roundtrip
begin

text \<open>
  The wire format of \<^verbatim>\<open>include/crps/broker_protocol.h\<close> and \<^verbatim>\<open>src/broker_protocol.cpp\<close>: packed headers
  in network byte order, control packets with a JSON text, data packets with a fixed payload, and
  the decoder both the broker and the nodes run on their receive buffer. The decoder is given the
  whole buffer and the number of bytes received, as in the code, so that reading what an earlier,
  longer packet left behind is part of the model.
\<close>

section \<open>Headers\<close>

text \<open>
  \<^verbatim>\<open>BpType\<close> is an enumeration over \<^verbatim>\<open>uint8_t\<close>, so a received header can hold any byte in it, not
  only the three enumerators.
\<close>

definition bp_invalid :: byte where "bp_invalid = 0"
definition bp_control :: byte where "bp_control = 1"
definition bp_data :: byte where "bp_data = 2"

lemmas bp_type_defs = bp_invalid_def bp_control_def bp_data_def

record bp_header =
  bph_type :: byte
  bph_counter :: u32

record bp_control_header =
  bpc_size :: u32

record bp_data_header =
  bpd_topic_id :: u32
  bpd_message_type_id :: u32
  bpd_size :: u32

definition bp_header_size :: nat where "bp_header_size = 5"
definition bp_control_header_size :: nat where "bp_control_header_size = 4"
definition bp_data_header_size :: nat where "bp_data_header_size = 12"

lemmas bp_sizes = bp_header_size_def bp_control_header_size_def bp_data_header_size_def

section \<open>Network byte order\<close>

text \<open>The four bytes in memory after storing \<^verbatim>\<open>htonl(w)\<close>, and \<^verbatim>\<open>ntohl\<close> of four bytes read back.\<close>

definition htonl_bytes :: "u32 \<Rightarrow> byte list" where
  "htonl_bytes w = [ucast (drop_bit 24 w), ucast (drop_bit 16 w), ucast (drop_bit 8 w), ucast w]"

definition ntohl_bytes :: "byte list \<Rightarrow> u32" where
  "ntohl_bytes bs = foldl (\<lambda>w b. push_bit 8 w OR ucast b) 0 bs"

definition read_u32 :: "nat \<Rightarrow> byte list \<Rightarrow> u32 res" where
  "read_u32 off buf = rbind (read_at off 4 buf) (\<lambda>bs. Inr (ntohl_bytes bs))"

lemma length_htonl_bytes [simp]: "length (htonl_bytes w) = 4"
  by (simp add: htonl_bytes_def)

lemma ntohl_htonl [simp]: "ntohl_bytes (htonl_bytes w) = w"
proof (rule bit_word_eqI)
  fix n
  assume "n < LENGTH(32)"
  then consider "n < 8" | "8 \<le> n" "n < 16" | "16 \<le> n" "n < 24" | "24 \<le> n" "n < 32"
    by fastforce
  then show "bit (ntohl_bytes (htonl_bytes w)) n \<longleftrightarrow> bit w n"
    by cases (auto simp: ntohl_bytes_def htonl_bytes_def bit_simps)
qed

lemma read_u32_prefix:
  "length pre = off \<Longrightarrow> read_u32 off (pre @ htonl_bytes w @ post) = Inr w"
  by (simp add: read_u32_def read_at_def slice_def)

section \<open>Writing packets\<close>

definition bp_control_json_to_packet_buffer :: "json \<Rightarrow> u32 \<Rightarrow> byte list res" where
  "bp_control_json_to_packet_buffer control_json counter =
     rbind (json_dump control_json) (\<lambda>control_string.
     Inr (bp_control # htonl_bytes counter @ htonl_bytes (of_nat (length control_string)) @
          map byte_of_char control_string))"

text \<open>The header is written over the first bytes of a buffer that already holds the payload.\<close>

definition bp_fill_data_header :: "u32 \<Rightarrow> u32 \<Rightarrow> u32 \<Rightarrow> u32 \<Rightarrow> byte list \<Rightarrow> byte list res" where
  "bp_fill_data_header counter topic_id message_type_id message_size buffer =
     rbind (write_at 0 (bp_data # htonl_bytes counter) buffer) (\<lambda>buffer1.
     write_at bp_header_size
       (htonl_bytes topic_id @ htonl_bytes message_type_id @ htonl_bytes message_size) buffer1)"

section \<open>Decoding packets\<close>

text \<open>The out-parameters of the decoder; its callers pass zeroed ones.\<close>

record decoded =
  dec_header :: bp_header
  dec_control_header :: bp_control_header
  dec_data_header :: bp_data_header
  dec_json :: json

definition decoded_zero :: decoded where
  "decoded_zero =
     \<lparr>dec_header = \<lparr>bph_type = 0, bph_counter = 0\<rparr>, dec_control_header = \<lparr>bpc_size = 0\<rparr>,
      dec_data_header = \<lparr>bpd_topic_id = 0, bpd_message_type_id = 0, bpd_size = 0\<rparr>, dec_json = JNull\<rparr>"

text \<open>
  \<open>decode_packet_buffer buf n\<close>. Both end offsets are computed in \<^verbatim>\<open>size_t\<close> and stored in a
  \<^verbatim>\<open>uint32_t\<close>, hence the word sums. Handing \<^verbatim>\<open>json::parse\<close> an end before the begin is undefined.
\<close>

definition decode_control :: "byte list \<Rightarrow> nat \<Rightarrow> decoded \<Rightarrow> (byte \<times> decoded) res" where
  "decode_control buf n d =
     rbind (read_u32 bp_header_size buf) (\<lambda>sz.
       let d1 = d\<lparr>dec_control_header := \<lparr>bpc_size = sz\<rparr>\<rparr>;
           json_begin = bp_header_size + bp_control_header_size;
           json_end_offset = of_nat json_begin + sz :: u32
       in if n < unat json_end_offset then Inr (bp_invalid, d1)
          else rbind (rguard (json_begin \<le> unat json_end_offset)) (\<lambda>_.
               rbind (read_at json_begin (unat json_end_offset - json_begin) buf) (\<lambda>bytes.
               rbind (json_parse (map char_of_byte bytes)) (\<lambda>j.
               Inr (bp_control, d1\<lparr>dec_json := j\<rparr>)))))"

definition decode_data :: "byte list \<Rightarrow> nat \<Rightarrow> decoded \<Rightarrow> (byte \<times> decoded) res" where
  "decode_data buf n d =
     rbind (read_u32 bp_header_size buf) (\<lambda>topic_id.
     rbind (read_u32 (bp_header_size + 4) buf) (\<lambda>message_type_id.
     rbind (read_u32 (bp_header_size + 8) buf) (\<lambda>sz.
       let d1 = d\<lparr>dec_data_header :=
                   \<lparr>bpd_topic_id = topic_id, bpd_message_type_id = message_type_id, bpd_size = sz\<rparr>\<rparr>;
           data_end_offset = of_nat (bp_header_size + bp_control_header_size) + sz :: u32
       in if n < unat data_end_offset then Inr (bp_invalid, d1) else Inr (bp_data, d1))))"

definition decode_packet_buffer :: "byte list \<Rightarrow> nat \<Rightarrow> (byte \<times> decoded) res" where
  "decode_packet_buffer buf n =
     (if n < bp_header_size then Inr (bp_invalid, decoded_zero)
      else
        rbind (at buf 0) (\<lambda>ty.
        rbind (read_u32 1 buf) (\<lambda>counter.
          let d = decoded_zero\<lparr>dec_header := \<lparr>bph_type = ty, bph_counter = counter\<rparr>\<rparr>
          in if ty = bp_control then decode_control buf n d
             else if ty = bp_data then decode_data buf n d
             else Inr (ty, d))))"

section \<open>Lemmas\<close>

lemma at_zero_Cons [simp]: "at (x # xs) 0 = Inr x"
  by (simp add: at_def)

text \<open>A buffer that starts with a header.\<close>

lemma decode_header_prefix:
  "decode_packet_buffer (ty # htonl_bytes c @ rest) n =
     (if n < bp_header_size then Inr (bp_invalid, decoded_zero)
      else
        let d = decoded_zero\<lparr>dec_header := \<lparr>bph_type = ty, bph_counter = c\<rparr>\<rparr>
        in if ty = bp_control then decode_control (ty # htonl_bytes c @ rest) n d
           else if ty = bp_data then decode_data (ty # htonl_bytes c @ rest) n d
           else Inr (ty, d))"
  using read_u32_prefix [of "[ty]" 1 c rest] by (simp add: decode_packet_buffer_def)

lemma decode_control_prefix:
  "decode_control (ty # htonl_bytes c @ htonl_bytes sz @ rest) n d =
     (let d1 = d\<lparr>dec_control_header := \<lparr>bpc_size = sz\<rparr>\<rparr>; end = 9 + sz
      in if n < unat end then Inr (bp_invalid, d1)
         else rbind (rguard (9 \<le> unat end)) (\<lambda>_.
              rbind (read_at 0 (unat end - 9) rest) (\<lambda>bytes.
              rbind (json_parse (map char_of_byte bytes)) (\<lambda>j. Inr (bp_control, d1\<lparr>dec_json := j\<rparr>)))))"
proof -
  have r: "read_u32 5 (ty # htonl_bytes c @ htonl_bytes sz @ rest) = Inr sz"
    using read_u32_prefix [of "ty # htonl_bytes c" 5 sz rest] by simp
  have d: "drop 9 (ty # htonl_bytes c @ htonl_bytes sz @ rest) = rest" by (simp add: numeral_eq_Suc)
  have "read_at 9 k (ty # htonl_bytes c @ htonl_bytes sz @ rest) = read_at 0 k rest" for k
    unfolding read_at_def slice_def d by simp
  with r show ?thesis by (simp add: decode_control_def bp_sizes Let_def)
qed

lemma decode_data_prefix:
  "decode_packet_buffer (bp_data # htonl_bytes c @ htonl_bytes t @ htonl_bytes mt @ htonl_bytes sz @ rest) n =
     (if n < 5 then Inr (bp_invalid, decoded_zero)
      else Inr (if n < unat (9 + sz) then bp_invalid else bp_data,
             decoded_zero\<lparr>dec_header := \<lparr>bph_type = bp_data, bph_counter = c\<rparr>,
               dec_data_header := \<lparr>bpd_topic_id = t, bpd_message_type_id = mt, bpd_size = sz\<rparr>\<rparr>))"
proof -
  let ?p = "bp_data # htonl_bytes c @ htonl_bytes t @ htonl_bytes mt @ htonl_bytes sz @ rest"
  have "read_u32 5 ?p = Inr t" "read_u32 9 ?p = Inr mt" "read_u32 13 ?p = Inr sz"
    using read_u32_prefix [of "bp_data # htonl_bytes c" 5 t]
      read_u32_prefix [of "bp_data # htonl_bytes c @ htonl_bytes t" 9 mt]
      read_u32_prefix [of "bp_data # htonl_bytes c @ htonl_bytes t @ htonl_bytes mt" 13 sz]
    by simp_all
  then show ?thesis
    unfolding decode_header_prefix by (simp add: bp_sizes bp_type_defs decode_data_def Let_def)
qed

text \<open>Parsing never touches memory outside its input.\<close>

lemma parse_faults:
  "parse_value tok s fs = Inl e \<Longrightarrow> e = FloatNumber \<or> e = JsonParseError 101"
  "parse_key tok s m fs = Inl e \<Longrightarrow> e = FloatNumber \<or> e = JsonParseError 101"
  "parse_after v s fs = Inl e \<Longrightarrow> e = FloatNumber \<or> e = JsonParseError 101"
proof (induction tok s fs and tok s m fs and v s fs rule: parse_value_parse_key_parse_after.induct)
  case (1 tok s fs)
  obtain tok1 s1 where "scan s = (tok1, s1)" by (cases "scan s")
  with 1 show ?case
    by (cases tok) (auto simp: parse_value.simps [of _ s] split: if_splits)
next
  case (2 tok s m fs)
  then show ?case
    by (cases tok; cases "scan s") (auto simp: parse_key.simps split: if_splits prod.splits)
next
  case (3 v s fs)
  show ?case
  proof (cases fs)
    case Nil
    with 3 show ?thesis by (simp add: parse_after.simps)
  next
    case (Cons f fs')
    with 3 show ?thesis
      by (cases f; cases "scan s") (auto simp: parse_after.simps [of v s] split: if_splits prod.splits)
  qed
qed

lemma json_parse_faults: "json_parse s = Inl e \<Longrightarrow> e = FloatNumber \<or> e = JsonParseError 101"
  by (auto simp: json_parse_def rbind_eq_Inl_iff split: prod.splits if_splits dest: parse_faults)

lemma unat_end_offset: "9 + n < 2 ^ 32 \<Longrightarrow> unat ((9 :: u32) + of_nat n) = 9 + n"
  using unat_of_nat_lt [of "9 + n", where 'a = 32] by (simp only: of_nat_add of_nat_numeral) simp

text \<open>Decoding what the two writers produce.\<close>

lemma decode_control_packet:
  assumes "json_ok j" and "bp_control_json_to_packet_buffer j c = Inr packet"
    and "length packet < 2 ^ 32"
  shows "decode_packet_buffer (packet @ rest) (length packet) =
    Inr (bp_control, decoded_zero\<lparr>dec_header := \<lparr>bph_type = bp_control, bph_counter = c\<rparr>,
      dec_control_header := \<lparr>bpc_size = of_nat (length packet - 9)\<rparr>, dec_json := json_norm j\<rparr>)"
proof -
  from assms(2) obtain s where s: "json_dump j = Inr s" and packet: "packet =
      bp_control # htonl_bytes c @ htonl_bytes (of_nat (length s)) @ map byte_of_char s"
    by (auto simp: bp_control_json_to_packet_buffer_def elim!: rbind_InrE)
  have parse: "json_parse s = Inr (json_norm j)" using codec.read_of_write [OF assms(1) s] .
  have len: "length packet = 9 + length s" by (simp add: packet)
  have e: "unat ((9 :: u32) + of_nat (length s)) = 9 + length s"
    using assms(3) len by (intro unat_end_offset) simp
  show ?thesis
    using parse len e unfolding packet append_Cons append_assoc decode_header_prefix
    by (simp add: bp_sizes bp_type_defs decode_control_prefix read_at_def slice_def packet)
qed

lemma decode_data_packet:
  assumes "length buffer = 17 + length payload" and "drop 17 buffer = payload"
    and "length buffer < 2 ^ 32"
  shows "\<exists>packet.
    bp_fill_data_header c topic_id message_type_id (of_nat (length payload)) buffer = Inr packet \<and>
    length packet = length buffer \<and> drop 17 packet = payload \<and>
    decode_packet_buffer (packet @ rest) (length packet) =
      Inr (bp_data, decoded_zero\<lparr>dec_header := \<lparr>bph_type = bp_data, bph_counter = c\<rparr>,
        dec_data_header := \<lparr>bpd_topic_id = topic_id, bpd_message_type_id = message_type_id,
                            bpd_size = of_nat (length payload)\<rparr>\<rparr>)"
proof -
  let ?size = "of_nat (length payload) :: u32"
  define packet where "packet = bp_data # htonl_bytes c @ htonl_bytes topic_id @
    htonl_bytes message_type_id @ htonl_bytes ?size @ payload"
  have fill: "bp_fill_data_header c topic_id message_type_id ?size buffer = Inr packet"
    using assms by (simp add: bp_fill_data_header_def write_at_def packet_def bp_sizes)
  have e: "unat ((9 :: u32) + ?size) = 9 + length payload"
    using assms(1,3) by (intro unat_end_offset) simp
  have len: "length packet = 17 + length payload" by (simp add: packet_def)
  have "decode_packet_buffer (packet @ rest) (length packet) =
      Inr (bp_data, decoded_zero\<lparr>dec_header := \<lparr>bph_type = bp_data, bph_counter = c\<rparr>,
        dec_data_header := \<lparr>bpd_topic_id = topic_id, bpd_message_type_id = message_type_id, bpd_size = ?size\<rparr>\<rparr>)"
    using e len unfolding packet_def append_Cons append_assoc decode_data_prefix by simp
  then show ?thesis
    using fill len assms(1) by (intro exI [of _ packet]) (simp add: packet_def)
qed

section \<open>Properties\<close>

text \<open>
  C12: a control packet decodes to what was sent. When a valid JSON value is written into a packet
  (shorter than 4 GiB), decoding the packet, whatever follows it in the receive buffer, yields the
  type Control, the counter, the size of the text and the value itself.
\<close>

theorem control_packet_roundtrip:
  assumes "json_ok j" and "bp_control_json_to_packet_buffer j c = Inr packet"
    and "length packet < 2 ^ 32"
  shows "decode_packet_buffer (packet @ rest) (length packet) =
    Inr (bp_control, decoded_zero\<lparr>dec_header := \<lparr>bph_type = bp_control, bph_counter = c\<rparr>,
      dec_control_header := \<lparr>bpc_size = of_nat (length packet - 9)\<rparr>, dec_json := json_norm j\<rparr>)"
  by (rule decode_control_packet [OF assms])

theorem control_packet_roundtrip_witness:
  "decode_packet_buffer
     ([1, 0, 0, 0, 7, 0, 0, 0, 4, 0x74, 0x72, 0x75, 0x65] @ [0xFF]) (length ([1, 0, 0, 0, 7, 0, 0, 0, 4, 0x74, 0x72, 0x75, 0x65] :: byte list)) =
    Inr (bp_control, decoded_zero\<lparr>dec_header := \<lparr>bph_type = bp_control, bph_counter = 7\<rparr>,
      dec_control_header := \<lparr>bpc_size = of_nat (length ([1, 0, 0, 0, 7, 0, 0, 0, 4, 0x74, 0x72, 0x75, 0x65] :: byte list) - 9)\<rparr>,
      dec_json := json_norm (JBool True)\<rparr>)"
  by (rule control_packet_roundtrip)
     (simp_all add: bp_control_json_to_packet_buffer_def htonl_bytes_def bp_control_def byte_of_char_def)

text \<open>
  C21: a data packet decodes to what was sent. Filling the header into a buffer that holds 17 bytes
  of header space and the payload leaves the payload in place, and decoding the packet yields the
  type Data, the counter, the topic, the message type and the payload size.
\<close>

theorem data_packet_roundtrip:
  assumes "length buffer = 17 + length payload" and "drop 17 buffer = payload"
    and "length buffer < 2 ^ 32"
  shows "\<exists>packet.
    bp_fill_data_header c topic_id message_type_id (of_nat (length payload)) buffer = Inr packet \<and>
    length packet = length buffer \<and> drop 17 packet = payload \<and>
    decode_packet_buffer (packet @ rest) (length packet) =
      Inr (bp_data, decoded_zero\<lparr>dec_header := \<lparr>bph_type = bp_data, bph_counter = c\<rparr>,
        dec_data_header := \<lparr>bpd_topic_id = topic_id, bpd_message_type_id = message_type_id,
                            bpd_size = of_nat (length payload)\<rparr>\<rparr>)"
  by (rule decode_data_packet [OF assms])

theorem data_packet_roundtrip_witness:
  "\<exists>packet.
    bp_fill_data_header 3 0 1 (of_nat (length ([0xAA, 0xBB] :: byte list))) (replicate 17 0xEE @ [0xAA, 0xBB]) = Inr packet \<and>
    length packet = length (replicate 17 0xEE @ [0xAA, 0xBB] :: byte list) \<and> drop 17 packet = [0xAA, 0xBB] \<and>
    decode_packet_buffer (packet @ [0]) (length packet) =
      Inr (bp_data, decoded_zero\<lparr>dec_header := \<lparr>bph_type = bp_data, bph_counter = 3\<rparr>,
        dec_data_header := \<lparr>bpd_topic_id = 0, bpd_message_type_id = 1,
                            bpd_size = of_nat (length ([0xAA, 0xBB] :: byte list))\<rparr>\<rparr>)"
  by (rule data_packet_roundtrip) simp_all

text \<open>
  C34: when decoding is memory-safe. For a packet of at most the buffer's size in a buffer of at
  least 17 bytes, the decoder reads out of bounds exactly when the packet is a control packet whose
  announced size makes the 32-bit end offset wrap around below the start of the JSON text, that is
  when the size field is one of the nine largest 32-bit values and the wrapped offset passes the
  length check.
\<close>

theorem decode_unsafe_iff:
  assumes "n \<le> length buf" and "17 \<le> length buf"
  shows "decode_packet_buffer buf n = Inl OutOfBounds \<longleftrightarrow>
    5 \<le> n \<and> buf ! 0 = bp_control \<and>
    (\<exists>size. read_u32 5 buf = Inr size \<and> 2 ^ 32 - 9 \<le> unat size \<and> unat size + 9 - 2 ^ 32 \<le> n)"
proof -
  have rd: "\<exists>w. read_u32 k buf = Inr w" if "k \<le> 13" for k
    using that assms(2) by (simp add: read_u32_def read_at_def)
  from rd [of 1] rd [of 5] rd [of 9] rd [of 13] obtain c sz w2 w3 where
    w: "read_u32 1 buf = Inr c" "read_u32 5 buf = Inr sz" "read_u32 9 buf = Inr w2" "read_u32 13 buf = Inr w3"
    by auto
  have wrap: "unat (9 + sz) = (if 2 ^ 32 - 9 \<le> unat sz then unat sz + 9 - 2 ^ 32 else unat sz + 9)"
    using unsigned_less [of sz, where 'a = nat] by (auto simp: unat_word_ariths mod_if)
  have ctl: "decode_control buf n d = Inl OutOfBounds \<longleftrightarrow>
      2 ^ 32 - 9 \<le> unat sz \<and> unat sz + 9 - 2 ^ 32 \<le> n" for d
    using assms wrap unsigned_less [of sz, where 'a = nat]
    by (auto simp: decode_control_def w bp_sizes Let_def rguard_def read_at_def rbind_eq_Inl_iff
        dest!: json_parse_faults)
  have dat: "decode_data buf n d \<noteq> Inl OutOfBounds" for d
    by (simp add: decode_data_def bp_sizes w Let_def)
  have "buf \<noteq> []" using assms(2) by auto
  then show ?thesis
    using ctl dat w by (auto simp: decode_packet_buffer_def bp_sizes Let_def)
qed

theorem decode_unsafe_iff_witness:
  "decode_packet_buffer ([1, 0, 0, 0, 1, 0xFF, 0xFF, 0xFF, 0xFF] @ replicate 8 0) 9 = Inl OutOfBounds \<longleftrightarrow>
    5 \<le> (9 :: nat) \<and> ([1, 0, 0, 0, 1, 0xFF, 0xFF, 0xFF, 0xFF] @ replicate 8 0) ! 0 = bp_control \<and>
    (\<exists>size. read_u32 5 ([1, 0, 0, 0, 1, 0xFF, 0xFF, 0xFF, 0xFF] @ replicate 8 0) = Inr size \<and>
       2 ^ 32 - 9 \<le> unat size \<and> unat size + 9 - 2 ^ 32 \<le> (9 :: nat))"
  by (rule decode_unsafe_iff) simp_all

text \<open>
  C40: the length check of data packets is eight bytes short. The end offset adds the size of the
  control header (4) where the data header (12) is meant: a data packet of \<open>n\<close> bytes is accepted
  exactly when its announced payload size is at most \<open>n - 9\<close>, although only \<open>n - 17\<close> bytes follow
  the headers (for announced sizes that do not wrap the 32-bit offset).
\<close>

theorem data_length_check_short:
  assumes "5 \<le> n" and "unat sz < 2 ^ 32 - 9"
  shows "decode_packet_buffer
      (bp_data # htonl_bytes c @ htonl_bytes t @ htonl_bytes mt @ htonl_bytes sz @ rest) n =
    Inr (if 9 + unat sz \<le> n then bp_data else bp_invalid,
         decoded_zero\<lparr>dec_header := \<lparr>bph_type = bp_data, bph_counter = c\<rparr>,
           dec_data_header := \<lparr>bpd_topic_id = t, bpd_message_type_id = mt, bpd_size = sz\<rparr>\<rparr>)"
proof -
  have "unat (9 + sz) = 9 + unat sz" using assms(2) by (simp add: unat_word_ariths)
  then show ?thesis using assms(1) unfolding decode_data_prefix by simp
qed

theorem data_length_check_short_witness:
  "decode_packet_buffer
      (bp_data # htonl_bytes 1 @ htonl_bytes 0 @ htonl_bytes 0 @ htonl_bytes 8 @ []) 17 =
    Inr (if 9 + unat (8 :: u32) \<le> (17 :: nat) then bp_data else bp_invalid,
         decoded_zero\<lparr>dec_header := \<lparr>bph_type = bp_data, bph_counter = 1\<rparr>,
           dec_data_header := \<lparr>bpd_topic_id = 0, bpd_message_type_id = 0, bpd_size = 8\<rparr>\<rparr>)"
  by (rule data_length_check_short) simp_all

end
