(* ===== verification/Network.thy ===== *)
theory Network
  imports Crps_Prelude
begin

text \<open>
  The abstract class \<^verbatim>\<open>Network\<close> of \<^verbatim>\<open>include/crps/network.h\<close>: a record of its virtual operations over
  a state of their own, which the broker and the nodes get as a parameter and call through. An
  address is \<^verbatim>\<open>HOST:PORT\<close>. Any operation may throw, because the Linux implementation parses ports
  with \<^verbatim>\<open>std::stoi\<close>. The constants of \<^verbatim>\<open>defaults.h\<close> and \<^verbatim>\<open>topic.h\<close> are here as well.
\<close>

datatype protocol = ProtocolInvalid | UDP | TCP

datatype errno = EAGAIN | EWOULDBLOCK | EOther

text \<open>
  The outcome of \<^verbatim>\<open>recvfrom\<close>: the bytes written to the start of the buffer (as many as the returned
  count) with the sender, or a negative count, the \<^verbatim>\<open>errno\<close> the caller sees, and the bytes that a
  failing call may nevertheless have left in the buffer.
\<close>

datatype recv_result = Received "byte list" string | RecvFailed errno "byte list"

record 'w network =
  nw_socket :: "protocol \<Rightarrow> 'w \<Rightarrow> (bool \<times> 'w) res"
  nw_bind :: "string \<Rightarrow> 'w \<Rightarrow> (bool \<times> 'w) res"
  nw_listen :: "'w \<Rightarrow> (bool \<times> 'w) res"
  nw_accept :: "'w \<Rightarrow> (bool \<times> 'w) res"
  nw_connect :: "string \<Rightarrow> 'w \<Rightarrow> (bool \<times> 'w) res"
  nw_sendto :: "string \<Rightarrow> byte list \<Rightarrow> 'w \<Rightarrow> (bool \<times> 'w) res"
  nw_recvfrom :: "nat \<Rightarrow> bool \<Rightarrow> 'w \<Rightarrow> (recv_result \<times> 'w) res"
  nw_close :: "'w \<Rightarrow> (bool \<times> 'w) res"

text \<open>Sending one packet to several addresses in order; failures are reported, not acted upon.\<close>

fun send_each :: "'w network \<Rightarrow> string list \<Rightarrow> byte list \<Rightarrow> 'w \<Rightarrow> 'w res" where
  "send_each nw [] packet w = Inr w"
| "send_each nw (a # as) packet w =
     rbind (nw_sendto nw a packet w) (\<lambda>(ok, w1). send_each nw as packet w1)"

definition broker_default_port :: u16 where "broker_default_port = 12345"
definition message_queue_capacity :: nat where "message_queue_capacity = 10"
definition udp_buffer_size :: nat where "udp_buffer_size = 64 * 1024"

definition dontcare_topic_priority :: i8 where "dontcare_topic_priority = - 101"
definition lowest_topic_priority :: i8 where "lowest_topic_priority = - 100"
definition highest_topic_priority :: i8 where "highest_topic_priority = 100"

section \<open>A recording network\<close>

text \<open>
  An implementation of the interface for concrete runs: an inbox of packets with their senders and
  a log of what was sent. Nothing fails, and an empty inbox is reported as \<^verbatim>\<open>EAGAIN\<close>.
\<close>

record mailbox =
  mb_inbox :: "(byte list \<times> string) list"
  mb_sent :: "(string \<times> byte list) list"

definition mailbox_network :: "mailbox network" where
  "mailbox_network =
     \<lparr>nw_socket = (\<lambda>p w. Inr (True, w)), nw_bind = (\<lambda>a w. Inr (True, w)),
      nw_listen = (\<lambda>w. Inr (True, w)), nw_accept = (\<lambda>w. Inr (True, w)),
      nw_connect = (\<lambda>a w. Inr (True, w)),
      nw_sendto = (\<lambda>a packet w. Inr (True, w\<lparr>mb_sent := mb_sent w @ [(a, packet)]\<rparr>)),
      nw_recvfrom = (\<lambda>n block w.
        case mb_inbox w of
          [] \<Rightarrow> Inr (RecvFailed EAGAIN [], w)
        | (packet, sender) # rest \<Rightarrow> Inr (Received (take n packet) sender, w\<lparr>mb_inbox := rest\<rparr>)),
      nw_close = (\<lambda>w. Inr (False, w))\<rparr>"

lemma send_each_mailbox:
  "send_each mailbox_network as packet w = Inr (w\<lparr>mb_sent := mb_sent w @ map (\<lambda>a. (a, packet)) as\<rparr>)"
  by (induction as arbitrary: w) (simp_all add: mailbox_network_def)

end
