(* ===== verification/Broker.thy ===== *)
theory Broker
  imports Broker_Protocol Network "HOL-Library.Sublist"
begin

text \<open>
  The broker of \<^verbatim>\<open>include/crps/broker.h\<close> and \<^verbatim>\<open>src/broker.cpp\<close>: its registries of nodes, message types
  and topics, the counters of its clients, the handling of control requests and the forwarding of
  data packets. IDs are positions in the vectors. The network is a parameter. Log output is left
  out, but not the vector accesses inside the log statements: the informational ones are always
  evaluated, and the debug ones when the parameter \<open>debug_log\<close> (the build without
  \<^verbatim>\<open>CRPS_LOGGER_NO_DEBUG\<close>, which is the default) is on.
\<close>

section \<open>State\<close>

record node_info =
  ni_name :: string
  ni_address :: string

record message_type_info =
  mti_name :: string
  mti_size :: u32

record topic =
  t_name :: string
  t_message_type_id :: u32
  t_priority :: i8
  t_publishers :: "u32 list"
  t_subscribers :: "u32 list"

record broker =
  br_listen_address :: string
  br_protocol :: protocol
  br_client_counters :: "string \<rightharpoonup> u32"
  br_nodes :: "node_info list"
  br_message_types :: "message_type_info list"
  br_topics :: "topic list"

text \<open>The port is a signed 16-bit integer: ports from 32768 on become negative numbers here.\<close>

definition broker_new :: "string \<Rightarrow> protocol \<Rightarrow> u16 \<Rightarrow> broker" where
  "broker_new listen_ip proto port =
     \<lparr>br_listen_address = listen_ip @ '':'' @ to_string (sint port), br_protocol = proto,
      br_client_counters = Map.empty, br_nodes = [], br_message_types = [], br_topics = []\<rparr>"

definition broker_start :: "'w network \<Rightarrow> broker \<Rightarrow> 'w \<Rightarrow> (bool \<times> 'w) res" where
  "broker_start nw b w =
     rbind (nw_socket nw (br_protocol b) w) (\<lambda>(ok, w1).
     if \<not> ok then Inr (False, w1)
     else rbind (nw_bind nw (br_listen_address b) w1) (\<lambda>(ok, w2).
     if \<not> ok then Inr (False, w2)
     else rbind (nw_listen nw w2) (\<lambda>(ok, w3). Inr (ok, w3))))"

section \<open>Client counters\<close>

definition verify_and_update_client_counter :: "string \<Rightarrow> u32 \<Rightarrow> broker \<Rightarrow> bool \<times> broker" where
  "verify_and_update_client_counter client counter b =
     (case br_client_counters b client of
        None \<Rightarrow> (True, b\<lparr>br_client_counters := (br_client_counters b)(client \<mapsto> counter)\<rparr>)
      | Some c \<Rightarrow>
          if c + 1 \<noteq> counter then (False, b)
          else (True, b\<lparr>br_client_counters := (br_client_counters b)(client \<mapsto> counter)\<rparr>))"

section \<open>Registration\<close>

text \<open>A result \<open>None\<close> is the return value \<open>false\<close>, \<open>Some\<close> holds the out-parameters.\<close>

definition register_node :: "string \<Rightarrow> string \<Rightarrow> broker \<Rightarrow> u32 option \<times> broker" where
  "register_node client name b =
     (case find_index (\<lambda>ni. ni_name ni = name) (br_nodes b) of
        None \<Rightarrow>
          let nodes = br_nodes b @ [\<lparr>ni_name = name, ni_address = client\<rparr>]
          in (Some (of_nat (length nodes - 1)), b\<lparr>br_nodes := nodes\<rparr>)
      | Some _ \<Rightarrow> (None, b))"

definition register_message_type :: "string \<Rightarrow> u32 \<Rightarrow> broker \<Rightarrow> u32 option \<times> broker" where
  "register_message_type name msize b =
     (case find_index (\<lambda>mti. mti_name mti = name) (br_message_types b) of
        None \<Rightarrow>
          let types = br_message_types b @ [\<lparr>mti_name = name, mti_size = msize\<rparr>]
          in (Some (of_nat (length types - 1)), b\<lparr>br_message_types := types\<rparr>)
      | Some i \<Rightarrow>
          if mti_size (br_message_types b ! i) \<noteq> msize then (None, b) else (Some (of_nat i), b))"

text \<open>
  An unknown message type is only logged; the vector of message types is then indexed with it in
  the log statements of the branches that follow.
\<close>

definition register_topic ::
    "string \<Rightarrow> u32 \<Rightarrow> i8 \<Rightarrow> broker \<Rightarrow> ((u32 \<times> i8) option \<times> broker) res" where
  "register_topic name message_type_id priority b =
     (case find_index (\<lambda>t. t_name t = name) (br_topics b) of
        None \<Rightarrow>
          if priority = dontcare_topic_priority then Inr (None, b)
          else
            let topics = br_topics b @
                  [\<lparr>t_name = name, t_message_type_id = message_type_id, t_priority = priority,
                    t_publishers = [], t_subscribers = []\<rparr>]
            in rbind (at (br_message_types b) (unat message_type_id)) (\<lambda>_.
               Inr (Some (of_nat (length topics - 1), priority), b\<lparr>br_topics := topics\<rparr>))
      | Some i \<Rightarrow>
          let t = br_topics b ! i
          in if t_message_type_id t \<noteq> message_type_id then
               rbind (at (br_message_types b) (unat (t_message_type_id t))) (\<lambda>_.
               rbind (at (br_message_types b) (unat message_type_id)) (\<lambda>_.
               Inr (None, b)))
             else if priority \<noteq> dontcare_topic_priority \<and> t_priority t \<noteq> priority then Inr (None, b)
             else Inr (Some (of_nat i, t_priority t), b))"

definition validate_topic_parameters :: "u32 \<Rightarrow> u32 \<Rightarrow> u32 \<Rightarrow> broker \<Rightarrow> bool res" where
  "validate_topic_parameters node_id topic_id message_type_id b =
     (if length (br_nodes b) \<le> unat node_id then Inr False
      else if length (br_topics b) \<le> unat topic_id then Inr False
      else if length (br_message_types b) \<le> unat message_type_id then Inr False
      else
        let t = br_topics b ! unat topic_id
        in rbind (at (br_message_types b) (unat (t_message_type_id t))) (\<lambda>_.
           Inr (t_message_type_id t = message_type_id)))"

definition add_publisher :: "u32 \<Rightarrow> u32 \<Rightarrow> u32 \<Rightarrow> broker \<Rightarrow> (bool \<times> broker) res" where
  "add_publisher node_id topic_id message_type_id b =
     rbind (validate_topic_parameters node_id topic_id message_type_id b) (\<lambda>ok.
     if \<not> ok then Inr (False, b)
     else
       let i = unat topic_id; t = br_topics b ! i
       in Inr (True, b\<lparr>br_topics := (br_topics b)[i := t\<lparr>t_publishers := t_publishers t @ [node_id]\<rparr>]\<rparr>))"

definition add_subscriber :: "u32 \<Rightarrow> u32 \<Rightarrow> u32 \<Rightarrow> broker \<Rightarrow> (bool \<times> broker) res" where
  "add_subscriber node_id topic_id message_type_id b =
     rbind (validate_topic_parameters node_id topic_id message_type_id b) (\<lambda>ok.
     if \<not> ok then Inr (False, b)
     else
       let i = unat topic_id; t = br_topics b ! i
       in Inr (True, b\<lparr>br_topics := (br_topics b)[i := t\<lparr>t_subscribers := t_subscribers t @ [node_id]\<rparr>]\<rparr>))"

section \<open>Control requests\<close>

definition rpc_failure_response :: "u32 \<Rightarrow> u32 \<Rightarrow> string \<Rightarrow> json res" where
  "rpc_failure_response rpc_id error_code error_message =
     json_assign_all
       [([''rpc_id''], json_of_signed rpc_id), ([''success''], JBool False),
        ([''error_code''], json_of_signed error_code), ([''error_message''], JString error_message)] JNull"

text \<open>The two ways a handler answers: an error, or success with some results.\<close>

definition answer_failure :: "json \<Rightarrow> string \<Rightarrow> json res" where
  "answer_failure request message =
     rbind (json_at request ''rpc_id'') (\<lambda>j.
     rbind (json_to_word j) (\<lambda>rpc_id. rpc_failure_response rpc_id 0 message))"

definition answer_success :: "json \<Rightarrow> (string \<times> json) list \<Rightarrow> json res" where
  "answer_success request results =
     rbind (json_at request ''rpc_id'') (\<lambda>rpc_id.
     json_assign_all
       (([''rpc_id''], rpc_id) # ([''success''], JBool True) # map (\<lambda>(k, v). ([k], v)) results) JNull)"

text \<open>
  Parameters of a request. The arguments of a call are read from left to right here; C++ leaves
  the order open, which can only change the fault a malformed request ends in.
\<close>

definition param_word :: "json \<Rightarrow> string \<Rightarrow> string \<Rightarrow> 'a::len word res" where
  "param_word request scope name =
     rbind (json_at_path request [scope, ''params'', name]) json_to_word"

definition param_string :: "json \<Rightarrow> string \<Rightarrow> string \<Rightarrow> string res" where
  "param_string request scope name =
     rbind (json_at_path request [scope, ''params'', name]) json_to_string"

definition request_register_node :: "string \<Rightarrow> json \<Rightarrow> broker \<Rightarrow> (json \<times> broker) res" where
  "request_register_node client request b =
     rbind (param_string request ''node'' ''name'') (\<lambda>name.
     case register_node client name b of
       (None, b1) \<Rightarrow> rbind (answer_failure request ''Failed to register node'') (\<lambda>r. Inr (r, b1))
     | (Some node_id, b1) \<Rightarrow>
         rbind (answer_success request [(''node_id'', json_of_unsigned node_id)]) (\<lambda>r. Inr (r, b1)))"

definition request_register_message_type :: "json \<Rightarrow> broker \<Rightarrow> (json \<times> broker) res" where
  "request_register_message_type request b =
     rbind (param_string request ''message'' ''name'') (\<lambda>name.
     rbind (param_word request ''message'' ''size'') (\<lambda>msize.
     case register_message_type name msize b of
       (None, b1) \<Rightarrow> rbind (answer_failure request ''Failed to register message type'') (\<lambda>r. Inr (r, b1))
     | (Some i, b1) \<Rightarrow>
         rbind (answer_success request [(''message_type_id'', json_of_unsigned i)]) (\<lambda>r. Inr (r, b1))))"

definition request_register_topic :: "json \<Rightarrow> broker \<Rightarrow> (json \<times> broker) res" where
  "request_register_topic request b =
     rbind (param_string request ''topic'' ''name'') (\<lambda>name.
     rbind (param_word request ''topic'' ''message_type_id'') (\<lambda>message_type_id.
     rbind (param_word request ''topic'' ''priority'') (\<lambda>priority.
     rbind (register_topic name message_type_id priority b) (\<lambda>(outcome, b1).
     case outcome of
       None \<Rightarrow> rbind (answer_failure request ''Failed to register topic'') (\<lambda>r. Inr (r, b1))
     | Some (topic_id, actual_priority) \<Rightarrow>
         rbind (answer_success request
           [(''topic_id'', json_of_unsigned topic_id),
            (''topic_priority'', json_of_signed actual_priority)]) (\<lambda>r. Inr (r, b1))))))"

definition request_add_publisher :: "json \<Rightarrow> broker \<Rightarrow> (json \<times> broker) res" where
  "request_add_publisher request b =
     rbind (param_word request ''topic'' ''node_id'') (\<lambda>node_id.
     rbind (param_word request ''topic'' ''topic_id'') (\<lambda>topic_id.
     rbind (param_word request ''topic'' ''message_type_id'') (\<lambda>message_type_id.
     rbind (add_publisher node_id topic_id message_type_id b) (\<lambda>(ok, b1).
     rbind (if ok then answer_success request [] else answer_failure request ''Failed to add publisher'')
       (\<lambda>r. Inr (r, b1))))))"

definition request_add_subscriber :: "json \<Rightarrow> broker \<Rightarrow> (json \<times> broker) res" where
  "request_add_subscriber request b =
     rbind (param_word request ''topic'' ''node_id'') (\<lambda>node_id.
     rbind (param_word request ''topic'' ''topic_id'') (\<lambda>topic_id.
     rbind (param_word request ''topic'' ''message_type_id'') (\<lambda>message_type_id.
     rbind (add_subscriber node_id topic_id message_type_id b) (\<lambda>(ok, b1).
     rbind (if ok then answer_success request [] else answer_failure request ''Failed to add subscriber'')
       (\<lambda>r. Inr (r, b1))))))"

text \<open>Requests the broker does not know are answered with \<^verbatim>\<open>null\<close>.\<close>

definition process_control_request :: "string \<Rightarrow> json \<Rightarrow> broker \<Rightarrow> (json \<times> broker) res" where
  "process_control_request client request b =
     rbind (json_at request ''scope'') (\<lambda>scope.
     if json_eq_string scope ''node'' then
       rbind (json_at_path request [''node'', ''action'']) (\<lambda>action.
       if json_eq_string action ''register'' then request_register_node client request b
       else Inr (JNull, b))
     else if json_eq_string scope ''message'' then
       rbind (json_at_path request [''message'', ''action'']) (\<lambda>action.
       if json_eq_string action ''register'' then request_register_message_type request b
       else Inr (JNull, b))
     else if json_eq_string scope ''topic'' then
       rbind (json_at_path request [''topic'', ''action'']) (\<lambda>action.
       if json_eq_string action ''register'' then request_register_topic request b
       else if json_eq_string action ''add_publisher'' then request_add_publisher request b
       else if json_eq_string action ''add_subscriber'' then request_add_subscriber request b
       else Inr (JNull, b))
     else Inr (JNull, b))"

section \<open>Sending\<close>

text \<open>\<^verbatim>\<open>m_client_counters[p_address]\<close> inserts a zero for an unknown address.\<close>

definition send_control_response ::
    "'w network \<Rightarrow> string \<Rightarrow> json \<Rightarrow> broker \<Rightarrow> 'w \<Rightarrow> (bool \<times> broker \<times> 'w) res" where
  "send_control_response nw address response b w =
     (let counter = (case br_client_counters b address of Some c \<Rightarrow> c | None \<Rightarrow> 0);
          b1 = b\<lparr>br_client_counters := (br_client_counters b)(address \<mapsto> counter)\<rparr>
      in rbind (bp_control_json_to_packet_buffer response counter) (\<lambda>packet.
         rbind (nw_sendto nw address packet w) (\<lambda>(ok, w1). Inr (ok, b1, w1))))"

definition broker_send_data :: "'w network \<Rightarrow> string \<Rightarrow> byte list \<Rightarrow> 'w \<Rightarrow> (bool \<times> 'w) res" where
  "broker_send_data nw address packet w = nw_sendto nw address packet w"

fun send_to_subscribers ::
    "'w network \<Rightarrow> node_info list \<Rightarrow> u32 list \<Rightarrow> byte list \<Rightarrow> 'w \<Rightarrow> 'w res" where
  "send_to_subscribers nw nodes [] packet w = Inr w"
| "send_to_subscribers nw nodes (i # is) packet w =
     rbind (at nodes (unat i)) (\<lambda>node.
     rbind (broker_send_data nw (ni_address node) packet w) (\<lambda>(ok, w1).
     send_to_subscribers nw nodes is packet w1))"

section \<open>The main loop\<close>

text \<open>
  The data branch. The debug log reads the name of the topic before its ID is checked.
\<close>

definition forward_data ::
    "'w network \<Rightarrow> bool \<Rightarrow> bp_data_header \<Rightarrow> byte list \<Rightarrow> nat \<Rightarrow> broker \<Rightarrow> 'w \<Rightarrow> 'w res" where
  "forward_data nw debug_log header buffer n b w =
     (let topic_id = unat (bpd_topic_id header); message_type_id = bpd_message_type_id header
      in rbind (if debug_log then rbind (at (br_topics b) topic_id) (\<lambda>_. Inr ()) else Inr ()) (\<lambda>_.
         if length (br_topics b) \<le> topic_id then Inr w
         else if length (br_message_types b) \<le> unat message_type_id then Inr w
         else if t_message_type_id (br_topics b ! topic_id) \<noteq> message_type_id then Inr w
         else
           rbind (read_at 0 n buffer) (\<lambda>packet.
           send_to_subscribers nw (br_nodes b) (t_subscribers (br_topics b ! topic_id)) packet w)))"

text \<open>
  What the loop does with a received packet. The first component of the result says whether the
  loop goes on; a failing \<^verbatim>\<open>sendto\<close> of a control response ends it.
\<close>

definition handle_packet ::
    "'w network \<Rightarrow> bool \<Rightarrow> string \<Rightarrow> byte list \<Rightarrow> nat \<Rightarrow> broker \<Rightarrow> 'w \<Rightarrow> (bool \<times> broker \<times> 'w) res" where
  "handle_packet nw debug_log client buffer n b w =
     rbind (decode_packet_buffer buffer n) (\<lambda>(ty, d).
     case verify_and_update_client_counter client (bph_counter (dec_header d)) b of
       (ok, b1) \<Rightarrow>
         if \<not> ok then Inr (True, b1, w)
         else if ty = bp_invalid then Inr (True, b1, w)
         else if ty = bp_control then
           rbind (process_control_request client (dec_json d) b1) (\<lambda>(response, b2).
           send_control_response nw client response b2 w)
         else if ty = bp_data then
           rbind (forward_data nw debug_log (dec_data_header d) buffer n b1 w) (\<lambda>w1. Inr (True, b1, w1))
         else Inr (True, b1, w))"

text \<open>One iteration of \<^verbatim>\<open>spin()\<close>. The state is the broker, the receive buffer and the network.\<close>

type_synonym 'w broker_state = "broker \<times> byte list \<times> 'w"

definition broker_spin_once :: "'w network \<Rightarrow> bool \<Rightarrow> 'w broker_state \<Rightarrow> (bool \<times> 'w broker_state) res" where
  "broker_spin_once nw debug_log s =
     (case s of (b, buffer, w) \<Rightarrow>
        rbind (nw_recvfrom nw udp_buffer_size True w) (\<lambda>(received, w1).
        case received of
          RecvFailed _ bytes \<Rightarrow>
            rbind (write_at 0 bytes buffer) (\<lambda>buffer1. Inr (True, b, buffer1, w1))
        | Received bytes client \<Rightarrow>
            rbind (write_at 0 bytes buffer) (\<lambda>buffer1.
            rbind (handle_packet nw debug_log client buffer1 (length bytes) b w1) (\<lambda>(go_on, b1, w2).
            Inr (go_on, b1, buffer1, w2)))))"

text \<open>\<open>spin()\<close> for at most the given number of iterations; \<open>False\<close> when the loop has ended.\<close>

fun broker_spin :: "nat \<Rightarrow> 'w network \<Rightarrow> bool \<Rightarrow> 'w broker_state \<Rightarrow> (bool \<times> 'w broker_state) res" where
  "broker_spin 0 nw debug_log s = Inr (True, s)"
| "broker_spin (Suc k) nw debug_log s =
     rbind (broker_spin_once nw debug_log s) (\<lambda>(go_on, s1).
     if go_on then broker_spin k nw debug_log s1 else Inr (False, s1))"

end
