(* ===== verification/Registry.thy ===== *)
theory Registry
  imports Crps_Prelude "HOL-Library.Sublist"
begin

text \<open>
  The contract of the broker's three registries (nodes, message types, topics). A registry is a
  vector of entries with a name; the ID of an entry is its position, as a 32-bit number. A request
  either fails and changes nothing, or answers the ID under which the requested name stands. From
  this contract alone, the locale derives what clients rely on: names stay distinct, entries are
  never moved, and two clients get the same ID exactly when they asked for the same name.
\<close>

text \<open>A sequence of registration requests, with the answers.\<close>

fun register_all :: "('p \<Rightarrow> 's \<Rightarrow> ('a option \<times> 's) res) \<Rightarrow> 'p list \<Rightarrow> 's \<Rightarrow> ('a option list \<times> 's) res" where
  "register_all reg [] s = Inr ([], s)"
| "register_all reg (p # ps) s =
     rbind (reg p s) (\<lambda>(answer, s1).
     rbind (register_all reg ps s1) (\<lambda>(answers, s2). Inr (answer # answers, s2)))"

locale registry =
  fixes reg :: "'p \<Rightarrow> 's \<Rightarrow> (u32 option \<times> 's) res"
    and names :: "'s \<Rightarrow> string list"
    and name_of :: "'p \<Rightarrow> string"
  assumes refused: "reg p s = Inr (None, s') \<Longrightarrow> s' = s"
    and granted: "reg p s = Inr (Some i, s') \<Longrightarrow>
      (\<exists>k. find_index (\<lambda>x. x = name_of p) (names s) = Some k \<and> i = of_nat k \<and> names s' = names s) \<or>
      (name_of p \<notin> set (names s) \<and> i = of_nat (length (names s)) \<and> names s' = names s @ [name_of p])"
begin

lemma names_prefix: "reg p s = Inr (r, s') \<Longrightarrow> prefix (names s) (names s')"
  using refused [of p s s'] granted [of p s _ s'] by (cases r) auto

lemma names_distinct: "reg p s = Inr (r, s') \<Longrightarrow> distinct (names s) \<Longrightarrow> distinct (names s')"
  using refused [of p s s'] granted [of p s _ s'] by (cases r) auto

text \<open>The answered ID is the position of the name, as long as positions fit 32 bits.\<close>

lemma granted_position:
  assumes "reg p s = Inr (Some i, s')" and "length (names s') \<le> 2 ^ 32"
  shows "unat i < length (names s') \<and> names s' ! unat i = name_of p"
  using granted [OF assms(1)]
proof
  assume "\<exists>k. find_index (\<lambda>x. x = name_of p) (names s) = Some k \<and> i = of_nat k \<and> names s' = names s"
  then obtain k where k: "find_index (\<lambda>x. x = name_of p) (names s) = Some k" "i = of_nat k" "names s' = names s"
    by blast
  from find_index_Some [OF k(1)] have *: "k < length (names s)" "names s ! k = name_of p" by auto
  with k(3) assms(2) have "unat (of_nat k :: u32) = k" by (intro unat_of_nat_lt) simp
  with k(2,3) * show ?thesis by simp
next
  assume *: "name_of p \<notin> set (names s) \<and> i = of_nat (length (names s)) \<and> names s' = names s @ [name_of p]"
  with assms(2) have "unat (of_nat (length (names s)) :: u32) = length (names s)"
    by (intro unat_of_nat_lt) simp
  with * show ?thesis by simp
qed

lemma register_all_names:
  "register_all reg ps s = Inr (answers, s') \<Longrightarrow>
   prefix (names s) (names s') \<and> (distinct (names s) \<longrightarrow> distinct (names s')) \<and> length answers = length ps"
proof (induction ps arbitrary: s answers)
  case Nil
  then show ?case by simp
next
  case (Cons p ps)
  then obtain r s1 rs where step: "reg p s = Inr (r, s1)" "register_all reg ps s1 = Inr (rs, s')"
    and answers: "answers = r # rs"
    by (auto simp: rbind_eq_Inr_iff)
  show ?case
    using Cons.IH [OF step(2)] names_prefix [OF step(1)] names_distinct [OF step(1)]
    by (auto simp: answers intro: prefix_order.order_trans)
qed

lemma register_all_position:
  assumes "register_all reg ps s = Inr (answers, s')" and "length (names s') \<le> 2 ^ 32"
    and "m < length ps" and "answers ! m = Some i"
  shows "unat i < length (names s') \<and> names s' ! unat i = name_of (ps ! m)"
  using assms
proof (induction ps arbitrary: s answers m)
  case Nil
  then show ?case by simp
next
  case (Cons p ps)
  from Cons.prems(1) obtain r s1 rs where step: "reg p s = Inr (r, s1)" "register_all reg ps s1 = Inr (rs, s')"
    and answers: "answers = r # rs"
    by (auto simp: rbind_eq_Inr_iff)
  show ?case
  proof (cases m)
    case 0
    have pre: "prefix (names s1) (names s')" using register_all_names [OF step(2)] by blast
    then have "length (names s1) \<le> 2 ^ 32" using Cons.prems(2) prefix_length_le order_trans by blast
    with 0 step(1) answers Cons.prems(4) granted_position [of p s i s1]
    have "unat i < length (names s1) \<and> names s1 ! unat i = name_of p" by simp
    with pre 0 show ?thesis by (auto simp: prefix_def nth_append)
  next
    case (Suc m')
    then show ?thesis using Cons.IH [OF step(2) Cons.prems(2), of m'] Cons.prems(3,4) answers by simp
  qed
qed

text \<open>Names and IDs determine each other.\<close>

lemma ids_agree:
  assumes run: "register_all reg ps s = Inr (answers, s')"
    and fits: "length (names s') \<le> 2 ^ 32" and distinct: "distinct (names s)"
    and m: "m < length ps" "answers ! m = Some i" and n: "n < length ps" "answers ! n = Some j"
  shows "i = j \<longleftrightarrow> name_of (ps ! m) = name_of (ps ! n)"
proof -
  note im = register_all_position [OF run fits m] and jn = register_all_position [OF run fits n]
  have "distinct (names s')" using register_all_names [OF run] distinct by blast
  then have "names s' ! unat i = names s' ! unat j \<longleftrightarrow> unat i = unat j"
    using im jn nth_eq_iff_index_eq by blast
  then show ?thesis using im jn word_unat_eq_iff [of i j] by metis
qed

end

end
