(* ===== verification/Broker_Correct.thy ===== *)
theory Broker_Correct
  imports Broker Registry
begin

text \<open>
  Correctness of the broker: the invariant of its registries and its preservation by every
  operation and every iteration of the main loop, the monotone growth of the registries (IDs that
  were handed out stay valid), the interpretation of the registry contract for nodes, message types
  and topics, the packet counters of the clients, the outcome of topic registration, and the
  forwarding of data packets.
\<close>

section \<open>Invariant and growth\<close>

definition topic_ok :: "broker \<Rightarrow> topic \<Rightarrow> bool" where
  "topic_ok b t \<longleftrightarrow>
     unat (t_message_type_id t) < length (br_message_types b) \<and>
     t_priority t \<noteq> dontcare_topic_priority \<and>
     (\<forall>i\<in>set (t_publishers t) \<union> set (t_subscribers t). unat i < length (br_nodes b))"

definition broker_inv :: "broker \<Rightarrow> bool" where
  "broker_inv b \<longleftrightarrow>
     distinct (map ni_name (br_nodes b)) \<and>
     distinct (map mti_name (br_message_types b)) \<and>
     distinct (map t_name (br_topics b)) \<and>
     (\<forall>t\<in>set (br_topics b). topic_ok b t)"

definition topic_evolves :: "topic \<Rightarrow> topic \<Rightarrow> bool" where
  "topic_evolves t t' \<longleftrightarrow>
     t_name t' = t_name t \<and> t_message_type_id t' = t_message_type_id t \<and> t_priority t' = t_priority t \<and>
     prefix (t_publishers t) (t_publishers t') \<and> prefix (t_subscribers t) (t_subscribers t')"

definition broker_evolves :: "broker \<Rightarrow> broker \<Rightarrow> bool" where
  "broker_evolves b b' \<longleftrightarrow>
     prefix (br_nodes b) (br_nodes b') \<and> prefix (br_message_types b) (br_message_types b') \<and>
     length (br_topics b) \<le> length (br_topics b') \<and>
     (\<forall>i<length (br_topics b). topic_evolves (br_topics b ! i) (br_topics b' ! i))"

lemma topic_evolves_refl [simp]: "topic_evolves t t"
  by (simp add: topic_evolves_def)

lemma topic_evolves_trans: "topic_evolves t u \<Longrightarrow> topic_evolves u v \<Longrightarrow> topic_evolves t v"
  by (auto simp: topic_evolves_def intro: prefix_order.order_trans)

lemma broker_evolves_refl [simp]: "broker_evolves b b"
  by (simp add: broker_evolves_def)

lemma broker_evolves_trans:
  assumes "broker_evolves a b" and "broker_evolves b c"
  shows "broker_evolves a c"
proof -
  have "topic_evolves (br_topics a ! i) (br_topics c ! i)" if "i < length (br_topics a)" for i
    using assms that topic_evolves_trans [of "br_topics a ! i" "br_topics b ! i"]
    by (simp add: broker_evolves_def)
  then show ?thesis
    using assms by (auto simp: broker_evolves_def intro: prefix_order.order_trans)
qed

lemma counters_irrelevant [simp]:
  "topic_ok (b\<lparr>br_client_counters := m\<rparr>) = topic_ok b"
  "broker_inv (b\<lparr>br_client_counters := m\<rparr>) = broker_inv b"
  "broker_evolves a (b\<lparr>br_client_counters := m\<rparr>) = broker_evolves a b"
  by (simp_all add: fun_eq_iff topic_ok_def broker_inv_def broker_evolves_def)

text \<open>The updates the operations make, each with both facts.\<close>

lemma new_node [crps_inv]:
  assumes "broker_inv b" and "ni_name ni \<notin> ni_name ` set (br_nodes b)"
  shows "broker_inv (b\<lparr>br_nodes := br_nodes b @ [ni]\<rparr>)"
  using assms by (force simp: broker_inv_def topic_ok_def)

lemma new_message_type [crps_inv]:
  assumes "broker_inv b" and "mti_name mti \<notin> mti_name ` set (br_message_types b)"
  shows "broker_inv (b\<lparr>br_message_types := br_message_types b @ [mti]\<rparr>)"
  using assms by (force simp: broker_inv_def topic_ok_def)

lemma new_topic [crps_inv]:
  assumes "broker_inv b" and "t_name t \<notin> t_name ` set (br_topics b)" and "topic_ok b t"
  shows "broker_inv (b\<lparr>br_topics := br_topics b @ [t]\<rparr>)"
  using assms by (force simp: broker_inv_def topic_ok_def)

lemma changed_topic [crps_inv]:
  assumes "broker_inv b" and "i < length (br_topics b)" and "t_name t = t_name (br_topics b ! i)"
    and "topic_ok b t"
  shows "broker_inv (b\<lparr>br_topics := (br_topics b)[i := t]\<rparr>)"
proof -
  have "map t_name ((br_topics b)[i := t]) = map t_name (br_topics b)"
    using assms(2,3) by (simp add: map_update list_update_same_conv)
  then show ?thesis
    using assms set_update_subset_insert [of "br_topics b" i t] by (auto simp: broker_inv_def topic_ok_def)
qed

lemma evolves_updates [simp]:
  "broker_evolves b (b\<lparr>br_nodes := br_nodes b @ xs\<rparr>)"
  "broker_evolves b (b\<lparr>br_message_types := br_message_types b @ ys\<rparr>)"
  "broker_evolves b (b\<lparr>br_topics := br_topics b @ zs\<rparr>)"
  by (simp_all add: broker_evolves_def nth_append)

lemma evolves_changed_topic:
  "topic_evolves (br_topics b ! i) t \<Longrightarrow> broker_evolves b (b\<lparr>br_topics := (br_topics b)[i := t]\<rparr>)"
  by (cases "i < length (br_topics b)") (auto simp: broker_evolves_def nth_list_update)

lemma topic_ok_nth: "broker_inv b \<Longrightarrow> i < length (br_topics b) \<Longrightarrow> topic_ok b (br_topics b ! i)"
  by (simp add: broker_inv_def)

lemma topic_ok_add_publisher:
  "topic_ok b t \<Longrightarrow> unat n < length (br_nodes b) \<Longrightarrow> topic_ok b (t\<lparr>t_publishers := t_publishers t @ [n]\<rparr>)"
  by (auto simp: topic_ok_def)

lemma topic_ok_add_subscriber:
  "topic_ok b t \<Longrightarrow> unat n < length (br_nodes b) \<Longrightarrow> topic_ok b (t\<lparr>t_subscribers := t_subscribers t @ [n]\<rparr>)"
  by (auto simp: topic_ok_def)

section \<open>Every operation keeps the invariant and only grows the registries\<close>

definition broker_step_ok :: "broker \<Rightarrow> broker \<Rightarrow> bool" where
  "broker_step_ok b b' \<longleftrightarrow> (broker_inv b \<longrightarrow> broker_inv b') \<and> broker_evolves b b'"

lemma broker_step_ok_refl [simp]: "broker_step_ok b b"
  by (simp add: broker_step_ok_def)

lemma broker_step_ok_trans: "broker_step_ok a b \<Longrightarrow> broker_step_ok b c \<Longrightarrow> broker_step_ok a c"
  by (auto simp: broker_step_ok_def intro: broker_evolves_trans)

lemma broker_step_ok_counters [simp]:
  "broker_step_ok a (b\<lparr>br_client_counters := m\<rparr>) = broker_step_ok a b"
  by (simp add: broker_step_ok_def)

lemma verify_step_ok:
  "verify_and_update_client_counter client c b = (ok, b') \<Longrightarrow> broker_step_ok b b'"
  by (auto simp: verify_and_update_client_counter_def split: option.splits if_splits)

lemma register_node_step_ok: "register_node client name b = (r, b') \<Longrightarrow> broker_step_ok b b'"
  by (auto simp: register_node_def broker_step_ok_def Let_def split: option.splits intro!: crps_inv)

lemma register_message_type_step_ok:
  "register_message_type name msize b = (r, b') \<Longrightarrow> broker_step_ok b b'"
  by (auto simp: register_message_type_def broker_step_ok_def Let_def split: option.splits if_splits
      intro!: crps_inv)

lemma register_topic_step_ok:
  "register_topic name mt prio b = Inr (r, b') \<Longrightarrow> broker_step_ok b b'"
  by (auto simp: register_topic_def broker_step_ok_def Let_def topic_ok_def at_eq_Inr_iff
      split: option.splits if_splits elim!: rbind_InrE intro!: crps_inv)

lemma validate_topic_parameters_true:
  assumes "validate_topic_parameters n t mt b = Inr ok" and ok
  shows "unat n < length (br_nodes b) \<and> unat t < length (br_topics b) \<and>
    unat mt < length (br_message_types b) \<and> t_message_type_id (br_topics b ! unat t) = mt"
  using assms by (auto simp: validate_topic_parameters_def Let_def rbind_eq_Inr_iff split: if_splits)

lemma add_publisher_step_ok: "add_publisher n t mt b = Inr (ok, b') \<Longrightarrow> broker_step_ok b b'"
  by (auto simp: add_publisher_def broker_step_ok_def Let_def topic_evolves_def split: if_splits elim!: rbind_InrE
      dest!: validate_topic_parameters_true 
      intro!: changed_topic evolves_changed_topic topic_ok_add_publisher topic_ok_nth)

lemma add_subscriber_step_ok: "add_subscriber n t mt b = Inr (ok, b') \<Longrightarrow> broker_step_ok b b'"
  by (auto simp: add_subscriber_def broker_step_ok_def Let_def topic_evolves_def split: if_splits elim!: rbind_InrE
      dest!: validate_topic_parameters_true 
      intro!: changed_topic evolves_changed_topic topic_ok_add_subscriber topic_ok_nth)

lemmas request_defs = request_register_node_def request_register_message_type_def
  request_register_topic_def request_add_publisher_def request_add_subscriber_def

lemmas operations_step_ok = register_node_step_ok register_message_type_step_ok register_topic_step_ok
  add_publisher_step_ok add_subscriber_step_ok

lemma process_control_request_step_ok:
  "process_control_request client request b = Inr (response, b') \<Longrightarrow> broker_step_ok b b'"
  by (auto simp: process_control_request_def request_defs split: if_splits prod.splits option.splits
      elim!: rbind_InrE dest!: operations_step_ok)

lemma send_control_response_step_ok:
  "send_control_response nw a r b w = Inr (ok, b', w') \<Longrightarrow> broker_step_ok b b'"
  by (auto simp: send_control_response_def Let_def elim!: rbind_InrE)

lemma handle_packet_step_ok:
  assumes "handle_packet nw dbg client buf n b w = Inr (go, b', w')"
  shows "broker_step_ok b b'"
  using assms
  by (auto simp: handle_packet_def split: prod.splits if_splits elim!: rbind_InrE
      dest!: verify_step_ok process_control_request_step_ok send_control_response_step_ok)
     (blast intro: broker_step_ok_trans)

lemma broker_spin_once_step_ok:
  assumes "broker_spin_once nw dbg (b, buf, w) = Inr (go, b', buf', w')"
  shows "broker_step_ok b b' \<and> length buf' = length buf"
  using assms
  by (auto simp: broker_spin_once_def split: recv_result.splits elim!: rbind_InrE
      dest!: handle_packet_step_ok dest: write_at_length)

lemma broker_spin_step_ok:
  "broker_spin k nw dbg (b, buf, w) = Inr (go, b', buf', w') \<Longrightarrow>
   broker_step_ok b b' \<and> length buf' = length buf"
proof (induction k arbitrary: b buf w)
  case 0
  then show ?case by simp
next
  case (Suc k)
  then obtain go1 b1 buf1 w1 where step: "broker_spin_once nw dbg (b, buf, w) = Inr (go1, b1, buf1, w1)"
    and rest: "(if go1 then broker_spin k nw dbg (b1, buf1, w1) else Inr (False, b1, buf1, w1)) =
      Inr (go, b', buf', w')"
    by (auto simp: rbind_eq_Inr_iff)
  show ?case
    using broker_spin_once_step_ok [OF step] rest Suc.IH [of b1 buf1 w1]
    by (cases go1) (auto intro: broker_step_ok_trans)
qed

section \<open>The three registries\<close>

definition node_registry :: "string \<times> string \<Rightarrow> broker \<Rightarrow> (u32 option \<times> broker) res" where
  "node_registry = (\<lambda>(client, name) b. Inr (register_node client name b))"

definition message_type_registry :: "string \<times> u32 \<Rightarrow> broker \<Rightarrow> (u32 option \<times> broker) res" where
  "message_type_registry = (\<lambda>(name, msize) b. Inr (register_message_type name msize b))"

definition topic_registry :: "string \<times> u32 \<times> i8 \<Rightarrow> broker \<Rightarrow> (u32 option \<times> broker) res" where
  "topic_registry = (\<lambda>(name, mt, prio) b.
     rbind (register_topic name mt prio b) (\<lambda>(outcome, b1). Inr (map_option fst outcome, b1)))"

interpretation nodes: registry node_registry "\<lambda>b. map ni_name (br_nodes b)" snd
  by unfold_locales
     (auto simp: node_registry_def register_node_def Let_def find_index_map split: option.splits)

interpretation types: registry message_type_registry "\<lambda>b. map mti_name (br_message_types b)" fst
  by unfold_locales
     (auto simp: message_type_registry_def register_message_type_def Let_def find_index_map
       split: option.splits if_splits)

interpretation topics: registry topic_registry "\<lambda>b. map t_name (br_topics b)" fst
  by unfold_locales
     (auto simp: topic_registry_def register_topic_def Let_def find_index_map
       split: option.splits if_splits elim!: rbind_InrE)

lemma broker_inv_distinct:
  "broker_inv b \<Longrightarrow> distinct (map ni_name (br_nodes b))"
  "broker_inv b \<Longrightarrow> distinct (map mti_name (br_message_types b))"
  "broker_inv b \<Longrightarrow> distinct (map t_name (br_topics b))"
  by (simp_all add: broker_inv_def)

lemma broker_new_inv [simp]: "broker_inv (broker_new ip proto port)"
  by (simp add: broker_new_def broker_inv_def)

section \<open>Packet counters\<close>

text \<open>A client's packets checked one after the other.\<close>

fun verify_all :: "string \<Rightarrow> u32 list \<Rightarrow> broker \<Rightarrow> bool list \<times> broker" where
  "verify_all client [] b = ([], b)"
| "verify_all client (c # cs) b =
     (case verify_and_update_client_counter client c b of
        (ok, b1) \<Rightarrow> (case verify_all client cs b1 of (oks, b2) \<Rightarrow> (ok # oks, b2)))"

lemma verify_all_in_order:
  "br_client_counters b client = Some c \<Longrightarrow>
   verify_all client (map (\<lambda>i. c + 1 + of_nat i) [0..<n]) b =
     (replicate n True, b\<lparr>br_client_counters := (br_client_counters b)(client \<mapsto> c + of_nat n)\<rparr>)"
proof (induction n arbitrary: b c)
  case 0
  then show ?case by (simp add: map_upd_triv)
next
  case (Suc n)
  let ?b = "b\<lparr>br_client_counters := (br_client_counters b)(client \<mapsto> c + 1)\<rparr>"
  have "map (\<lambda>i. c + 1 + of_nat i) [0..<Suc n] = (c + 1) # map (\<lambda>i. (c + 1) + 1 + of_nat i) [0..<n]"
    by (simp only: upt_conv_Cons [of 0 "Suc n"] map_Suc_upt [symmetric] zero_less_Suc list.map map_map)
       (simp add: comp_def algebra_simps)
  moreover have "verify_and_update_client_counter client (c + 1) b = (True, ?b)"
    using Suc.prems by (simp add: verify_and_update_client_counter_def)
  moreover have "br_client_counters ?b client = Some (c + 1)" by simp
  ultimately show ?case using Suc.IH [of ?b "c + 1"] by (simp add: algebra_simps cong: if_cong)
qed

lemma verify_all_rejects:
  "br_client_counters b client = Some c \<Longrightarrow> \<forall>x\<in>set cs. x \<noteq> c + 1 \<Longrightarrow>
   verify_all client cs b = (replicate (length cs) False, b)"
  by (induction cs) (auto simp: verify_and_update_client_counter_def)

section \<open>Topic registration\<close>

lemma find_index_name:
  "find_index (\<lambda>t. t_name t = name) (br_topics b) = Some i \<Longrightarrow>
   i < length (br_topics b) \<and> t_name (br_topics b ! i) = name"
  using find_index_Some [of "\<lambda>t. t_name t = name" "br_topics b" i] by simp

text \<open>The two cases, a new name and a known one.\<close>

lemma register_topic_new:
  assumes "find_index (\<lambda>t. t_name t = name) (br_topics b) = None"
  shows "register_topic name mt prio b =
    (if prio = dontcare_topic_priority then Inr (None, b)
     else rbind (at (br_message_types b) (unat mt)) (\<lambda>_.
          Inr (Some (of_nat (length (br_topics b)), prio),
               b\<lparr>br_topics := br_topics b @ [\<lparr>t_name = name, t_message_type_id = mt, t_priority = prio,
                                             t_publishers = [], t_subscribers = []\<rparr>]\<rparr>)))"
  unfolding register_topic_def assms by (simp add: Let_def)

lemma register_topic_known:
  assumes "find_index (\<lambda>t. t_name t = name) (br_topics b) = Some i" and "broker_inv b"
  shows "register_topic name mt prio b =
    (if t_message_type_id (br_topics b ! i) \<noteq> mt then rbind (at (br_message_types b) (unat mt)) (\<lambda>_. Inr (None, b))
     else if prio \<noteq> dontcare_topic_priority \<and> t_priority (br_topics b ! i) \<noteq> prio then Inr (None, b)
     else Inr (Some (of_nat i, t_priority (br_topics b ! i)), b))"
proof -
  have "topic_ok b (br_topics b ! i)" using find_index_name [OF assms(1)] assms(2) by (simp add: topic_ok_nth)
  then show ?thesis unfolding register_topic_def assms(1) by (simp add: topic_ok_def Let_def)
qed

lemma register_topic_unsafe:
  assumes "broker_inv b"
  shows "register_topic name mt prio b = Inl OutOfBounds \<longleftrightarrow>
    length (br_message_types b) \<le> unat mt \<and>
    (name \<in> t_name ` set (br_topics b) \<or> prio \<noteq> dontcare_topic_priority)"
proof (cases "find_index (\<lambda>t. t_name t = name) (br_topics b)")
  case None
  then have "name \<notin> t_name ` set (br_topics b)" by auto
  with register_topic_new [OF None] show ?thesis by (auto simp: at_def)
next
  case (Some i)
  let ?t = "br_topics b ! i"
  from find_index_name [OF Some] have i: "i < length (br_topics b)" "t_name ?t = name" by auto
  then have "name \<in> t_name ` set (br_topics b)" by force
  moreover have "unat (t_message_type_id ?t) < length (br_message_types b)"
    using topic_ok_nth [OF assms i(1)] by (simp add: topic_ok_def)
  ultimately show ?thesis using register_topic_known [OF Some assms] by (auto simp: at_def)
qed

lemma register_topic_granted:
  assumes "broker_inv b" and "register_topic name mt prio b = Inr (Some (i, p), b')"
    and "length (br_topics b') \<le> 2 ^ 32"
  shows "unat i < length (br_topics b') \<and> t_name (br_topics b' ! unat i) = name \<and>
    t_message_type_id (br_topics b' ! unat i) = mt \<and> t_priority (br_topics b' ! unat i) = p \<and>
    (prio = dontcare_topic_priority \<or> p = prio) \<and> p \<noteq> dontcare_topic_priority"
proof (cases "find_index (\<lambda>t. t_name t = name) (br_topics b)")
  case None
  note new = register_topic_new [OF None]
  with assms have "unat (of_nat (length (br_topics b)) :: u32) = length (br_topics b)"
    by (intro unat_of_nat_lt) (auto split: if_splits elim!: rbind_InrE)
  with new assms(2) show ?thesis by (auto split: if_splits elim!: rbind_InrE)
next
  case (Some k)
  from find_index_name [OF Some] have k: "k < length (br_topics b)" "t_name (br_topics b ! k) = name" by auto
  from register_topic_known [OF Some assms(1)] assms(2)
  have b': "b' = b" "i = of_nat k" "p = t_priority (br_topics b ! k)"
    "t_message_type_id (br_topics b ! k) = mt" "prio = dontcare_topic_priority \<or> p = prio"
    by (auto split: if_splits elim!: rbind_InrE)
  have "unat (of_nat k :: u32) = k" using k(1) assms(3) b'(1) by (intro unat_of_nat_lt) simp
  with k b' topic_ok_nth [OF assms(1) k(1)] show ?thesis by (auto simp: topic_ok_def)
qed

section \<open>Forwarding\<close>

definition subscriber_addresses :: "broker \<Rightarrow> topic \<Rightarrow> string list" where
  "subscriber_addresses b t = map (\<lambda>i. ni_address (br_nodes b ! unat i)) (t_subscribers t)"

lemma send_to_subscribers_each:
  "\<forall>i\<in>set is. unat i < length nodes \<Longrightarrow>
   send_to_subscribers nw nodes is packet w = send_each nw (map (\<lambda>i. ni_address (nodes ! unat i)) is) packet w"
  by (induction "is" arbitrary: w) (simp_all add: broker_send_data_def split_def)

lemma forward_data_accepted:
  assumes inv: "broker_inv b" and t: "unat (bpd_topic_id h) < length (br_topics b)"
    and mt: "bpd_message_type_id h = t_message_type_id (br_topics b ! unat (bpd_topic_id h))"
    and n: "n \<le> length buf"
  shows "forward_data nw dbg h buf n b w =
    send_each nw (subscriber_addresses b (br_topics b ! unat (bpd_topic_id h))) (take n buf) w"
proof -
  have ok: "topic_ok b (br_topics b ! unat (bpd_topic_id h))" using topic_ok_nth [OF inv t] .
  then have "unat (bpd_message_type_id h) < length (br_message_types b)" by (simp add: topic_ok_def mt)
  moreover have "\<forall>i\<in>set (t_subscribers (br_topics b ! unat (bpd_topic_id h))). unat i < length (br_nodes b)"
    using ok by (auto simp: topic_ok_def)
  ultimately show ?thesis
    using t mt n by (simp add: forward_data_def Let_def read_at_def slice_def send_to_subscribers_each
        subscriber_addresses_def)
qed

lemma forward_data_dropped:
  assumes "length (br_topics b) \<le> unat (bpd_topic_id h) \<or>
    bpd_message_type_id h \<noteq> t_message_type_id (br_topics b ! unat (bpd_topic_id h))"
  shows "forward_data nw dbg h buf n b w =
    (if dbg \<and> length (br_topics b) \<le> unat (bpd_topic_id h) then Inl OutOfBounds else Inr w)"
  using assms by (auto simp: forward_data_def Let_def not_le)

lemma handle_data_packet:
  fixes sz :: u32
  assumes accepted: "verify_and_update_client_counter client c b = (True, b1)"
    and packet: "packet = bp_data # htonl_bytes c @ htonl_bytes topic_id @ htonl_bytes mt @ htonl_bytes sz @ payload"
    and sz: "unat sz = length payload" "length packet < 2 ^ 32"
  shows "handle_packet nw dbg client (packet @ rest) (length packet) b w =
    rbind (forward_data nw dbg \<lparr>bpd_topic_id = topic_id, bpd_message_type_id = mt, bpd_size = sz\<rparr>
             (packet @ rest) (length packet) b1 w) (\<lambda>w1. Inr (True, b1, w1))"
proof -
  have "unat (9 + sz) = 9 + length payload"
    using sz packet by (simp add: unat_word_ariths)
  then have "decode_packet_buffer (packet @ rest) (length packet) =
      Inr (bp_data, decoded_zero\<lparr>dec_header := \<lparr>bph_type = bp_data, bph_counter = c\<rparr>,
        dec_data_header := \<lparr>bpd_topic_id = topic_id, bpd_message_type_id = mt, bpd_size = sz\<rparr>\<rparr>)"
    unfolding packet append_Cons append_assoc decode_data_prefix by simp
  then show ?thesis by (simp add: handle_packet_def accepted bp_type_defs)
qed

lemma verify_accepts:
  "br_client_counters b client \<in> {None, Some (c - 1)} \<Longrightarrow>
   verify_and_update_client_counter client c b =
     (True, b\<lparr>br_client_counters := (br_client_counters b)(client \<mapsto> c)\<rparr>)"
  by (auto simp: verify_and_update_client_counter_def)

text \<open>A small broker for concrete runs.\<close>

definition sample_broker :: broker where
  "sample_broker = (broker_new ''1.2.3.4'' UDP 1000)
     \<lparr>br_nodes := [\<lparr>ni_name = ''n'', ni_address = ''h:1''\<rparr>, \<lparr>ni_name = ''m'', ni_address = ''h:2''\<rparr>],
      br_message_types := [\<lparr>mti_name = ''T'', mti_size = 19\<rparr>],
      br_topics := [\<lparr>t_name = ''t'', t_message_type_id = 0, t_priority = 5, t_publishers = [0],
                      t_subscribers = [1, 0]\<rparr>]\<rparr>"

lemma sample_broker_simps [simp]:
  "br_client_counters sample_broker = Map.empty"
  "br_nodes sample_broker = [\<lparr>ni_name = ''n'', ni_address = ''h:1''\<rparr>, \<lparr>ni_name = ''m'', ni_address = ''h:2''\<rparr>]"
  "br_message_types sample_broker = [\<lparr>mti_name = ''T'', mti_size = 19\<rparr>]"
  "br_topics sample_broker = [\<lparr>t_name = ''t'', t_message_type_id = 0, t_priority = 5, t_publishers = [0],
                      t_subscribers = [1, 0]\<rparr>]"
  by (simp_all add: sample_broker_def broker_new_def)

lemma sample_broker_inv [simp]: "broker_inv sample_broker"
  by (simp add: sample_broker_def broker_inv_def topic_ok_def broker_new_def dontcare_topic_priority_def)

text \<open>A control packet that registers a node, and one iteration of the loop that handles it.\<close>

definition sample_request :: json where
  "sample_request = JObject [(''node'', JObject [(''action'', JString ''register''),
      (''params'', JObject [(''name'', JString ''x'')])]), (''rpc_id'', JUInt 1), (''scope'', JString ''node'')]"

definition sample_text :: string where
  "sample_text = (let q = (\<lambda>s. CHR 0x22 # s @ [CHR 0x22]) in
     ''{'' @ q ''node'' @ '':{'' @ q ''action'' @ '':'' @ q ''register'' @ '','' @ q ''params'' @ '':{'' @
     q ''name'' @ '':'' @ q ''x'' @ ''}},'' @ q ''rpc_id'' @ '':1,'' @ q ''scope'' @ '':'' @ q ''node'' @ ''}'')"

definition sample_packet :: "byte list" where
  "sample_packet = bp_control # htonl_bytes 5 @ htonl_bytes (of_nat (length sample_text)) @ map byte_of_char sample_text"

lemma sample_dump: "json_dump sample_request = Inr sample_text"
  by (simp add: sample_request_def sample_text_def dump_escaped_ascii escape_char_eq dump_unsigned_def
      digits_backward.simps Let_def digit_def char_of_def bit_0)

lemma sample_packet_length: "length sample_packet = 87"
  by (simp add: sample_packet_def sample_text_def Let_def)

lemma sample_decode: "\<exists>d. decode_packet_buffer (sample_packet @ rest) 87 = Inr (bp_control, d) \<and> dec_json d = sample_request \<and>
   bph_counter (dec_header d) = 5"
proof -
  have ok: "json_ok sample_request" by (simp add: sample_request_def obj_sorted_def)
  have n: "json_norm sample_request = sample_request" by (simp add: sample_request_def)
  have p: "bp_control_json_to_packet_buffer sample_request 5 = Inr sample_packet"
    by (simp add: bp_control_json_to_packet_buffer_def sample_dump sample_packet_def)
  show ?thesis using decode_control_packet [OF ok p, of rest] by (simp add: sample_packet_length n)
qed

lemma sample_process:
  "process_control_request ''h:1'' sample_request b =
    (case register_node ''h:1'' ''x'' b of
       (None, b1) \<Rightarrow> Inr (JObject [(''error_code'', JInt 0), (''error_message'', JString ''Failed to register node''), (''rpc_id'', JInt 1), (''success'', JBool False)], b1)
     | (Some i, b1) \<Rightarrow> Inr (JObject [(''node_id'', json_of_unsigned i), (''rpc_id'', JUInt 1), (''success'', JBool True)], b1))"
  by (simp add: process_control_request_def sample_request_def request_register_node_def param_string_def answer_success_def answer_failure_def
    rpc_failure_response_def json_of_signed_def split: prod.splits option.splits)

lemma sample_spin: "\<exists>w. broker_spin 1 mailbox_network True (broker_new ''1.2.3.4'' UDP 1000, replicate 87 0, \<lparr>mb_inbox = [(sample_packet, ''h:1'')], mb_sent = []\<rparr>) =
  Inr (True, (broker_new ''1.2.3.4'' UDP 1000)\<lparr>br_client_counters := [''h:1'' \<mapsto> 5], br_nodes := [\<lparr>ni_name = ''x'', ni_address = ''h:1''\<rparr>]\<rparr>, sample_packet, w)"
proof -
  obtain d where d: "decode_packet_buffer sample_packet 87 = Inr (bp_control, d)" "dec_json d = sample_request" "bph_counter (dec_header d) = 5"
    using sample_decode [of "[]"] by auto
  let ?r = "JObject [(''node_id'', JUInt 0), (''rpc_id'', JUInt 1), (''success'', JBool True)]"
  obtain s where s: "json_dump ?r = Inr s" using json_roundtrip_law [of ?r] by (auto simp: obj_sorted_def)
  have [simp]: "bp_control_json_to_packet_buffer ?r c = Inr (bp_control # htonl_bytes c @ htonl_bytes (of_nat (length s)) @ map byte_of_char s)" for c
    by (simp only: bp_control_json_to_packet_buffer_def s rbind_Inr)
  have w: "write_at 0 sample_packet (replicate 87 0) = Inr sample_packet" by (simp add: write_at_def sample_packet_length)
  have t: "take udp_buffer_size sample_packet = sample_packet" by (simp add: udp_buffer_size_def sample_packet_length)
  show ?thesis
    by (simp add: broker_spin_once_def mailbox_network_def t w sample_packet_length handle_packet_def d bp_type_defs
      verify_and_update_client_counter_def broker_new_def sample_process register_node_def Let_def json_of_unsigned_def send_control_response_def)
qed
section \<open>Answers\<close>

lemma json_assign_all_flat:
  "json_assign_all (map (\<lambda>(k, v). ([k], v)) kvs) (JObject m) =
     Inr (JObject (foldl (\<lambda>m (k, v). obj_put k v m) m kvs))"
  by (induction kvs arbitrary: m) (auto simp: split: option.splits)

lemma map_of_foldl_put:
  "k \<notin> fst ` set kvs \<Longrightarrow> map_of (foldl (\<lambda>m (k, v). obj_put k v m) m kvs) k = map_of m k"
  by (induction kvs arbitrary: m) auto

lemma answer_success_flag:
  assumes "answer_success request results = Inr r"
  shows "''success'' \<in> fst ` set results \<or> json_at r ''success'' = Inr (JBool True)"
  using assms
  by (cases "''success'' \<in> fst ` set results")
     (auto simp: answer_success_def json_assign_all_flat map_of_foldl_put elim!: rbind_InrE)

lemma registration_refused:
  "register_node client name b = (None, b1) \<Longrightarrow> b1 = b"
  "register_message_type mname msize b = (None, b1) \<Longrightarrow> b1 = b"
  "register_topic tname mt prio b = Inr (None, b1) \<Longrightarrow> b1 = b"
  "add_publisher n t mt b = Inr (False, b1) \<Longrightarrow> b1 = b"
  "add_subscriber n t mt b = Inr (False, b1) \<Longrightarrow> b1 = b"
  by (auto simp: register_node_def register_message_type_def register_topic_def add_publisher_def
      add_subscriber_def Let_def split: option.splits if_splits elim!: rbind_InrE)

section \<open>Properties\<close>

text \<open>
  C5: data packets reach exactly the subscribers. A packet with the next counter of its sender, an
  existing topic and the topic's message type is sent unchanged to the addresses of the nodes
  subscribed to the topic, in the order of their subscriptions; nothing but the counter changes and
  the loop goes on.
\<close>

theorem data_packet_fan_out:
  fixes sz :: u32
  assumes "broker_inv b" and "br_client_counters b client \<in> {None, Some (c - 1)}"
    and "unat topic_id < length (br_topics b)"
    and "mt = t_message_type_id (br_topics b ! unat topic_id)"
    and "packet = bp_data # htonl_bytes c @ htonl_bytes topic_id @ htonl_bytes mt @ htonl_bytes sz @ payload"
    and "unat sz = length payload" and "length packet < 2 ^ 32"
  shows "handle_packet nw dbg client (packet @ rest) (length packet) b w =
    rbind (send_each nw (subscriber_addresses b (br_topics b ! unat topic_id)) packet w)
      (\<lambda>w1. Inr (True, b\<lparr>br_client_counters := (br_client_counters b)(client \<mapsto> c)\<rparr>, w1))"
proof -
  let ?b = "b\<lparr>br_client_counters := (br_client_counters b)(client \<mapsto> c)\<rparr>"
  let ?h = "\<lparr>bpd_topic_id = topic_id, bpd_message_type_id = mt, bpd_size = sz\<rparr>"
  have "forward_data nw dbg ?h (packet @ rest) (length packet) ?b w =
      send_each nw (subscriber_addresses b (br_topics b ! unat topic_id)) packet w"
    using forward_data_accepted [of ?b ?h "length packet" "packet @ rest" nw dbg w] assms(1,3,4)
    by (simp add: subscriber_addresses_def)
  then show ?thesis unfolding handle_data_packet [OF verify_accepts [OF assms(2)] assms(5-7)] by simp
qed

theorem data_packet_fan_out_witness:
  "handle_packet mailbox_network True ''h:1''
      ((bp_data # htonl_bytes 4 @ htonl_bytes 0 @ htonl_bytes 0 @ htonl_bytes 2 @ [0xAA, 0xBB]) @ [7])
      (length (bp_data # htonl_bytes 4 @ htonl_bytes 0 @ htonl_bytes 0 @ htonl_bytes 2 @ [0xAA, 0xBB]))
      sample_broker \<lparr>mb_inbox = [], mb_sent = []\<rparr> =
    rbind (send_each mailbox_network (subscriber_addresses sample_broker (br_topics sample_broker ! unat (0 :: u32)))
        (bp_data # htonl_bytes 4 @ htonl_bytes 0 @ htonl_bytes 0 @ htonl_bytes 2 @ [0xAA, 0xBB])
        \<lparr>mb_inbox = [], mb_sent = []\<rparr>)
      (\<lambda>w1. Inr (True, sample_broker\<lparr>br_client_counters := (br_client_counters sample_broker)(''h:1'' \<mapsto> 4)\<rparr>, w1))"
  by (rule data_packet_fan_out [where sz = 2 and payload = "[0xAA, 0xBB]" and mt = 0]) simp_all

text \<open>
  C37: data packets that are not forwarded. With an unknown topic, or a message type that is not the
  topic's, nothing is sent and only the counter changes; but when debug logging is compiled in, as
  it is by default, an unknown topic makes the broker read past the end of its topics first.
\<close>

theorem data_packet_dropped:
  fixes sz :: u32
  assumes "br_client_counters b client \<in> {None, Some (c - 1)}"
    and "length (br_topics b) \<le> unat topic_id \<or> mt \<noteq> t_message_type_id (br_topics b ! unat topic_id)"
    and "packet = bp_data # htonl_bytes c @ htonl_bytes topic_id @ htonl_bytes mt @ htonl_bytes sz @ payload"
    and "unat sz = length payload" and "length packet < 2 ^ 32"
  shows "handle_packet nw dbg client (packet @ rest) (length packet) b w =
    (if dbg \<and> length (br_topics b) \<le> unat topic_id then Inl OutOfBounds
     else Inr (True, b\<lparr>br_client_counters := (br_client_counters b)(client \<mapsto> c)\<rparr>, w))"
  unfolding handle_data_packet [OF verify_accepts [OF assms(1)] assms(3-5)]
  using assms by (subst forward_data_dropped) simp_all

theorem data_packet_dropped_witness:
  "handle_packet mailbox_network True ''h:1''
      ((bp_data # htonl_bytes 4 @ htonl_bytes 9 @ htonl_bytes 0 @ htonl_bytes 1 @ [0xAA]) @ [])
      (length (bp_data # htonl_bytes 4 @ htonl_bytes 9 @ htonl_bytes 0 @ htonl_bytes 1 @ [0xAA :: byte]))
      sample_broker \<lparr>mb_inbox = [], mb_sent = []\<rparr> =
    (if True \<and> length (br_topics sample_broker) \<le> unat (9 :: u32) then Inl OutOfBounds
     else Inr (True, sample_broker\<lparr>br_client_counters := (br_client_counters sample_broker)(''h:1'' \<mapsto> 4)\<rparr>,
               \<lparr>mb_inbox = [], mb_sent = []\<rparr>))"
  by (rule data_packet_dropped [where sz = 1 and payload = "[0xAA]" and mt = 0]) simp_all

text \<open>
  Two subscriptions of one node to the same topic are both kept, so every message of the topic
  is sent to that node twice.
\<close>

theorem double_subscription_sends_twice:
  assumes "broker_inv b" and "unat topic_id < length (br_topics b)"
    and "t_subscribers (br_topics b ! unat topic_id) = []"
    and "add_subscriber n topic_id mt b = Inr (True, b1)"
    and "add_subscriber n topic_id mt b1 = Inr (True, b2)" and "k \<le> length buf"
  shows "forward_data mailbox_network dbg
      \<lparr>bpd_topic_id = topic_id, bpd_message_type_id = mt, bpd_size = sz\<rparr> buf k b2 w =
    Inr (w\<lparr>mb_sent := mb_sent w @ [(ni_address (br_nodes b ! unat n), take k buf),
                                    (ni_address (br_nodes b ! unat n), take k buf)]\<rparr>)"
proof -
  let ?t = "br_topics b ! unat topic_id"
  have b1: "b1 = b\<lparr>br_topics := (br_topics b)[unat topic_id := ?t\<lparr>t_subscribers := [n]\<rparr>]\<rparr>"
    using assms(3,4) by (auto simp: add_subscriber_def Let_def split: if_splits elim!: rbind_InrE)
  have b2: "b2 = b\<lparr>br_topics := (br_topics b)[unat topic_id := ?t\<lparr>t_subscribers := [n, n]\<rparr>]\<rparr>"
    using assms(2,5) by (auto simp: b1 add_subscriber_def Let_def split: if_splits elim!: rbind_InrE)
  from assms(4) have mt: "mt = t_message_type_id ?t"
    by (auto simp: add_subscriber_def split: if_splits elim!: rbind_InrE dest!: validate_topic_parameters_true)
  have "broker_inv b2"
    using add_subscriber_step_ok [OF assms(4)] add_subscriber_step_ok [OF assms(5)] assms(1)
    by (simp add: broker_step_ok_def)
  then show ?thesis
    using assms(2,6) by (subst forward_data_accepted)
      (simp_all add: b2 mt subscriber_addresses_def mailbox_network_def)
qed

theorem double_subscription_sends_twice_witness:
  "forward_data mailbox_network False \<lparr>bpd_topic_id = 0, bpd_message_type_id = 0, bpd_size = 1\<rparr> [1, 2, 3] 2
      (sample_broker\<lparr>br_topics := [\<lparr>t_name = ''t'', t_message_type_id = 0, t_priority = 5, t_publishers = [],
                                   t_subscribers = [1, 1]\<rparr>]\<rparr>) \<lparr>mb_inbox = [], mb_sent = []\<rparr> =
    Inr (\<lparr>mb_inbox = [], mb_sent = []\<rparr>\<lparr>mb_sent := mb_sent \<lparr>mb_inbox = [], mb_sent = []\<rparr> @
      [(ni_address (br_nodes (sample_broker\<lparr>br_topics := [\<lparr>t_name = ''t'', t_message_type_id = 0,
          t_priority = 5, t_publishers = [], t_subscribers = []\<rparr>]\<rparr>) ! unat (1 :: u32)), take 2 [1, 2, 3]),
       (ni_address (br_nodes (sample_broker\<lparr>br_topics := [\<lparr>t_name = ''t'', t_message_type_id = 0,
          t_priority = 5, t_publishers = [], t_subscribers = []\<rparr>]\<rparr>) ! unat (1 :: u32)), take 2 [1, 2, 3])]\<rparr>)"
  by (rule double_subscription_sends_twice [where mt = 0 and ?b1.0 = "sample_broker\<lparr>br_topics :=
        [\<lparr>t_name = ''t'', t_message_type_id = 0, t_priority = 5, t_publishers = [], t_subscribers = [1]\<rparr>]\<rparr>"])
     (simp_all add: add_subscriber_def validate_topic_parameters_def
        broker_inv_def topic_ok_def dontcare_topic_priority_def)

text \<open>
  C6: the broker's invariant. Started empty and run for any number of iterations against any
  network, the broker keeps the names of nodes, message types and topics distinct, every topic has
  a known message type, no topic has the don't-care priority, and every publisher and subscriber of
  a topic is a registered node; the receive buffer keeps its size.
\<close>

theorem broker_run_invariant:
  assumes "broker_spin k nw dbg (broker_new ip proto port, buf, w) = Inr (go, b, buf', w')"
  shows "broker_inv b \<and> length buf' = length buf"
  using broker_spin_step_ok [OF assms] by (simp add: broker_step_ok_def)

theorem broker_run_invariant_witness:
  "broker_inv ((broker_new ''1.2.3.4'' UDP 1000)\<lparr>br_client_counters := [''h:1'' \<mapsto> 5],
       br_nodes := [\<lparr>ni_name = ''x'', ni_address = ''h:1''\<rparr>]\<rparr>) \<and>
   length sample_packet = length (replicate 87 0 :: byte list)"
  by (rule exE [OF sample_spin]) (erule broker_run_invariant)

text \<open>
  C18: what the broker has answered stays true. During any run, nodes and message types keep their
  IDs, addresses and sizes, and topics keep their ID, name, message type and priority, while their
  publishers and subscribers are only ever appended.
\<close>

theorem broker_run_evolves:
  assumes "broker_spin k nw dbg (b, buf, w) = Inr (go, b', buf', w')"
  shows "broker_evolves b b'"
  using broker_spin_step_ok [OF assms] by (simp add: broker_step_ok_def)

theorem broker_run_evolves_witness:
  "broker_evolves (broker_new ''1.2.3.4'' UDP 1000) ((broker_new ''1.2.3.4'' UDP 1000)
     \<lparr>br_client_counters := [''h:1'' \<mapsto> 5], br_nodes := [\<lparr>ni_name = ''x'', ni_address = ''h:1''\<rparr>]\<rparr>)"
  by (rule exE [OF sample_spin]) (erule broker_run_evolves)

text \<open>
  C19: only a successful answer changes the registries. Whatever the request, when the broker answers
  it at all, its state is unchanged unless the answer says \<open>success: true\<close>; refused registrations
  and unknown requests leave no trace.
\<close>

theorem change_only_on_success:
  assumes "process_control_request client request b = Inr (response, b')"
  shows "b' = b \<or> json_at response ''success'' = Inr (JBool True)"
  using assms
  by (auto simp: process_control_request_def request_defs split: if_splits prod.splits option.splits
      elim!: rbind_InrE dest!: registration_refused answer_success_flag)

theorem change_only_on_success_witness:
  "sample_broker\<lparr>br_nodes := br_nodes sample_broker @ [\<lparr>ni_name = ''x'', ni_address = ''h:1''\<rparr>]\<rparr> = sample_broker \<or>
   json_at (JObject [(''node_id'', JUInt 2), (''rpc_id'', JUInt 1), (''success'', JBool True)]) ''success'' =
     Inr (JBool True)"
  by (rule change_only_on_success [where client = "''h:1''" and request = sample_request and b = sample_broker])
     (simp add: sample_process register_node_def json_of_unsigned_def)

text \<open>
  Topic IDs identify topics. In any sequence of topic registrations, two successful ones are
  answered with the same ID exactly when they asked for the same name, as long as there are at most
  \<open>2 ^ 32\<close> topics.
\<close>

theorem topic_ids_identify:
  assumes "register_all topic_registry ps b = Inr (answers, b')" and "broker_inv b"
    and "length (br_topics b') \<le> 2 ^ 32"
    and "m < length ps" and "answers ! m = Some i" and "n < length ps" and "answers ! n = Some j"
  shows "i = j \<longleftrightarrow> fst (ps ! m) = fst (ps ! n)"
  using topics.ids_agree [of ps b answers b' m i n j] assms broker_inv_distinct(3) [of b] by simp

theorem topic_ids_identify_witness:
  "(1 :: u32) = 1 \<longleftrightarrow>
   fst ([(''u'', 0 :: u32, 7 :: i8), (''t'', 0, 5), (''u'', 0, dontcare_topic_priority)] ! 0) =
   fst ([(''u'', 0 :: u32, 7 :: i8), (''t'', 0, 5), (''u'', 0, dontcare_topic_priority)] ! 2)"
  by (rule topic_ids_identify [where b = sample_broker and answers = "[Some 1, Some 0, Some 1]" and
        b' = "sample_broker\<lparr>br_topics := br_topics sample_broker @ [\<lparr>t_name = ''u'', t_message_type_id = 0,
          t_priority = 7, t_publishers = [], t_subscribers = []\<rparr>]\<rparr>"])
     (simp_all add: topic_registry_def register_topic_def dontcare_topic_priority_def)

text \<open>
  C35: registering a topic of an unknown message type. The broker only logs the error and goes on:
  it reads past the end of its message types exactly when the type is unknown and the topic either
  exists already or is registered with a real priority.
\<close>

theorem register_topic_unknown_type:
  assumes "broker_inv b"
  shows "register_topic name mt prio b = Inl OutOfBounds \<longleftrightarrow>
    length (br_message_types b) \<le> unat mt \<and>
    (name \<in> t_name ` set (br_topics b) \<or> prio \<noteq> dontcare_topic_priority)"
  by (rule register_topic_unsafe [OF assms])

theorem register_topic_unknown_type_witness:
  "register_topic ''x'' 1 3 sample_broker = Inl OutOfBounds \<longleftrightarrow>
    length (br_message_types sample_broker) \<le> unat (1 :: u32) \<and>
    (''x'' \<in> t_name ` set (br_topics sample_broker) \<or> (3 :: i8) \<noteq> dontcare_topic_priority)"
  by (rule register_topic_unknown_type) simp

text \<open>
  What a successful topic registration means. The answered ID is that of a topic with the
  requested name and message type, and the answered priority is the topic's; it is the requested
  priority unless the request did not care, and never the don't-care value itself.
\<close>

theorem register_topic_success:
  assumes "broker_inv b" and "register_topic name mt prio b = Inr (Some (i, p), b')"
    and "length (br_topics b') \<le> 2 ^ 32"
  shows "unat i < length (br_topics b') \<and> t_name (br_topics b' ! unat i) = name \<and>
    t_message_type_id (br_topics b' ! unat i) = mt \<and> t_priority (br_topics b' ! unat i) = p \<and>
    (prio = dontcare_topic_priority \<or> p = prio) \<and> p \<noteq> dontcare_topic_priority"
  by (rule register_topic_granted [OF assms])

theorem register_topic_success_witness:
  "unat (0 :: u32) < length (br_topics sample_broker) \<and> t_name (br_topics sample_broker ! unat (0 :: u32)) = ''t'' \<and>
    t_message_type_id (br_topics sample_broker ! unat (0 :: u32)) = 0 \<and>
    t_priority (br_topics sample_broker ! unat (0 :: u32)) = 5 \<and>
    (dontcare_topic_priority = dontcare_topic_priority \<or> 5 = dontcare_topic_priority) \<and>
    5 \<noteq> dontcare_topic_priority"
  by (rule register_topic_success [where b = sample_broker]) (simp_all add: register_topic_def)

text \<open>
  C20: a client whose packets arrive in order is never rejected, also when its 32-bit counter wraps
  around: any number of packets with the counters that follow the stored one are accepted, and the
  stored counter ends at the last one.
\<close>

theorem counters_in_order_accepted:
  assumes "br_client_counters b client = Some c"
  shows "verify_all client (map (\<lambda>i. c + 1 + of_nat i) [0..<n]) b =
    (replicate n True, b\<lparr>br_client_counters := (br_client_counters b)(client \<mapsto> c + of_nat n)\<rparr>)"
  by (rule verify_all_in_order [OF assms])

theorem counters_in_order_accepted_witness:
  "verify_all ''h:1'' (map (\<lambda>i. (- 1) + 1 + of_nat i) [0..<3])
      (sample_broker\<lparr>br_client_counters := [''h:1'' \<mapsto> - 1]\<rparr>) =
    (replicate 3 True, sample_broker\<lparr>br_client_counters := [''h:1'' \<mapsto> - 1]\<rparr>
       \<lparr>br_client_counters := (br_client_counters (sample_broker\<lparr>br_client_counters := [''h:1'' \<mapsto> - 1]\<rparr>))
          (''h:1'' \<mapsto> (- 1) + of_nat 3)\<rparr>)"
  by (rule counters_in_order_accepted) simp

text \<open>
  C36: one lost packet silences a client. The stored counter is not updated when a packet is
  rejected, so after a gap of \<open>g\<close> packets all following packets of the client are rejected as well,
  until the 32-bit counter has come around.
\<close>

theorem lost_packet_blocks_client:
  assumes "br_client_counters b client = Some c" and "0 < g" and "g + n < 2 ^ 32"
  shows "verify_all client (map (\<lambda>i. c + 1 + of_nat (g + i)) [0..<n]) b = (replicate n False, b)"
proof -
  have "c + 1 + of_nat (g + i) \<noteq> c + 1" if "i < n" for i
  proof
    assume "c + 1 + of_nat (g + i) = c + 1"
    then have "(of_nat (g + i) :: u32) = 0" by (simp del: of_nat_add)
    then have "unat (of_nat (g + i) :: u32) = 0" by simp
    moreover have "unat (of_nat (g + i) :: u32) = g + i" using assms(3) that by (intro unat_of_nat_lt) simp
    ultimately show False using assms(2) by simp
  qed
  then show ?thesis using verify_all_rejects [OF assms(1)] by auto
qed

theorem lost_packet_blocks_client_witness:
  "verify_all ''h:1'' (map (\<lambda>i. 6 + 1 + of_nat (1 + i)) [0..<1000])
      (sample_broker\<lparr>br_client_counters := [''h:1'' \<mapsto> 6]\<rparr>) =
    (replicate 1000 False, sample_broker\<lparr>br_client_counters := [''h:1'' \<mapsto> 6]\<rparr>)"
  by (rule lost_packet_blocks_client) simp_all

end
