(* ===== verification/Message_Queue.thy ===== *)
theory Message_Queue
  imports Crps_Prelude
begin

text \<open>
  The bounded queue of \<^verbatim>\<open>include/crps/message_queue.h\<close> and \<^verbatim>\<open>src/message_queue.cpp\<close>. All buffers are
  allocated by the constructor; a \<^verbatim>\<open>MessageBuffer*\<close> is the position of its buffer in
  \<open>m_buffers\<close>, so the free list and the queue are lists of positions and the store of buffers is
  explicit. The invariant says that every buffer is either free or queued, exactly once, and has
  the message size. The contents of the queue, oldest first, are its abstraction: a list of
  messages bounded by the capacity. The locale \<open>bounded_fifo\<close> is the contract of such a queue
  that publishers and subscribers rely on.
\<close>

section \<open>The contract\<close>

text \<open>Pushing several messages, the flags say which were accepted.\<close>

fun push_all :: "('d \<Rightarrow> 'q \<Rightarrow> (bool \<times> 'q) res) \<Rightarrow> 'd list \<Rightarrow> 'q \<Rightarrow> (bool list \<times> 'q) res" where
  "push_all push [] q = Inr ([], q)"
| "push_all push (d # ds) q =
     rbind (push d q) (\<lambda>(ok, q1).
     rbind (push_all push ds q1) (\<lambda>(oks, q2).
     Inr (ok # oks, q2)))"

locale bounded_fifo =
  fixes enq :: "'d \<Rightarrow> 'q \<Rightarrow> (bool \<times> 'q) res"
    and deq :: "'q \<Rightarrow> bool \<times> 'q"
    and contents :: "'q \<Rightarrow> 'm list"
    and cap :: "'q \<Rightarrow> nat"
    and invar :: "'q \<Rightarrow> bool"
    and storable :: "'q \<Rightarrow> 'd \<Rightarrow> bool"
    and stores :: "'q \<Rightarrow> 'd \<Rightarrow> 'm \<Rightarrow> bool"
  assumes bounded: "invar q \<Longrightarrow> length (contents q) \<le> cap q"
    and enq_full: "invar q \<Longrightarrow> length (contents q) = cap q \<Longrightarrow> enq d q = Inr (False, q)"
    and enq_room: "invar q \<Longrightarrow> length (contents q) < cap q \<Longrightarrow> storable q d \<Longrightarrow>
      \<exists>q' m. enq d q = Inr (True, q') \<and> contents q' = contents q @ [m] \<and> stores q d m \<and>
             invar q' \<and> cap q' = cap q \<and> storable q' = storable q \<and> stores q' = stores q"
    and deq_empty: "contents q = [] \<Longrightarrow> deq q = (False, q)"
    and deq_some: "invar q \<Longrightarrow> contents q = m # ms \<Longrightarrow>
      \<exists>q'. deq q = (True, q') \<and> contents q' = ms \<and> invar q' \<and> cap q' = cap q \<and>
           storable q' = storable q \<and> stores q' = stores q"
begin

text \<open>
  A burst of messages on a queue with \<open>r\<close> free places: the first \<open>r\<close> are appended in order, the
  later ones are refused, and nothing already queued is lost.
\<close>

lemma push_all_burst:
  assumes "invar q" and "\<forall>d\<in>set ds. storable q d" and "r = cap q - length (contents q)"
  shows "\<exists>q' ms. push_all enq ds q =
            Inr (replicate (min r (length ds)) True @ replicate (length ds - r) False, q') \<and>
          contents q' = contents q @ ms \<and> list_all2 (stores q) (take r ds) ms \<and>
          invar q' \<and> cap q' = cap q"
  using assms
proof (induction ds arbitrary: q r)
  case Nil
  then show ?case by auto
next
  case (Cons d ds)
  show ?case
  proof (cases "length (contents q) < cap q")
    case True
    with Cons.prems obtain q1 m where q1: "enq d q = Inr (True, q1)"
      "contents q1 = contents q @ [m]" "stores q d m" "invar q1" "cap q1 = cap q"
      "storable q1 = storable q" "stores q1 = stores q"
      using enq_room [of q d] by auto
    from True Cons.prems(3) obtain r' where r': "r = Suc r'" "r' = cap q1 - length (contents q1)"
      using q1 by (cases r) auto
    from Cons.IH [OF q1(4) _ r'(2)] Cons.prems(2) q1 obtain q2 ms where
      "push_all enq ds q1 =
         Inr (replicate (min r' (length ds)) True @ replicate (length ds - r') False, q2)"
      "contents q2 = contents q1 @ ms" "list_all2 (stores q) (take r' ds) ms"
      "invar q2" "cap q2 = cap q" by auto
    then show ?thesis using q1 r' by (intro exI [of _ q2] exI [of _ "m # ms"]) simp
  next
    case False
    with Cons.prems bounded have full: "length (contents q) = cap q" by (simp add: order_antisym)
    from Cons.IH [OF Cons.prems(1) _ Cons.prems(3)] Cons.prems(2) full Cons.prems(3)
    show ?thesis using enq_full [OF Cons.prems(1) full] by auto
  qed
qed

end

section \<open>The queue\<close>

record message_queue =
  mq_message_size :: u32
  mq_queue_capacity :: nat
  mq_buffers :: "byte list list"
  mq_free_buffers :: "nat list"
  mq_queue :: "nat list"

text \<open>The constructor's loop: one buffer and one pointer to it per round.\<close>

definition mq_add_buffer :: "message_queue \<Rightarrow> message_queue" where
  "mq_add_buffer q =
     q\<lparr>mq_buffers := mq_buffers q @ [replicate (unat (mq_message_size q)) 0],
       mq_free_buffers := mq_free_buffers q @ [length (mq_buffers q)]\<rparr>"

definition mq_new :: "u32 \<Rightarrow> nat \<Rightarrow> message_queue" where
  "mq_new message_size capacity =
     (mq_add_buffer ^^ capacity)
       \<lparr>mq_message_size = message_size, mq_queue_capacity = capacity,
        mq_buffers = [], mq_free_buffers = [], mq_queue = []\<rparr>"

definition mq_empty :: "message_queue \<Rightarrow> bool" where
  "mq_empty q = (mq_queue q = [])"

definition mq_full :: "message_queue \<Rightarrow> bool" where
  "mq_full q = (mq_free_buffers q = [])"

definition mq_size :: "message_queue \<Rightarrow> nat" where
  "mq_size q = length (mq_queue q)"

text \<open>\<^verbatim>\<open>get()\<close> returns a pointer to the oldest message, \<^verbatim>\<open>nullptr\<close> when there is none.\<close>

definition mq_get :: "message_queue \<Rightarrow> nat option" where
  "mq_get q = (case mq_queue q of [] \<Rightarrow> None | b # _ \<Rightarrow> Some b)"

definition mq_pop :: "message_queue \<Rightarrow> bool \<times> message_queue" where
  "mq_pop q =
     (case mq_queue q of
        [] \<Rightarrow> (False, q)
      | b # bs \<Rightarrow> (True, q\<lparr>mq_free_buffers := b # mq_free_buffers q, mq_queue := bs\<rparr>))"

text \<open>
  \<^verbatim>\<open>push()\<close>: \<open>data\<close> and \<open>hdr\<close> are the memory from the pointers \<^verbatim>\<open>p_data\<close> and \<^verbatim>\<open>p_header_data\<close> on
  (\<open>None\<close> for \<^verbatim>\<open>nullptr\<close>); each \<^verbatim>\<open>memcpy\<close> must stay inside its objects. With a null header the
  first \<open>header_size\<close> bytes of the buffer keep what they held before.
\<close>

definition mq_push ::
  "byte list \<Rightarrow> byte list option \<Rightarrow> nat \<Rightarrow> message_queue \<Rightarrow> (bool \<times> message_queue) res" where
  "mq_push data hdr header_size q =
     (case mq_free_buffers q of
        [] \<Rightarrow> Inr (False, q)
      | b # bs \<Rightarrow>
          rbind (at (mq_buffers q) b) (\<lambda>buffer.
          rbind (case hdr of
                   None \<Rightarrow> Inr buffer
                 | Some h \<Rightarrow> rbind (read_at 0 header_size h) (\<lambda>hb. write_at 0 hb buffer)) (\<lambda>buffer1.
          rbind (rguard (header_size \<le> unat (mq_message_size q))) (\<lambda>_.
          rbind (read_at 0 (unat (mq_message_size q) - header_size) data) (\<lambda>d.
          rbind (write_at header_size d buffer1) (\<lambda>buffer2.
            Inr (True, q\<lparr>mq_free_buffers := bs, mq_buffers := (mq_buffers q)[b := buffer2],
                         mq_queue := mq_queue q @ [b]\<rparr>)))))))"

section \<open>Invariant and abstraction\<close>

definition mq_contents :: "message_queue \<Rightarrow> byte list list" where
  "mq_contents q = map ((!) (mq_buffers q)) (mq_queue q)"

definition mq_inv :: "message_queue \<Rightarrow> bool" where
  "mq_inv q \<longleftrightarrow>
     length (mq_buffers q) = mq_queue_capacity q \<and>
     (\<forall>b\<in>set (mq_buffers q). length b = unat (mq_message_size q)) \<and>
     distinct (mq_free_buffers q @ mq_queue q) \<and>
     set (mq_free_buffers q @ mq_queue q) = {..<mq_queue_capacity q}"

lemma mq_add_buffer_iterate:
  "(mq_add_buffer ^^ n) \<lparr>mq_message_size = s, mq_queue_capacity = c, mq_buffers = [],
     mq_free_buffers = [], mq_queue = []\<rparr> =
   \<lparr>mq_message_size = s, mq_queue_capacity = c, mq_buffers = replicate n (replicate (unat s) 0),
    mq_free_buffers = [0..<n], mq_queue = []\<rparr>"
  by (induction n) (simp_all add: mq_add_buffer_def replicate_append_same)

lemma mq_new_eq:
  "mq_new s c = \<lparr>mq_message_size = s, mq_queue_capacity = c,
     mq_buffers = replicate c (replicate (unat s) 0), mq_free_buffers = [0..<c], mq_queue = []\<rparr>"
  by (simp add: mq_new_def mq_add_buffer_iterate)

lemma mq_new_inv [crps_inv]: "mq_inv (mq_new s c)"
  by (auto simp: mq_new_eq mq_inv_def)

lemma mq_new_contents [simp]: "mq_contents (mq_new s c) = []"
  by (simp add: mq_new_eq mq_contents_def)

lemma mq_new_fields [simp]:
  "mq_message_size (mq_new s c) = s" "mq_queue_capacity (mq_new s c) = c"
  "mq_buffers (mq_new s c) = replicate c (replicate (unat s) 0)"
  "mq_free_buffers (mq_new s c) = [0..<c]" "mq_queue (mq_new s c) = []"
  by (simp_all add: mq_new_eq)

lemma length_mq_contents [simp]: "length (mq_contents q) = mq_size q"
  by (simp add: mq_contents_def mq_size_def)

lemma mq_empty_contents: "mq_empty q \<longleftrightarrow> mq_contents q = []"
  by (simp add: mq_empty_def mq_contents_def)

lemma mq_inv_partition:
  assumes "mq_inv q"
  shows "length (mq_free_buffers q) + mq_size q = mq_queue_capacity q"
proof -
  have "length (mq_free_buffers q @ mq_queue q) = card {..<mq_queue_capacity q}"
    using assms unfolding mq_inv_def by (metis distinct_card)
  then show ?thesis by (simp add: mq_size_def)
qed

lemma mq_full_size: "mq_inv q \<Longrightarrow> mq_full q \<longleftrightarrow> mq_size q = mq_queue_capacity q"
  using mq_inv_partition [of q] by (auto simp: mq_full_def)

lemma mq_inv_queued:
  "mq_inv q \<Longrightarrow> b \<in> set (mq_queue q) \<Longrightarrow>
   b < length (mq_buffers q) \<and> length (mq_buffers q ! b) = unat (mq_message_size q)"
  unfolding mq_inv_def by (metis UnCI lessThan_iff nth_mem set_append)

lemma mq_contents_length: "mq_inv q \<Longrightarrow> m \<in> set (mq_contents q) \<Longrightarrow> length m = unat (mq_message_size q)"
  by (auto simp: mq_contents_def dest: mq_inv_queued)

lemma mq_get_contents:
  "mq_get q = Some b \<longleftrightarrow> mq_queue q \<noteq> [] \<and> b = hd (mq_queue q)"
  by (auto simp: mq_get_def split: list.splits)

text \<open>Taking a free buffer, storing a message of the right length in it and queueing it.\<close>

lemma mq_enqueue_buffer:
  assumes inv: "mq_inv q" and free: "mq_free_buffers q = b # bs"
    and len: "length m = unat (mq_message_size q)"
    and q': "q' = q\<lparr>mq_free_buffers := bs, mq_buffers := (mq_buffers q)[b := m], mq_queue := mq_queue q @ [b]\<rparr>"
  shows "mq_inv q'" and "mq_contents q' = mq_contents q @ [m]"
proof -
  from inv free have b: "b < length (mq_buffers q)" "b \<notin> set (mq_queue q)"
    by (auto simp: mq_inv_def)
  have set: "set bs \<union> insert b (set (mq_queue q)) = set (mq_free_buffers q @ mq_queue q)"
    using free by auto
  show "mq_inv q'"
    using inv free len set unfolding q' mq_inv_def
    by (auto dest!: subsetD [OF set_update_subset_insert])
  show "mq_contents q' = mq_contents q @ [m]"
    using b unfolding q' mq_contents_def by (auto simp: nth_list_update)
qed

section \<open>The operations meet the contract\<close>

lemma mq_push_full: "mq_full q \<Longrightarrow> mq_push data hdr hs q = Inr (False, q)"
  by (simp add: mq_push_def mq_full_def)

lemma mq_push_room:
  assumes inv: "mq_inv q" and room: "\<not> mq_full q" and hs: "hs \<le> unat (mq_message_size q)"
    and data: "unat (mq_message_size q) - hs \<le> length data"
    and hdr: "\<And>h. hdr = Some h \<Longrightarrow> hs \<le> length h"
  shows "\<exists>q' m. mq_push data hdr hs q = Inr (True, q') \<and> mq_inv q' \<and>
           mq_contents q' = mq_contents q @ [m] \<and> length m = unat (mq_message_size q) \<and>
           drop hs m = take (unat (mq_message_size q) - hs) data \<and>
           (\<forall>h. hdr = Some h \<longrightarrow> take hs m = take hs h) \<and>
           mq_message_size q' = mq_message_size q \<and> mq_queue_capacity q' = mq_queue_capacity q"
proof -
  let ?sz = "unat (mq_message_size q)"
  from room obtain b bs where free: "mq_free_buffers q = b # bs"
    by (auto simp: mq_full_def neq_Nil_conv)
  define buf where "buf = mq_buffers q ! b"
  have b: "b < length (mq_buffers q)" using inv free by (auto simp: mq_inv_def)
  have buf: "length buf = ?sz" using inv nth_mem [OF b] by (auto simp: mq_inv_def buf_def)
  define pre where "pre = (case hdr of None \<Rightarrow> take hs buf | Some h \<Rightarrow> take hs h)"
  have pre: "length pre = hs" using hs buf hdr by (auto simp: pre_def split: option.splits)
  define m where "m = pre @ take (?sz - hs) data"
  have m: "length m = ?sz" using pre hs data by (simp add: m_def)
  define q' where "q' = q\<lparr>mq_free_buffers := bs, mq_buffers := (mq_buffers q)[b := m], mq_queue := mq_queue q @ [b]\<rparr>"
  have "mq_push data hdr hs q = Inr (True, q')"
    using b buf hs data pre hdr
    by (cases hdr) (simp_all add: mq_push_def free read_at_def write_at_def slice_def buf_def [symmetric]
        m_def pre_def q'_def)
  moreover note mq_enqueue_buffer [OF inv free m q'_def]
  moreover have "drop hs m = take (?sz - hs) data" using pre by (simp add: m_def)
  moreover have "\<forall>h. hdr = Some h \<longrightarrow> take hs m = take hs h"
    using pre by (auto simp: m_def pre_def)
  moreover have "mq_message_size q' = mq_message_size q" "mq_queue_capacity q' = mq_queue_capacity q"
    by (simp_all add: q'_def)
  ultimately show ?thesis using m by blast
qed

lemma mq_pop_empty: "mq_contents q = [] \<Longrightarrow> mq_pop q = (False, q)"
  by (simp add: mq_pop_def mq_contents_def)

lemma mq_pop_some:
  assumes inv: "mq_inv q" and ne: "mq_contents q = m # ms"
  shows "\<exists>q'. mq_pop q = (True, q') \<and> mq_contents q' = ms \<and> mq_inv q' \<and>
           mq_message_size q' = mq_message_size q \<and> mq_queue_capacity q' = mq_queue_capacity q \<and>
           mq_buffers q' = mq_buffers q"
proof -
  from ne obtain b bs where q: "mq_queue q = b # bs" by (cases "mq_queue q") (auto simp: mq_contents_def)
  with inv ne show ?thesis
    by (auto simp: mq_pop_def mq_contents_def mq_inv_def)
qed

text \<open>
  The queue without a header part, as subscribers use it, and with \<open>hs\<close> bytes reserved for a
  header, as publishers use it: what is stored for \<open>d\<close> is any message whose tail is the payload.
\<close>

interpretation headed: bounded_fifo
  "\<lambda>d. mq_push d None hs" mq_pop mq_contents mq_queue_capacity
  "\<lambda>q. mq_inv q \<and> hs \<le> unat (mq_message_size q)"
  "\<lambda>q d. unat (mq_message_size q) - hs \<le> length d"
  "\<lambda>q d m. drop hs m = take (unat (mq_message_size q) - hs) d \<and> length m = unat (mq_message_size q)"
  for hs :: nat
proof (unfold_locales, goal_cases)
  case (1 q)
  then show ?case using mq_inv_partition [of q] by simp
next
  case (2 q d)
  then show ?case by (simp add: mq_push_full mq_full_size)
next
  case (3 q d)
  then have "\<not> mq_full q" by (simp add: mq_full_size)
  with 3 mq_push_room [of q hs d None] show ?case by fastforce
next
  case (4 q)
  then show ?case by (rule mq_pop_empty)
next
  case (5 q m ms)
  then show ?case using mq_pop_some [of q m ms] by auto
qed

section \<open>Runs of operations against a bounded FIFO list\<close>

datatype mq_op = Push "byte list" | Pop

fun mq_step :: "mq_op \<Rightarrow> message_queue \<Rightarrow> (bool \<times> message_queue) res" where
  "mq_step (Push d) q = mq_push d None 0 q"
| "mq_step Pop q = Inr (mq_pop q)"

fun mq_run :: "mq_op list \<Rightarrow> message_queue \<Rightarrow> (bool list \<times> message_queue) res" where
  "mq_run [] q = Inr ([], q)"
| "mq_run (x # xs) q =
     rbind (mq_step x q) (\<lambda>(ok, q1). rbind (mq_run xs q1) (\<lambda>(oks, q2). Inr (ok # oks, q2)))"

text \<open>The specification: a list with a capacity; messages are cut to the message size.\<close>

fun fifo_step :: "nat \<Rightarrow> nat \<Rightarrow> mq_op \<Rightarrow> byte list list \<Rightarrow> bool \<times> byte list list" where
  "fifo_step sz cap (Push d) ms = (if length ms < cap then (True, ms @ [take sz d]) else (False, ms))"
| "fifo_step sz cap Pop ms = (ms \<noteq> [], tl ms)"

fun fifo_run :: "nat \<Rightarrow> nat \<Rightarrow> mq_op list \<Rightarrow> byte list list \<Rightarrow> bool list \<times> byte list list" where
  "fifo_run sz cap [] ms = ([], ms)"
| "fifo_run sz cap (x # xs) ms =
     (let (ok, ms1) = fifo_step sz cap x ms; (oks, ms2) = fifo_run sz cap xs ms1 in (ok # oks, ms2))"

definition mq_op_ok :: "nat \<Rightarrow> mq_op \<Rightarrow> bool" where
  "mq_op_ok sz x = (case x of Push d \<Rightarrow> sz \<le> length d | Pop \<Rightarrow> True)"

lemma mq_step_fifo:
  assumes inv: "mq_inv q" and ok: "mq_op_ok (unat (mq_message_size q)) x"
  shows "\<exists>q'. mq_step x q =
             Inr (fst (fifo_step (unat (mq_message_size q)) (mq_queue_capacity q) x (mq_contents q)), q') \<and>
           mq_contents q' = snd (fifo_step (unat (mq_message_size q)) (mq_queue_capacity q) x (mq_contents q)) \<and>
           mq_inv q' \<and> mq_message_size q' = mq_message_size q \<and> mq_queue_capacity q' = mq_queue_capacity q"
proof (cases x)
  case (Push d)
  show ?thesis
  proof (cases "mq_full q")
    case True
    with inv Push show ?thesis by (simp add: mq_push_full mq_full_size)
  next
    case False
    moreover from False inv have "mq_size q < mq_queue_capacity q"
      using mq_inv_partition [OF inv] by (cases "mq_free_buffers q") (auto simp: mq_full_def)
    ultimately show ?thesis
      using mq_push_room [OF inv False, of 0 d None] ok Push by (fastforce simp: mq_op_ok_def)
  qed
next
  case Pop
  show ?thesis
  proof (cases "mq_contents q")
    case Nil
    with Pop inv show ?thesis by (simp add: mq_pop_empty)
  next
    case (Cons m ms)
    from mq_pop_some [OF inv Cons] Pop Cons show ?thesis by auto
  qed
qed

text \<open>
  C14: a queue behaves as a bounded FIFO list of messages. For every sequence of pushes and pops,
  started on a queue that satisfies the invariant, no step accesses memory out of bounds, the
  results of all operations and the final contents are those of the list specification (a push
  is accepted exactly when there is room, a pop returns messages in the order of the accepted
  pushes), and the invariant holds at the end.
\<close>

theorem mq_run_fifo:
  assumes "mq_inv q" and "\<forall>x\<in>set xs. mq_op_ok (unat (mq_message_size q)) x"
    and "fifo_run (unat (mq_message_size q)) (mq_queue_capacity q) xs (mq_contents q) = (oks, ms)"
  shows "\<exists>q'. mq_run xs q = Inr (oks, q') \<and> mq_contents q' = ms \<and> mq_inv q'"
  using assms
proof (induction xs arbitrary: q oks)
  case Nil
  then show ?case by simp
next
  case (Cons x xs)
  from mq_step_fifo [OF Cons.prems(1)] Cons.prems(2) obtain q1 where q1:
    "mq_step x q = Inr (fst (fifo_step (unat (mq_message_size q)) (mq_queue_capacity q) x (mq_contents q)), q1)"
    "mq_contents q1 = snd (fifo_step (unat (mq_message_size q)) (mq_queue_capacity q) x (mq_contents q))"
    "mq_inv q1" "mq_message_size q1 = mq_message_size q" "mq_queue_capacity q1 = mq_queue_capacity q"
    by force
  from Cons.prems(3) q1 obtain oks' where oks':
    "fifo_run (unat (mq_message_size q1)) (mq_queue_capacity q1) xs (mq_contents q1) = (oks', ms)"
    "oks = fst (fifo_step (unat (mq_message_size q)) (mq_queue_capacity q) x (mq_contents q)) # oks'"
    by (auto split: prod.splits)
  from Cons.IH [OF q1(3) _ oks'(1)] Cons.prems(2) q1 oks'(2) show ?case by auto
qed

theorem mq_run_fifo_witness:
  "\<exists>q'. mq_run [Push [1, 2], Push [3, 4], Push [5, 6], Pop] (mq_new 2 2) = Inr ([True, True, False, True], q') \<and>
        mq_contents q' = [[3, 4]] \<and> mq_inv q'"
  by (rule mq_run_fifo) (simp_all add: mq_new_inv mq_op_ok_def)

text \<open>
  A freshly constructed queue has allocated all its buffers, each of the message size, holds
  no message, and satisfies the invariant that every buffer is either free or queued exactly once.
\<close>

theorem mq_new_correct:
  "mq_inv (mq_new sz capacity) \<and> mq_contents (mq_new sz capacity) = [] \<and>
   mq_buffers (mq_new sz capacity) = replicate capacity (replicate (unat sz) 0) \<and>
   length (mq_free_buffers (mq_new sz capacity)) = capacity"
  by (simp add: mq_new_inv)

text \<open>
  A push onto a queue with a free buffer never touches the messages already queued, keeps
  every buffer in exactly one of the two lists, and stores the header bytes followed by the
  payload; with a null header only the payload part of the buffer is written.
\<close>

theorem mq_push_correct:
  assumes "mq_inv q" and "\<not> mq_full q" and "hs \<le> unat (mq_message_size q)"
    and "unat (mq_message_size q) - hs \<le> length data" and "\<forall>h. hdr = Some h \<longrightarrow> hs \<le> length h"
  shows "\<exists>q' m. mq_push data hdr hs q = Inr (True, q') \<and> mq_inv q' \<and>
           mq_contents q' = mq_contents q @ [m] \<and>
           drop hs m = take (unat (mq_message_size q) - hs) data \<and>
           (\<forall>h. hdr = Some h \<longrightarrow> take hs m = take hs h) \<and>
           mq_size q' = Suc (mq_size q)"
proof -
  have h: "\<And>h. hdr = Some h \<Longrightarrow> hs \<le> length h" using assms(5) by blast
  obtain q' m where q': "mq_push data hdr hs q = Inr (True, q')" "mq_inv q'"
    "mq_contents q' = mq_contents q @ [m]" "drop hs m = take (unat (mq_message_size q) - hs) data"
    "\<forall>h. hdr = Some h \<longrightarrow> take hs m = take hs h"
    using mq_push_room [where hdr = hdr, OF assms(1-4) h] by blast
  from q'(3) have "mq_size q' = Suc (mq_size q)"
    using length_mq_contents [of q'] length_mq_contents [of q] by simp
  with q' show ?thesis by blast
qed

theorem mq_push_correct_witness:
  "\<exists>q' m. mq_push [7, 8] (Some [1]) 1 (mq_new 3 1) = Inr (True, q') \<and> mq_inv q' \<and>
     mq_contents q' = mq_contents (mq_new 3 1) @ [m] \<and>
     drop 1 m = take (unat (mq_message_size (mq_new 3 1)) - 1) [7, 8] \<and>
     (\<forall>h. Some [1] = Some h \<longrightarrow> take 1 m = take 1 h) \<and>
     mq_size q' = Suc (mq_size (mq_new 3 1))"
  by (rule mq_push_correct) (simp_all add: mq_new_inv mq_full_def)

end
