(* ===== verification/Pubsub.thy ===== *)
theory Pubsub
  imports Message_Queue Network
begin

text \<open>
  Publishers and subscribers (\<^verbatim>\<open>include/crps/publisher.h\<close>, \<^verbatim>\<open>include/crps/subscriber.h\<close> and their
  sources): a message queue each, with the identity of the topic. A publisher's queue leaves room
  for the packet header in front of every message; a subscriber's queue holds the bare messages.
\<close>

section \<open>Publisher\<close>

record publisher =
  pu_topic_name :: string
  pu_message_type_name :: string
  pu_message_size :: u32
  pu_topic_priority :: i8
  pu_packet_header_size :: nat
  pu_topic_id :: u32
  pu_message_type_id :: u32
  pu_message_queue :: message_queue

text \<open>The size handed to the queue is a \<^verbatim>\<open>size_t\<close> sum cut to 32 bits.\<close>

definition publisher_new :: "string \<Rightarrow> string \<Rightarrow> u32 \<Rightarrow> i8 \<Rightarrow> nat \<Rightarrow> publisher" where
  "publisher_new topic_name type_name msize priority header_size =
     \<lparr>pu_topic_name = topic_name, pu_message_type_name = type_name, pu_message_size = msize,
      pu_topic_priority = priority, pu_packet_header_size = header_size, pu_topic_id = 0,
      pu_message_type_id = 0,
      pu_message_queue = mq_new (of_nat (header_size + unat msize)) message_queue_capacity\<rparr>"

definition publish :: "byte list \<Rightarrow> publisher \<Rightarrow> (bool \<times> publisher) res" where
  "publish data p =
     rbind (mq_push data None (pu_packet_header_size p) (pu_message_queue p)) (\<lambda>(ok, q).
     Inr (ok, p\<lparr>pu_message_queue := q\<rparr>))"

definition pu_packet_size :: "publisher \<Rightarrow> nat" where
  "pu_packet_size p = pu_packet_header_size p + unat (pu_message_size p)"

definition pu_messages_queued :: "publisher \<Rightarrow> nat" where
  "pu_messages_queued p = mq_size (pu_message_queue p)"

definition pu_pop_message :: "publisher \<Rightarrow> bool \<times> publisher" where
  "pu_pop_message p =
     (case mq_pop (pu_message_queue p) of (ok, q) \<Rightarrow> (ok, p\<lparr>pu_message_queue := q\<rparr>))"

section \<open>Subscriber\<close>

text \<open>
  A callback gets the message, its size and the context: the publishers of the node, on which it
  may publish, and the user's own data. (That it could also write into the message has no effect:
  the buffer is freed right after the call and overwritten as a whole by the next message.)
\<close>

type_synonym 'u cb_context = "publisher list \<times> 'u"
type_synonym 'u callback = "byte list \<Rightarrow> u32 \<Rightarrow> 'u cb_context \<Rightarrow> 'u cb_context res"

record 'u subscriber =
  su_topic_name :: string
  su_message_type_name :: string
  su_message_size :: u32
  su_callback :: "'u callback"
  su_topic_priority :: i8
  su_topic_id :: u32
  su_message_type_id :: u32
  su_message_queue :: message_queue

definition subscriber_new :: "string \<Rightarrow> string \<Rightarrow> u32 \<Rightarrow> 'u callback \<Rightarrow> i8 \<Rightarrow> 'u subscriber" where
  "subscriber_new topic_name type_name msize callback priority =
     \<lparr>su_topic_name = topic_name, su_message_type_name = type_name, su_message_size = msize,
      su_callback = callback, su_topic_priority = priority, su_topic_id = 0, su_message_type_id = 0,
      su_message_queue = mq_new msize message_queue_capacity\<rparr>"

definition su_messages_queued :: "'u subscriber \<Rightarrow> nat" where
  "su_messages_queued s = mq_size (su_message_queue s)"

definition queue_message :: "byte list \<Rightarrow> 'u subscriber \<Rightarrow> (bool \<times> 'u subscriber) res" where
  "queue_message data s =
     rbind (mq_push data None 0 (su_message_queue s)) (\<lambda>(ok, q). Inr (ok, s\<lparr>su_message_queue := q\<rparr>))"

definition run_callback :: "'u subscriber \<Rightarrow> 'u cb_context \<Rightarrow> (bool \<times> 'u subscriber \<times> 'u cb_context) res" where
  "run_callback s ctx =
     (case mq_get (su_message_queue s) of
        None \<Rightarrow> Inr (False, s, ctx)
      | Some b \<Rightarrow>
          rbind (at (mq_buffers (su_message_queue s)) b) (\<lambda>message.
          rbind (su_callback s message (su_message_size s) ctx) (\<lambda>ctx1.
          case mq_pop (su_message_queue s) of (ok, q) \<Rightarrow> Inr (ok, s\<lparr>su_message_queue := q\<rparr>, ctx1))))"

section \<open>Invariants\<close>

definition publisher_inv :: "publisher \<Rightarrow> bool" where
  "publisher_inv p \<longleftrightarrow> mq_inv (pu_message_queue p) \<and>
     unat (mq_message_size (pu_message_queue p)) = pu_packet_size p \<and>
     mq_queue_capacity (pu_message_queue p) = message_queue_capacity"

definition subscriber_inv :: "'u subscriber \<Rightarrow> bool" where
  "subscriber_inv s \<longleftrightarrow> mq_inv (su_message_queue s) \<and>
     mq_message_size (su_message_queue s) = su_message_size s \<and>
     mq_queue_capacity (su_message_queue s) = message_queue_capacity"

text \<open>The payloads waiting in a publisher, and the messages waiting in a subscriber.\<close>

definition pu_waiting :: "publisher \<Rightarrow> byte list list" where
  "pu_waiting p = map (drop (pu_packet_header_size p)) (mq_contents (pu_message_queue p))"

definition su_waiting :: "'u subscriber \<Rightarrow> byte list list" where
  "su_waiting s = mq_contents (su_message_queue s)"

lemma publisher_new_inv [crps_inv]:
  assumes "hs + unat msize < 2 ^ 32"
  shows "publisher_inv (publisher_new topic_name type_name msize prio hs)"
    and "pu_waiting (publisher_new topic_name type_name msize prio hs) = []"
proof -
  have "unat (of_nat (hs + unat msize) :: u32) = hs + unat msize" using assms by (intro unat_of_nat_lt) simp
  then show "publisher_inv (publisher_new topic_name type_name msize prio hs)"
    by (simp only: publisher_inv_def publisher_new_def pu_packet_size_def publisher.simps mq_new_fields mq_new_inv)
  show "pu_waiting (publisher_new topic_name type_name msize prio hs) = []"
    by (simp add: pu_waiting_def publisher_new_def)
qed

lemma subscriber_new_inv [crps_inv]:
  "subscriber_inv (subscriber_new topic_name type_name msize cb prio)"
  "su_waiting (subscriber_new topic_name type_name msize cb prio) = []"
  by (simp_all add: subscriber_inv_def subscriber_new_def su_waiting_def mq_new_inv)

text \<open>The operations change nothing but the queue.\<close>

lemma publish_room:
  assumes inv: "publisher_inv p" and room: "length (pu_waiting p) < message_queue_capacity"
    and data: "unat (pu_message_size p) \<le> length data"
  shows "\<exists>q. publish data p = Inr (True, p\<lparr>pu_message_queue := q\<rparr>) \<and> publisher_inv (p\<lparr>pu_message_queue := q\<rparr>) \<and>
    pu_waiting (p\<lparr>pu_message_queue := q\<rparr>) = pu_waiting p @ [take (unat (pu_message_size p)) data]"
proof -
  let ?q = "pu_message_queue p" and ?hs = "pu_packet_header_size p"
  have size: "unat (mq_message_size ?q) = ?hs + unat (pu_message_size p)"
    using inv by (simp add: publisher_inv_def pu_packet_size_def)
  have "\<not> mq_full ?q" using inv room by (simp add: publisher_inv_def mq_full_size pu_waiting_def)
  then show ?thesis
    using mq_push_room [of ?q ?hs data None] inv data size
    by (fastforce simp: publish_def publisher_inv_def pu_waiting_def pu_packet_size_def)
qed

lemma publish_full:
  "publisher_inv p \<Longrightarrow> length (pu_waiting p) = message_queue_capacity \<Longrightarrow> publish data p = Inr (False, p)"
  by (simp add: publish_def publisher_inv_def pu_waiting_def mq_full_size mq_push_full)

lemma pu_pop_some:
  assumes inv: "publisher_inv p" and ne: "pu_waiting p = m # ms"
  shows "\<exists>q. pu_pop_message p = (True, p\<lparr>pu_message_queue := q\<rparr>) \<and> publisher_inv (p\<lparr>pu_message_queue := q\<rparr>) \<and>
    pu_waiting (p\<lparr>pu_message_queue := q\<rparr>) = ms"
proof -
  from ne obtain c cs where "mq_contents (pu_message_queue p) = c # cs" "ms = map (drop (pu_packet_header_size p)) cs"
    by (auto simp: pu_waiting_def)
  with mq_pop_some [of "pu_message_queue p" c cs] inv show ?thesis
    by (fastforce simp: pu_pop_message_def publisher_inv_def pu_waiting_def pu_packet_size_def)
qed

lemma queue_message_room:
  assumes inv: "subscriber_inv s" and room: "length (su_waiting s) < message_queue_capacity"
    and data: "unat (su_message_size s) \<le> length data"
  shows "\<exists>q. queue_message data s = Inr (True, s\<lparr>su_message_queue := q\<rparr>) \<and> subscriber_inv (s\<lparr>su_message_queue := q\<rparr>) \<and>
    su_waiting (s\<lparr>su_message_queue := q\<rparr>) = su_waiting s @ [take (unat (su_message_size s)) data]"
proof -
  let ?q = "su_message_queue s"
  have "\<not> mq_full ?q" using inv room by (simp add: subscriber_inv_def mq_full_size su_waiting_def)
  with mq_push_room [of ?q 0 data None] inv data obtain q m where
    "mq_push data None 0 ?q = Inr (True, q)" "mq_inv q" "mq_contents q = mq_contents ?q @ [m]"
    "m = take (unat (su_message_size s)) data" "mq_message_size q = mq_message_size ?q" "mq_queue_capacity q = mq_queue_capacity ?q"
    by (auto simp: subscriber_inv_def)
  then show ?thesis
    using inv by (intro exI [of _ q]) (simp add: queue_message_def subscriber_inv_def su_waiting_def)
qed

lemma queue_message_full:
  "subscriber_inv s \<Longrightarrow> length (su_waiting s) = message_queue_capacity \<Longrightarrow> queue_message data s = Inr (False, s)"
  by (simp add: queue_message_def subscriber_inv_def su_waiting_def mq_full_size mq_push_full)

lemma su_waiting_bounded: "subscriber_inv s \<Longrightarrow> length (su_waiting s) \<le> message_queue_capacity"
  using mq_inv_partition [of "su_message_queue s"] by (simp add: subscriber_inv_def su_waiting_def)

lemma pu_waiting_bounded: "publisher_inv p \<Longrightarrow> length (pu_waiting p) \<le> message_queue_capacity"
  using mq_inv_partition [of "pu_message_queue p"] by (simp add: publisher_inv_def pu_waiting_def)

lemma run_callback_some:
  assumes inv: "subscriber_inv s" and ne: "su_waiting s = m # ms"
  shows "\<exists>q. run_callback s ctx =
      rbind (su_callback s m (su_message_size s) ctx) (\<lambda>ctx1. Inr (True, s\<lparr>su_message_queue := q\<rparr>, ctx1)) \<and>
    subscriber_inv (s\<lparr>su_message_queue := q\<rparr>) \<and> su_waiting (s\<lparr>su_message_queue := q\<rparr>) = ms"
proof -
  let ?q = "su_message_queue s"
  have mq: "mq_inv ?q" using inv by (simp add: subscriber_inv_def)
  from ne obtain b bs where q: "mq_queue ?q = b # bs" by (cases "mq_queue ?q") (auto simp: su_waiting_def mq_contents_def)
  with ne mq_inv_queued [OF mq, of b] have b: "at (mq_buffers ?q) b = Inr m"
    by (simp add: su_waiting_def mq_contents_def)
  show ?thesis
    using mq_pop_some [OF mq, of m ms] ne inv q b
    by (fastforce simp: run_callback_def mq_get_def subscriber_inv_def su_waiting_def)
qed

lemma run_callback_none: "su_waiting s = [] \<Longrightarrow> run_callback s ctx = Inr (False, s, ctx)"
  by (simp add: run_callback_def mq_get_def su_waiting_def mq_contents_def)

section \<open>Publishers and subscribers as bounded queues of messages\<close>

interpretation outbox: bounded_fifo publish pu_pop_message pu_waiting "\<lambda>p. message_queue_capacity" publisher_inv
  "\<lambda>p d. unat (pu_message_size p) \<le> length d" "\<lambda>p d m. m = take (unat (pu_message_size p)) d"
proof (unfold_locales, goal_cases)
  case (1 p)
  then show ?case by (rule pu_waiting_bounded)
next
  case (2 p d)
  then show ?case by (rule publish_full)
next
  case (3 p d)
  then show ?case using publish_room [of p d] by fastforce
next
  case (4 p)
  then show ?case by (simp add: pu_pop_message_def pu_waiting_def mq_pop_empty)
next
  case (5 p m ms)
  then show ?case using pu_pop_some [of p m ms] by fastforce
qed

definition su_pop :: "'u subscriber \<Rightarrow> bool \<times> 'u subscriber" where
  "su_pop s = (case mq_pop (su_message_queue s) of (ok, q) \<Rightarrow> (ok, s\<lparr>su_message_queue := q\<rparr>))"

interpretation inbox: bounded_fifo queue_message su_pop su_waiting "\<lambda>s. message_queue_capacity" subscriber_inv
  "\<lambda>s d. unat (su_message_size s) \<le> length d" "\<lambda>s d m. m = take (unat (su_message_size s)) d"
proof (unfold_locales, goal_cases)
  case (1 s)
  then show ?case by (rule su_waiting_bounded)
next
  case (2 s d)
  then show ?case by (rule queue_message_full)
next
  case (3 s d)
  then show ?case using queue_message_room [of s d] by fastforce
next
  case (4 s)
  then show ?case by (simp add: su_pop_def su_waiting_def mq_pop_empty)
next
  case (5 s m ms)
  then show ?case using mq_pop_some [of "su_message_queue s" m ms]
    by (fastforce simp: su_pop_def su_waiting_def subscriber_inv_def)
qed

section \<open>Properties\<close>

text \<open>
  Bursts of publishing. Publishing any number of messages on a publisher with room for \<open>r\<close>
  accepts exactly the first \<open>r\<close> of them, in order and cut to the message size, refuses the others,
  and loses none of the messages that were waiting.
\<close>

theorem publish_burst:
  assumes "publisher_inv p" and "\<forall>d\<in>set ds. unat (pu_message_size p) \<le> length d"
    and "r = message_queue_capacity - length (pu_waiting p)"
  shows "\<exists>p'. push_all publish ds p =
      Inr (replicate (min r (length ds)) True @ replicate (length ds - r) False, p') \<and>
    pu_waiting p' = pu_waiting p @ map (take (unat (pu_message_size p))) (take r ds) \<and> publisher_inv p'"
proof -
  from outbox.push_all_burst [OF assms] obtain p' ms where "push_all publish ds p =
      Inr (replicate (min r (length ds)) True @ replicate (length ds - r) False, p')"
    "pu_waiting p' = pu_waiting p @ ms" "publisher_inv p'"
    "list_all2 (\<lambda>d m. m = take (unat (pu_message_size p)) d) (take r ds) ms" by blast
  moreover from this(4) have "ms = map (take (unat (pu_message_size p))) (take r ds)"
    by (simp add: list_all2_map_eq)
  ultimately show ?thesis by blast
qed

theorem publish_burst_witness:
  "\<exists>p'. push_all publish (replicate 12 [1, 2, 3]) (publisher_new ''t'' ''T'' 2 0 17) =
      Inr (replicate (min 10 (length (replicate 12 [1, 2, 3 :: byte]))) True @
           replicate (length (replicate 12 [1, 2, 3 :: byte]) - 10) False, p') \<and>
    pu_waiting p' = pu_waiting (publisher_new ''t'' ''T'' 2 0 17) @
      map (take (unat (pu_message_size (publisher_new ''t'' ''T'' 2 0 17)))) (take 10 (replicate 12 [1, 2, 3])) \<and>
    publisher_inv p'"
  by (rule publish_burst)
     (simp_all add: publisher_new_inv, simp_all add: publisher_new_def message_queue_capacity_def)

end
