(* ===== verification/Node.thy ===== *)
theory Node
  imports Pubsub Broker_Protocol
begin

text \<open>
  The node of \<^verbatim>\<open>include/crps/node.h\<close> and \<^verbatim>\<open>src/node.cpp\<close>: remote procedure calls to the broker, the
  registration of its publishers and subscribers, the reception of packets, and the loop that runs
  callbacks and sends messages in the order of the topic priorities. The pointers the node's tables
  hold into its vectors of publishers and subscribers are positions; the tables are filled by
  \<^verbatim>\<open>connect()\<close>, after which no publisher or subscriber may be created (the vectors would move).
\<close>

section \<open>State\<close>

record topic_info =
  ti_publishers :: "nat list"
  ti_subscribers :: "nat list"

definition topic_info_empty :: topic_info where
  "topic_info_empty = \<lparr>ti_publishers = [], ti_subscribers = []\<rparr>"

record 'u node =
  nd_name :: string
  nd_broker_address :: string
  nd_protocol :: protocol
  nd_node_id :: u32
  nd_publishers :: "publisher list"
  nd_subscribers :: "'u subscriber list"
  nd_topics :: "u32 \<rightharpoonup> topic_info"
  nd_topics_by_prio :: "(i8 \<times> topic_info) list"
  nd_bp_counter :: u32
  nd_buffer :: "byte list"

definition node_new :: "string \<Rightarrow> string \<Rightarrow> protocol \<Rightarrow> u16 \<Rightarrow> 'u node" where
  "node_new name broker_host proto port =
     \<lparr>nd_name = name, nd_broker_address = broker_host @ '':'' @ to_string (sint port), nd_protocol = proto,
      nd_node_id = 0, nd_publishers = [], nd_subscribers = [], nd_topics = Map.empty,
      nd_topics_by_prio = [], nd_bp_counter = 0, nd_buffer = replicate udp_buffer_size 0\<rparr>"

text \<open>
  \<open>relocate n\<close> is what growing the vector from \<open>n\<close> elements does to the queues of its elements. A vector moves
  its elements when their move constructor cannot throw and copies them otherwise; a moved queue keeps its
  buffers, so the identity is the value for a vector that moves or has room. What a copied queue is, whose
  pointer lists still point into the original, is left to the parameter.
\<close>

definition create_publisher ::
    "(nat \<Rightarrow> message_queue \<Rightarrow> message_queue) \<Rightarrow> string \<Rightarrow> string \<Rightarrow> u32 \<Rightarrow> i8 \<Rightarrow> 'u node \<Rightarrow> 'u node" where
  "create_publisher relocate topic_name type_name msize priority n =
     n\<lparr>nd_publishers :=
         map (\<lambda>p. p\<lparr>pu_message_queue := relocate (length (nd_publishers n)) (pu_message_queue p)\<rparr>) (nd_publishers n) @
         [publisher_new topic_name type_name msize priority (bp_header_size + bp_data_header_size)]\<rparr>"

definition create_subscriber ::
    "(nat \<Rightarrow> message_queue \<Rightarrow> message_queue) \<Rightarrow> string \<Rightarrow> string \<Rightarrow> u32 \<Rightarrow> 'u callback \<Rightarrow> i8 \<Rightarrow> 'u node \<Rightarrow> 'u node" where
  "create_subscriber relocate topic_name type_name msize callback priority n =
     n\<lparr>nd_subscribers :=
         map (\<lambda>s. s\<lparr>su_message_queue := relocate (length (nd_subscribers n)) (su_message_queue s)\<rparr>) (nd_subscribers n) @
         [subscriber_new topic_name type_name msize callback priority]\<rparr>"

text \<open>\<^verbatim>\<open>m_topics_by_prio\<close> is a map sorted from the highest to the lowest priority.\<close>

fun prio_find :: "i8 \<Rightarrow> (i8 \<times> 'v) list \<Rightarrow> 'v option" where
  "prio_find p [] = None"
| "prio_find p ((q, v) # m) = (if p = q then Some v else prio_find p m)"

fun prio_put :: "i8 \<Rightarrow> 'v \<Rightarrow> (i8 \<times> 'v) list \<Rightarrow> (i8 \<times> 'v) list" where
  "prio_put p v [] = [(p, v)]"
| "prio_put p v ((q, u) # m) =
     (if p = q then (p, v) # m
      else if sint q < sint p then (p, v) # (q, u) # m
      else (q, u) # prio_put p v m)"

definition prio_get :: "i8 \<Rightarrow> (i8 \<times> topic_info) list \<Rightarrow> topic_info" where
  "prio_get p m = (case prio_find p m of None \<Rightarrow> topic_info_empty | Some ti \<Rightarrow> ti)"

definition topic_get :: "u32 \<Rightarrow> (u32 \<rightharpoonup> topic_info) \<Rightarrow> topic_info" where
  "topic_get t m = (case m t of None \<Rightarrow> topic_info_empty | Some ti \<Rightarrow> ti)"

section \<open>Counters and sending\<close>

definition next_bp_counter :: "'u node \<Rightarrow> u32 \<times> 'u node" where
  "next_bp_counter n = (let c = nd_bp_counter n + 1 in (c, n\<lparr>nd_bp_counter := c\<rparr>))"

definition node_rpc_id :: "'u node \<Rightarrow> u32" where
  "node_rpc_id n = nd_bp_counter n"

definition send_control :: "'w network \<Rightarrow> json \<Rightarrow> 'u node \<Rightarrow> 'w \<Rightarrow> (bool \<times> 'u node \<times> 'w) res" where
  "send_control nw request n w =
     (case next_bp_counter n of
        (counter, n1) \<Rightarrow>
          rbind (bp_control_json_to_packet_buffer request counter) (\<lambda>packet.
          rbind (nw_sendto nw (nd_broker_address n1) packet w) (\<lambda>(ok, w1). Inr (ok, n1, w1))))"

text \<open>
  \<^verbatim>\<open>send_data\<close> on the oldest message of publisher \<open>i\<close>: the header is written in place into the buffer
  of the queue, then the whole packet is sent. The payload size is a \<^verbatim>\<open>size_t\<close> difference cut to 32 bits.
\<close>

definition node_send_data :: "'w network \<Rightarrow> nat \<Rightarrow> 'u node \<Rightarrow> 'w \<Rightarrow> (bool \<times> 'u node \<times> 'w) res" where
  "node_send_data nw i n w =
     rbind (at (nd_publishers n) i) (\<lambda>p.
     case mq_get (pu_message_queue p) of
       None \<Rightarrow> Inl OutOfBounds
     | Some b \<Rightarrow>
         (case next_bp_counter n of
            (counter, n1) \<Rightarrow>
              rbind (at (mq_buffers (pu_message_queue p)) b) (\<lambda>buffer.
              rbind (bp_fill_data_header counter (pu_topic_id p) (pu_message_type_id p)
                       (of_nat (pu_packet_size p) - of_nat (bp_header_size + bp_data_header_size)) buffer) (\<lambda>buffer1.
              let q = pu_message_queue p;
                  p1 = p\<lparr>pu_message_queue := q\<lparr>mq_buffers := (mq_buffers q)[b := buffer1]\<rparr>\<rparr>;
                  n2 = n1\<lparr>nd_publishers := (nd_publishers n1)[i := p1]\<rparr>
              in rbind (read_at 0 (pu_packet_size p) buffer1) (\<lambda>packet.
                 rbind (nw_sendto nw (nd_broker_address n2) packet w) (\<lambda>(ok, w1). Inr (ok, n2, w1)))))))"

section \<open>Receiving\<close>

datatype receive_outcome = ReceiveError | ReceiveNothing | ReceivedPacket nat byte decoded

definition receive_message :: "'w network \<Rightarrow> bool \<Rightarrow> 'u node \<Rightarrow> 'w \<Rightarrow> (receive_outcome \<times> 'u node \<times> 'w) res" where
  "receive_message nw block n w =
     rbind (nw_recvfrom nw udp_buffer_size block w) (\<lambda>(received, w1).
     case received of
       RecvFailed err bytes \<Rightarrow>
         rbind (write_at 0 bytes (nd_buffer n)) (\<lambda>buffer.
         let n1 = n\<lparr>nd_buffer := buffer\<rparr>
         in if block \<or> (err \<noteq> EAGAIN \<and> err \<noteq> EWOULDBLOCK) then Inr (ReceiveError, n1, w1)
            else Inr (ReceiveNothing, n1, w1))
     | Received bytes _ \<Rightarrow>
         rbind (write_at 0 bytes (nd_buffer n)) (\<lambda>buffer.
         let n1 = n\<lparr>nd_buffer := buffer\<rparr>
         in rbind (decode_packet_buffer buffer (length bytes)) (\<lambda>(ty, d).
            if ty = bp_invalid then Inr (ReceiveError, n1, w1)
            else Inr (ReceivedPacket (length bytes) ty d, n1, w1))))"

section \<open>Remote procedure calls\<close>

definition broker_rpc_blocking :: "'w network \<Rightarrow> json \<Rightarrow> 'u node \<Rightarrow> 'w \<Rightarrow> (json \<times> 'u node \<times> 'w) res" where
  "broker_rpc_blocking nw request n w =
     rbind (send_control nw request n w) (\<lambda>(ok, n1, w1).
     if \<not> ok then Inr (JNull, n1, w1)
     else rbind (receive_message nw True n1 w1) (\<lambda>(outcome, n2, w2).
       case outcome of
         ReceivedPacket len ty d \<Rightarrow>
           if len = 0 then Inr (JNull, n2, w2)
           else if ty \<noteq> bp_control then Inr (JNull, n2, w2)
           else Inr (dec_json d, n2, w2)
       | _ \<Rightarrow> Inr (JNull, n2, w2)))"

text \<open>\<^verbatim>\<open>!(result.empty() || !result["success"])\<close>, and a numeric member of the result.\<close>

definition rpc_success :: "json \<Rightarrow> bool res" where
  "rpc_success result =
     (if json_empty result then Inr False
      else rbind (json_subscript result ''success'') (\<lambda>(v, m). json_to_bool v))"

definition rpc_number :: "json \<Rightarrow> string \<Rightarrow> 'a::len word res" where
  "rpc_number result name = rbind (json_subscript result name) (\<lambda>(v, m). json_to_word v)"

text \<open>The JSON literals of the requests, to which \<open>rpc_id\<close> and the parameters are added.\<close>

definition request_literal :: "string \<Rightarrow> string \<Rightarrow> json" where
  "request_literal scope action =
     JObject (obj_put ''scope'' (JString scope)
       [(scope, JObject [(''action'', JString action), (''params'', JObject [])])])"

definition build_request :: "string \<Rightarrow> string \<Rightarrow> u32 \<Rightarrow> (string \<times> json) list \<Rightarrow> json res" where
  "build_request scope action rpc_id params =
     json_assign_all
       (([''rpc_id''], json_of_unsigned rpc_id) # map (\<lambda>(k, v). ([scope, ''params'', k], v)) params)
       (request_literal scope action)"

definition node_register_node :: "'w network \<Rightarrow> 'u node \<Rightarrow> 'w \<Rightarrow> (bool \<times> 'u node \<times> 'w) res" where
  "node_register_node nw n w =
     rbind (build_request ''node'' ''register'' (node_rpc_id n) [(''name'', JString (nd_name n))]) (\<lambda>request.
     rbind (broker_rpc_blocking nw request n w) (\<lambda>(result, n1, w1).
     rbind (rpc_success result) (\<lambda>ok.
     if \<not> ok then Inr (False, n1, w1)
     else rbind (rpc_number result ''node_id'') (\<lambda>node_id.
       Inr (True, n1\<lparr>nd_node_id := node_id\<rparr>, w1)))))"

definition node_register_message_type ::
    "'w network \<Rightarrow> string \<Rightarrow> u32 \<Rightarrow> 'u node \<Rightarrow> 'w \<Rightarrow> (u32 option \<times> 'u node \<times> 'w) res" where
  "node_register_message_type nw type_name msize n w =
     rbind (build_request ''message'' ''register'' (node_rpc_id n)
              [(''name'', JString type_name), (''size'', json_of_unsigned msize)]) (\<lambda>request.
     rbind (broker_rpc_blocking nw request n w) (\<lambda>(result, n1, w1).
     rbind (rpc_success result) (\<lambda>ok.
     if \<not> ok then Inr (None, n1, w1)
     else rbind (rpc_number result ''message_type_id'') (\<lambda>i. Inr (Some i, n1, w1)))))"

text \<open>The actual priority is only read from the result when the caller asks for it.\<close>

definition node_register_topic ::
    "'w network \<Rightarrow> string \<Rightarrow> u32 \<Rightarrow> i8 \<Rightarrow> bool \<Rightarrow> 'u node \<Rightarrow> 'w \<Rightarrow> ((u32 \<times> i8) option \<times> 'u node \<times> 'w) res" where
  "node_register_topic nw topic_name message_type_id priority want_actual n w =
     rbind (build_request ''topic'' ''register'' (node_rpc_id n)
              [(''name'', JString topic_name), (''message_type_id'', json_of_unsigned message_type_id),
               (''priority'', json_of_signed priority)]) (\<lambda>request.
     rbind (broker_rpc_blocking nw request n w) (\<lambda>(result, n1, w1).
     rbind (rpc_success result) (\<lambda>ok.
     if \<not> ok then Inr (None, n1, w1)
     else rbind (rpc_number result ''topic_id'') (\<lambda>topic_id.
       if want_actual
       then rbind (rpc_number result ''topic_priority'') (\<lambda>actual. Inr (Some (topic_id, actual), n1, w1))
       else Inr (Some (topic_id, priority), n1, w1)))))"

definition node_add_pubsub ::
    "'w network \<Rightarrow> string \<Rightarrow> u32 \<Rightarrow> u32 \<Rightarrow> 'u node \<Rightarrow> 'w \<Rightarrow> (bool \<times> 'u node \<times> 'w) res" where
  "node_add_pubsub nw action topic_id message_type_id n w =
     rbind (build_request ''topic'' action (node_rpc_id n)
              [(''node_id'', json_of_unsigned (nd_node_id n)), (''topic_id'', json_of_unsigned topic_id),
               (''message_type_id'', json_of_unsigned message_type_id)]) (\<lambda>request.
     rbind (broker_rpc_blocking nw request n w) (\<lambda>(result, n1, w1).
     rbind (rpc_success result) (\<lambda>ok. Inr (ok, n1, w1))))"

section \<open>Registration of publishers and subscribers\<close>

definition change_publisher :: "nat \<Rightarrow> (publisher \<Rightarrow> publisher) \<Rightarrow> 'u node \<Rightarrow> 'u node" where
  "change_publisher i f n = n\<lparr>nd_publishers := (nd_publishers n)[i := f (nd_publishers n ! i)]\<rparr>"

definition change_subscriber :: "nat \<Rightarrow> ('u subscriber \<Rightarrow> 'u subscriber) \<Rightarrow> 'u node \<Rightarrow> 'u node" where
  "change_subscriber i f n = n\<lparr>nd_subscribers := (nd_subscribers n)[i := f (nd_subscribers n ! i)]\<rparr>"

definition enter_publisher :: "nat \<Rightarrow> u32 \<Rightarrow> i8 \<Rightarrow> 'u node \<Rightarrow> 'u node" where
  "enter_publisher i topic_id priority n =
     (let ti = topic_get topic_id (nd_topics n); pi = prio_get priority (nd_topics_by_prio n)
      in n\<lparr>nd_topics := (nd_topics n)(topic_id \<mapsto> ti\<lparr>ti_publishers := ti_publishers ti @ [i]\<rparr>),
           nd_topics_by_prio := prio_put priority (pi\<lparr>ti_publishers := ti_publishers pi @ [i]\<rparr>) (nd_topics_by_prio n)\<rparr>)"

definition enter_subscriber :: "nat \<Rightarrow> u32 \<Rightarrow> i8 \<Rightarrow> 'u node \<Rightarrow> 'u node" where
  "enter_subscriber i topic_id priority n =
     (let ti = topic_get topic_id (nd_topics n); pi = prio_get priority (nd_topics_by_prio n)
      in n\<lparr>nd_topics := (nd_topics n)(topic_id \<mapsto> ti\<lparr>ti_subscribers := ti_subscribers ti @ [i]\<rparr>),
           nd_topics_by_prio := prio_put priority (pi\<lparr>ti_subscribers := ti_subscribers pi @ [i]\<rparr>) (nd_topics_by_prio n)\<rparr>)"

definition register_publisher :: "'w network \<Rightarrow> nat \<Rightarrow> 'u node \<Rightarrow> 'w \<Rightarrow> (bool \<times> 'u node \<times> 'w) res" where
  "register_publisher nw i n w =
     rbind (at (nd_publishers n) i) (\<lambda>p.
     rbind (node_register_message_type nw (pu_message_type_name p) (pu_message_size p) n w) (\<lambda>(r1, n1, w1).
     case r1 of None \<Rightarrow> Inr (False, n1, w1)
     | Some message_type_id \<Rightarrow>
         let n2 = change_publisher i (\<lambda>p. p\<lparr>pu_message_type_id := message_type_id\<rparr>) n1
         in rbind (node_register_topic nw (pu_topic_name p) message_type_id (pu_topic_priority p) False n2 w1)
           (\<lambda>(r2, n3, w2).
         case r2 of None \<Rightarrow> Inr (False, n3, w2)
         | Some (topic_id, _) \<Rightarrow>
             let n4 = change_publisher i (\<lambda>p. p\<lparr>pu_topic_id := topic_id\<rparr>) n3
             in rbind (node_add_pubsub nw ''add_publisher'' topic_id message_type_id n4 w2) (\<lambda>(ok, n5, w3).
                if \<not> ok then Inr (False, n5, w3)
                else Inr (True, enter_publisher i topic_id (pu_topic_priority p) n5, w3)))))"

definition register_subscriber :: "'w network \<Rightarrow> nat \<Rightarrow> 'u node \<Rightarrow> 'w \<Rightarrow> (bool \<times> 'u node \<times> 'w) res" where
  "register_subscriber nw i n w =
     rbind (at (nd_subscribers n) i) (\<lambda>s.
     rbind (node_register_message_type nw (su_message_type_name s) (su_message_size s) n w) (\<lambda>(r1, n1, w1).
     case r1 of None \<Rightarrow> Inr (False, n1, w1)
     | Some message_type_id \<Rightarrow>
         let n2 = change_subscriber i (\<lambda>s. s\<lparr>su_message_type_id := message_type_id\<rparr>) n1
         in rbind (node_register_topic nw (su_topic_name s) message_type_id (su_topic_priority s) True n2 w1)
           (\<lambda>(r2, n3, w2).
         case r2 of None \<Rightarrow> Inr (False, n3, w2)
         | Some (topic_id, actual) \<Rightarrow>
             let n4 = change_subscriber i (\<lambda>s. s\<lparr>su_topic_id := topic_id, su_topic_priority := actual\<rparr>) n3
             in rbind (node_add_pubsub nw ''add_subscriber'' topic_id message_type_id n4 w2) (\<lambda>(ok, n5, w3).
                if \<not> ok then Inr (False, n5, w3)
                else Inr (True, enter_subscriber i topic_id actual n5, w3)))))"

text \<open>The two loops of \<^verbatim>\<open>connect()\<close> over positions of the vectors; they stop at the first failure.\<close>

fun register_each :: "(nat \<Rightarrow> 'u node \<Rightarrow> 'w \<Rightarrow> (bool \<times> 'u node \<times> 'w) res) \<Rightarrow> nat list \<Rightarrow> 'u node \<Rightarrow> 'w \<Rightarrow> (bool \<times> 'u node \<times> 'w) res" where
  "register_each reg [] n w = Inr (True, n, w)"
| "register_each reg (i # is) n w =
     rbind (reg i n w) (\<lambda>(ok, n1, w1). if \<not> ok then Inr (False, n1, w1) else register_each reg is n1 w1)"

definition node_connect :: "'w network \<Rightarrow> 'u node \<Rightarrow> 'w \<Rightarrow> (bool \<times> 'u node \<times> 'w) res" where
  "node_connect nw n w =
     rbind (nw_socket nw (nd_protocol n) w) (\<lambda>(ok, w1).
     if \<not> ok then Inr (False, n, w1)
     else rbind (nw_connect nw (nd_broker_address n) w1) (\<lambda>(ok, w2).
     if \<not> ok then Inr (False, n, w2)
     else rbind (node_register_node nw n w2) (\<lambda>(ok, n1, w3).
     if \<not> ok then Inr (False, n1, w3)
     else rbind (register_each (register_publisher nw) [0..<length (nd_publishers n1)] n1 w3) (\<lambda>(ok, n2, w4).
     if \<not> ok then Inr (False, n2, w4)
     else register_each (register_subscriber nw) [0..<length (nd_subscribers n2)] n2 w4))))"

section \<open>The spin loop\<close>

fun queue_all :: "nat list \<Rightarrow> byte list \<Rightarrow> 'u subscriber list \<Rightarrow> 'u subscriber list res" where
  "queue_all [] data subs = Inr subs"
| "queue_all (i # is) data subs =
     rbind (at subs i) (\<lambda>s.
     rbind (queue_message data s) (\<lambda>(ok, s1). queue_all is data (subs[i := s1])))"

text \<open>
  A data packet in the buffer whose topic the node knows. A wrong message type is only logged; the
  log statement and the test read the first subscriber.
\<close>

definition deliver_message :: "topic_info \<Rightarrow> 'u node \<Rightarrow> (int \<times> 'u node) res" where
  "deliver_message ti n =
     (case ti_subscribers ti of
        [] \<Rightarrow> Inr (- 1, n)
      | first # _ \<Rightarrow>
          rbind (at (nd_subscribers n) first) (\<lambda>_.
          rbind (queue_all (ti_subscribers ti) (drop (bp_header_size + bp_data_header_size) (nd_buffer n))
                   (nd_subscribers n)) (\<lambda>subs.
          Inr (1, n\<lparr>nd_subscribers := subs\<rparr>))))"

text \<open>\<^verbatim>\<open>process_incoming_message()\<close> with its results -1, 0 and 1.\<close>

definition process_incoming_message :: "'w network \<Rightarrow> 'u node \<Rightarrow> 'w \<Rightarrow> (int \<times> 'u node \<times> 'w) res" where
  "process_incoming_message nw n w =
     rbind (receive_message nw False n w) (\<lambda>(outcome, n1, w1).
     case outcome of
       ReceiveError \<Rightarrow> Inr (- 1, n1, w1)
     | ReceiveNothing \<Rightarrow> Inr (0, n1, w1)
     | ReceivedPacket len ty d \<Rightarrow>
         if len = 0 then Inr (0, n1, w1)
         else if ty \<noteq> bp_data then Inr (- 1, n1, w1)
         else
           (case nd_topics n1 (bpd_topic_id (dec_data_header d)) of
              None \<Rightarrow> Inr (- 1, n1, w1)
            | Some ti \<Rightarrow> rbind (deliver_message ti n1) (\<lambda>(processed, n2). Inr (processed, n2, w1))))"

datatype spin_once_result = SpinInvalid | SpinSuccess | SpinNoWork | SpinError

text \<open>The two inner loops of \<^verbatim>\<open>spin_once()\<close>; the first component tells whether they ran to the end.\<close>

fun run_callbacks :: "nat list \<Rightarrow> 'u node \<Rightarrow> 'u \<Rightarrow> (bool \<times> 'u node \<times> 'u) res" where
  "run_callbacks [] n u = Inr (True, n, u)"
| "run_callbacks (i # is) n u =
     rbind (at (nd_subscribers n) i) (\<lambda>s.
     if su_messages_queued s = 0 then run_callbacks is n u
     else rbind (run_callback s (nd_publishers n, u)) (\<lambda>(ok, s1, (publishers, u1)).
       let n1 = n\<lparr>nd_subscribers := (nd_subscribers n)[i := s1], nd_publishers := publishers\<rparr>
       in if \<not> ok then Inr (False, n1, u1) else run_callbacks is n1 u1))"

fun send_messages :: "'w network \<Rightarrow> nat list \<Rightarrow> bool \<Rightarrow> 'u node \<Rightarrow> 'w \<Rightarrow> (bool \<times> bool \<times> 'u node \<times> 'w) res" where
  "send_messages nw [] work n w = Inr (True, work, n, w)"
| "send_messages nw (i # is) work n w =
     rbind (at (nd_publishers n) i) (\<lambda>p.
     if pu_messages_queued p = 0 then send_messages nw is work n w
     else rbind (node_send_data nw i n w) (\<lambda>(ok, n1, w1).
       if \<not> ok then Inr (False, work, n1, w1)
       else send_messages nw is True (change_publisher i (\<lambda>p. snd (pu_pop_message p)) n1) w1))"

fun spin_topics ::
    "'w network \<Rightarrow> (i8 \<times> topic_info) list \<Rightarrow> bool \<Rightarrow> 'u node \<Rightarrow> 'u \<Rightarrow> 'w \<Rightarrow> (bool \<times> bool \<times> 'u node \<times> 'u \<times> 'w) res" where
  "spin_topics nw [] work n u w = Inr (True, work, n, u, w)"
| "spin_topics nw ((prio, ti) # rest) work n u w =
     rbind (run_callbacks (ti_subscribers ti) n u) (\<lambda>(ok, n1, u1).
     if \<not> ok then Inr (False, work, n1, u1, w)
     else rbind (send_messages nw (ti_publishers ti) work n1 w) (\<lambda>(ok, work1, n2, w1).
       if \<not> ok then Inr (False, work1, n2, u1, w1)
       else spin_topics nw rest work1 n2 u1 w1))"

type_synonym ('u, 'w) node_state = "'u node \<times> 'u \<times> 'w"

definition spin_once :: "'w network \<Rightarrow> ('u, 'w) node_state \<Rightarrow> (spin_once_result \<times> ('u, 'w) node_state) res" where
  "spin_once nw s =
     (case s of (n, u, w) \<Rightarrow>
        rbind (process_incoming_message nw n w) (\<lambda>(processed, n1, w1).
        rbind (spin_topics nw (nd_topics_by_prio n1) (0 < processed) n1 u w1) (\<lambda>(ok, work, n2, u1, w2).
        Inr (if \<not> ok then SpinError else if work then SpinSuccess else SpinNoWork, n2, u1, w2))))"

text \<open>
  \<^verbatim>\<open>spin()\<close> for at most \<open>k\<close> iterations, \<open>None\<close> while it is still running; \<^verbatim>\<open>spin_while_work()\<close> as a
  partial function, undefined (\<open>None\<close>) when the loop does not end.
\<close>

fun node_spin :: "nat \<Rightarrow> 'w network \<Rightarrow> ('u, 'w) node_state \<Rightarrow> (bool option \<times> ('u, 'w) node_state) res" where
  "node_spin 0 nw s = Inr (None, s)"
| "node_spin (Suc k) nw s =
     rbind (spin_once nw s) (\<lambda>(result, s1).
     if result = SpinSuccess \<or> result = SpinNoWork then node_spin k nw s1 else Inr (Some False, s1))"

partial_function (option) spin_while_work ::
    "'w network \<Rightarrow> ('u, 'w) node_state \<Rightarrow> (bool \<times> ('u, 'w) node_state) res option" where
  "spin_while_work nw s =
     (case spin_once nw s of
        Inl e \<Rightarrow> Some (Inl e)
      | Inr (result, s1) \<Rightarrow>
          if result = SpinSuccess then spin_while_work nw s1
          else Some (Inr (result = SpinNoWork, s1)))"

end
