(* ===== verification/Node_Correct.thy ===== *)
theory Node_Correct
  imports Node
begin

text \<open>
  Correctness of the node: the invariant of its queues and tables and its preservation by every
  operation, \<^verbatim>\<open>connect()\<close> included; what one message waiting at a publisher becomes when it is sent; and the
  memory safety of the loop over any well-behaved network. Delivery, order and termination are in
  \<open>Node_Delivery\<close>.
\<close>

section \<open>The table ordered by priority\<close>

definition prio_sorted :: "(i8 \<times> 'v) list \<Rightarrow> bool" where
  "prio_sorted m = sorted_wrt (\<lambda>p q. sint q < sint p) (map fst m)"

lemma set_prio_put: "fst ` set (prio_put p v m) = insert p (fst ` set m)"
  by (induction p v m rule: prio_put.induct) auto

lemma prio_sorted_put [crps_inv]: "prio_sorted m \<Longrightarrow> prio_sorted (prio_put p v m)"
proof (induction p v m rule: prio_put.induct)
  case (1 p v)
  then show ?case by (simp add: prio_sorted_def)
next
  case (2 p v q u m)
  have "sint p \<noteq> sint q" if "p \<noteq> q" using that signed_word_eqI by blast
  with 2 set_prio_put [of p v m] show ?case
    by (fastforce simp: prio_sorted_def image_iff)
qed

lemma prio_find_put [simp]: "prio_find r (prio_put p v m) = (if r = p then Some v else prio_find r m)"
  by (induction p v m rule: prio_put.induct) auto

lemma snd_set_prio_put: "snd ` set (prio_put p v m) \<subseteq> insert v (snd ` set m)"
  by (induction p v m rule: prio_put.induct) auto

lemma prio_find_Some: "prio_find p m = Some v \<Longrightarrow> (p, v) \<in> set m"
  by (induction p m rule: prio_find.induct) (auto split: if_splits)

section \<open>Invariant\<close>

definition ti_ok :: "nat \<Rightarrow> nat \<Rightarrow> topic_info \<Rightarrow> bool" where
  "ti_ok np ns ti \<longleftrightarrow> (\<forall>i\<in>set (ti_publishers ti). i < np) \<and> (\<forall>i\<in>set (ti_subscribers ti). i < ns)"

definition node_publisher_ok :: "publisher \<Rightarrow> bool" where
  "node_publisher_ok p \<longleftrightarrow> publisher_inv p \<and> pu_packet_header_size p = 17"

definition node_subscriber_ok :: "'u subscriber \<Rightarrow> bool" where
  "node_subscriber_ok s \<longleftrightarrow> subscriber_inv s \<and> 17 + unat (su_message_size s) \<le> udp_buffer_size"

definition node_inv :: "'u node \<Rightarrow> bool" where
  "node_inv n \<longleftrightarrow>
     length (nd_buffer n) = udp_buffer_size \<and>
     (\<forall>p\<in>set (nd_publishers n). node_publisher_ok p) \<and>
     (\<forall>s\<in>set (nd_subscribers n). node_subscriber_ok s) \<and>
     (\<forall>ti\<in>ran (nd_topics n) \<union> snd ` set (nd_topics_by_prio n).
        ti_ok (length (nd_publishers n)) (length (nd_subscribers n)) ti) \<and>
     prio_sorted (nd_topics_by_prio n)"

lemma node_new_inv [crps_inv]: "node_inv (node_new name host proto port)"
  by (simp add: node_inv_def node_new_def prio_sorted_def)

lemma ti_ok_mono: "ti_ok np ns ti \<Longrightarrow> ti_ok (Suc np) ns ti \<and> ti_ok np (Suc ns) ti"
  by (auto simp: ti_ok_def)

lemma create_publisher_inv [crps_inv]:
  assumes "node_inv n" and "unat msize < 2 ^ 32 - 17" and "\<And>q. relocate (length (nd_publishers n)) q = q"
  shows "node_inv (create_publisher relocate topic_name type_name msize prio n)"
  using assms publisher_new_inv(1) [of 17 msize topic_name type_name prio]
  by (simp add: node_inv_def create_publisher_def node_publisher_ok_def bp_sizes publisher_new_def
      ti_ok_mono ball_Un)

lemma create_subscriber_inv [crps_inv]:
  assumes "node_inv n" and "17 + unat msize \<le> udp_buffer_size" and "\<And>q. relocate (length (nd_subscribers n)) q = q"
  shows "node_inv (create_subscriber relocate topic_name type_name msize cb prio n)"
  using assms subscriber_new_inv(1) [of topic_name type_name msize cb prio]
  by (simp add: node_inv_def create_subscriber_def node_subscriber_ok_def subscriber_new_def
      ti_ok_mono ball_Un)

text \<open>What each field contributes; fields that the invariant does not read.\<close>

lemma node_inv_fields [simp]:
  "node_inv (n\<lparr>nd_node_id := x\<rparr>) = node_inv n"
  "node_inv (n\<lparr>nd_bp_counter := c\<rparr>) = node_inv n"
  by (simp_all add: node_inv_def)

lemma node_inv_publisher:
  "node_inv n \<Longrightarrow> i < length (nd_publishers n) \<Longrightarrow> node_publisher_ok (nd_publishers n ! i)"
  by (simp add: node_inv_def)

lemma node_inv_subscriber:
  "node_inv n \<Longrightarrow> i < length (nd_subscribers n) \<Longrightarrow> node_subscriber_ok (nd_subscribers n ! i)"
  by (simp add: node_inv_def)

lemma node_inv_buffer [crps_inv]:
  "node_inv n \<Longrightarrow> length buf = length (nd_buffer n) \<Longrightarrow> node_inv (n\<lparr>nd_buffer := buf\<rparr>)"
  by (simp add: node_inv_def)

lemma node_inv_publishers [crps_inv]:
  "node_inv n \<Longrightarrow> length ps = length (nd_publishers n) \<Longrightarrow> \<forall>p\<in>set ps. node_publisher_ok p \<Longrightarrow>
   node_inv (n\<lparr>nd_publishers := ps\<rparr>)"
  by (simp add: node_inv_def)

lemma node_inv_subscribers [crps_inv]:
  "node_inv n \<Longrightarrow> length ss = length (nd_subscribers n) \<Longrightarrow> \<forall>s\<in>set ss. node_subscriber_ok s \<Longrightarrow>
   node_inv (n\<lparr>nd_subscribers := ss\<rparr>)"
  by (simp add: node_inv_def)

lemma node_inv_set_publisher [crps_inv]:
  assumes "node_inv n" and "node_publisher_ok p"
  shows "node_inv (n\<lparr>nd_publishers := (nd_publishers n)[i := p]\<rparr>)"
proof -
  have "\<forall>q\<in>set ((nd_publishers n)[i := p]). node_publisher_ok q"
    using assms set_update_subset_insert [of "nd_publishers n" i p] by (auto simp: node_inv_def)
  with assms show ?thesis by (simp add: node_inv_publishers)
qed

lemma node_inv_set_subscriber [crps_inv]:
  assumes "node_inv n" and "node_subscriber_ok s"
  shows "node_inv (n\<lparr>nd_subscribers := (nd_subscribers n)[i := s]\<rparr>)"
proof -
  have "\<forall>q\<in>set ((nd_subscribers n)[i := s]). node_subscriber_ok q"
    using assms set_update_subset_insert [of "nd_subscribers n" i s] by (auto simp: node_inv_def)
  with assms show ?thesis by (simp add: node_inv_subscribers)
qed

section \<open>Remote procedure calls leave queues and tables alone\<close>

definition rpc_changes :: "'u node \<Rightarrow> 'u node \<Rightarrow> bool" where
  "rpc_changes n n' \<longleftrightarrow>
     (\<exists>i c buf. n' = n\<lparr>nd_node_id := i, nd_bp_counter := c, nd_buffer := buf\<rparr> \<and> length buf = length (nd_buffer n))"

lemma rpc_changes_refl [simp]: "rpc_changes n n"
  unfolding rpc_changes_def
  by (rule exI [of _ "nd_node_id n"], rule exI [of _ "nd_bp_counter n"], rule exI [of _ "nd_buffer n"]) simp

lemma rpc_changesI:
  "rpc_changes n (n\<lparr>nd_node_id := i\<rparr>)" "rpc_changes n (n\<lparr>nd_bp_counter := c\<rparr>)"
  "length buf = length (nd_buffer n) \<Longrightarrow> rpc_changes n (n\<lparr>nd_buffer := buf\<rparr>)"
  unfolding rpc_changes_def
  by (rule exI [of _ i], rule exI [of _ "nd_bp_counter n"], rule exI [of _ "nd_buffer n"], simp)
     (rule exI [of _ "nd_node_id n"], rule exI [of _ c], rule exI [of _ "nd_buffer n"], simp,
      rule exI [of _ "nd_node_id n"], rule exI [of _ "nd_bp_counter n"], rule exI [of _ buf], simp)

lemma rpc_changes_trans: "rpc_changes a b \<Longrightarrow> rpc_changes b c \<Longrightarrow> rpc_changes a c"
  by (force simp: rpc_changes_def)

lemma rpc_changes_fields:
  assumes "rpc_changes n n'"
  shows "nd_publishers n' = nd_publishers n" "nd_subscribers n' = nd_subscribers n"
    "nd_topics n' = nd_topics n" "nd_topics_by_prio n' = nd_topics_by_prio n"
    "nd_broker_address n' = nd_broker_address n" "length (nd_buffer n') = length (nd_buffer n)"
  using assms by (auto simp: rpc_changes_def)

lemma rpc_changes_inv [crps_inv]: "rpc_changes n n' \<Longrightarrow> node_inv n \<Longrightarrow> node_inv n'"
  by (simp add: node_inv_def rpc_changes_fields)

lemma receive_message_changes:
  "receive_message nw blk n w = Inr (outcome, n1, w1) \<Longrightarrow> rpc_changes n n1"
  by (auto simp: receive_message_def Let_def split: recv_result.splits if_splits elim!: rbind_InrE
      dest!: write_at_length intro!: rpc_changesI)

lemma send_control_changes: "send_control nw j n w = Inr (ok, n1, w1) \<Longrightarrow> rpc_changes n n1"
  by (auto simp: send_control_def next_bp_counter_def Let_def elim!: rbind_InrE intro: rpc_changesI)

lemma broker_rpc_changes: "broker_rpc_blocking nw j n w = Inr (r, n1, w1) \<Longrightarrow> rpc_changes n n1"
  by (auto simp: broker_rpc_blocking_def split: if_splits receive_outcome.splits elim!: rbind_InrE
      dest!: send_control_changes receive_message_changes) (blast intro: rpc_changes_trans)+

lemma node_register_node_changes: "node_register_node nw n w = Inr (ok, n1, w1) \<Longrightarrow> rpc_changes n n1"
  by (auto simp: node_register_node_def split: if_splits elim!: rbind_InrE
      dest!: broker_rpc_changes) (blast intro: rpc_changes_trans rpc_changesI(1))+

lemma node_register_message_type_changes:
  "node_register_message_type nw t sz n w = Inr (r, n1, w1) \<Longrightarrow> rpc_changes n n1"
  by (auto simp: node_register_message_type_def split: if_splits elim!: rbind_InrE dest!: broker_rpc_changes)

lemma node_register_topic_changes:
  "node_register_topic nw t mt prio b n w = Inr (r, n1, w1) \<Longrightarrow> rpc_changes n n1"
  by (auto simp: node_register_topic_def split: if_splits elim!: rbind_InrE dest!: broker_rpc_changes)

lemma node_add_pubsub_changes: "node_add_pubsub nw a t mt n w = Inr (ok, n1, w1) \<Longrightarrow> rpc_changes n n1"
  by (auto simp: node_add_pubsub_def elim!: rbind_InrE dest!: broker_rpc_changes)

lemmas rpc_calls_change = node_register_node_changes node_register_message_type_changes
  node_register_topic_changes node_add_pubsub_changes

section \<open>Registration keeps the invariant\<close>

lemma ti_ok_add:
  "ti_ok np ns ti \<Longrightarrow> i < np \<Longrightarrow> ti_ok np ns (ti\<lparr>ti_publishers := ti_publishers ti @ [i]\<rparr>)"
  "ti_ok np ns ti \<Longrightarrow> i < ns \<Longrightarrow> ti_ok np ns (ti\<lparr>ti_subscribers := ti_subscribers ti @ [i]\<rparr>)"
  by (auto simp: ti_ok_def)

lemma topic_get_ok: "\<forall>ti\<in>ran m. ti_ok np ns ti \<Longrightarrow> ti_ok np ns (topic_get t m)"
  by (auto simp: topic_get_def topic_info_empty_def ti_ok_def ran_def split: option.splits)

lemma prio_get_ok: "\<forall>ti\<in>snd ` set m. ti_ok np ns ti \<Longrightarrow> ti_ok np ns (prio_get p m)"
  by (force simp: prio_get_def topic_info_empty_def ti_ok_def dest: prio_find_Some split: option.splits)

lemma node_inv_tables [crps_inv]:
  assumes "node_inv n" and "ti_ok (length (nd_publishers n)) (length (nd_subscribers n)) ti"
    and "ti_ok (length (nd_publishers n)) (length (nd_subscribers n)) pi"
  shows "node_inv (n\<lparr>nd_topics := (nd_topics n)(t \<mapsto> ti), nd_topics_by_prio := prio_put p pi (nd_topics_by_prio n)\<rparr>)"
proof -
  have "ran ((nd_topics n)(t \<mapsto> ti)) \<union> snd ` set (prio_put p pi (nd_topics_by_prio n)) \<subseteq>
      {ti, pi} \<union> (ran (nd_topics n) \<union> snd ` set (nd_topics_by_prio n))"
    using snd_set_prio_put [of p pi "nd_topics_by_prio n"] by (auto simp: ran_def split: if_splits)
  then have "\<forall>x\<in>ran ((nd_topics n)(t \<mapsto> ti)) \<union> snd ` set (prio_put p pi (nd_topics_by_prio n)).
      ti_ok (length (nd_publishers n)) (length (nd_subscribers n)) x"
    using assms unfolding node_inv_def by blast
  then show ?thesis using assms(1) prio_sorted_put [of "nd_topics_by_prio n" p pi] by (simp add: node_inv_def)
qed

lemma enter_publisher_inv [crps_inv]:
  assumes "node_inv n" and "i < length (nd_publishers n)"
  shows "node_inv (enter_publisher i t p n)"
  unfolding enter_publisher_def Let_def
proof (rule node_inv_tables [OF assms(1)])
  show "ti_ok (length (nd_publishers n)) (length (nd_subscribers n))
      (topic_get t (nd_topics n)\<lparr>ti_publishers := ti_publishers (topic_get t (nd_topics n)) @ [i]\<rparr>)"
    using assms topic_get_ok [of "nd_topics n"] by (simp add: ti_ok_add node_inv_def ball_Un)
  show "ti_ok (length (nd_publishers n)) (length (nd_subscribers n))
      (prio_get p (nd_topics_by_prio n)\<lparr>ti_publishers := ti_publishers (prio_get p (nd_topics_by_prio n)) @ [i]\<rparr>)"
    using assms prio_get_ok [of "nd_topics_by_prio n"] by (simp add: ti_ok_add node_inv_def ball_Un)
qed

lemma enter_subscriber_inv [crps_inv]:
  assumes "node_inv n" and "i < length (nd_subscribers n)"
  shows "node_inv (enter_subscriber i t p n)"
  unfolding enter_subscriber_def Let_def
proof (rule node_inv_tables [OF assms(1)])
  show "ti_ok (length (nd_publishers n)) (length (nd_subscribers n))
      (topic_get t (nd_topics n)\<lparr>ti_subscribers := ti_subscribers (topic_get t (nd_topics n)) @ [i]\<rparr>)"
    using assms topic_get_ok [of "nd_topics n"] by (simp add: ti_ok_add node_inv_def ball_Un)
  show "ti_ok (length (nd_publishers n)) (length (nd_subscribers n))
      (prio_get p (nd_topics_by_prio n)\<lparr>ti_subscribers := ti_subscribers (prio_get p (nd_topics_by_prio n)) @ [i]\<rparr>)"
    using assms prio_get_ok [of "nd_topics_by_prio n"] by (simp add: ti_ok_add node_inv_def ball_Un)
qed

lemma change_publisher_inv [crps_inv]:
  "node_inv n \<Longrightarrow> i < length (nd_publishers n) \<Longrightarrow> (\<And>p. node_publisher_ok p \<Longrightarrow> node_publisher_ok (f p)) \<Longrightarrow>
   node_inv (change_publisher i f n)"
  by (simp add: change_publisher_def node_inv_set_publisher node_inv_publisher)

lemma change_subscriber_inv [crps_inv]:
  "node_inv n \<Longrightarrow> i < length (nd_subscribers n) \<Longrightarrow> (\<And>s. node_subscriber_ok s \<Longrightarrow> node_subscriber_ok (f s)) \<Longrightarrow>
   node_inv (change_subscriber i f n)"
  by (simp add: change_subscriber_def node_inv_set_subscriber node_inv_subscriber)

lemma identity_fields [simp]:
  "node_publisher_ok (p\<lparr>pu_message_type_id := x\<rparr>) = node_publisher_ok p"
  "node_publisher_ok (p\<lparr>pu_topic_id := y\<rparr>) = node_publisher_ok p"
  "node_subscriber_ok (s\<lparr>su_message_type_id := x\<rparr>) = node_subscriber_ok s"
  "node_subscriber_ok (s\<lparr>su_topic_id := y, su_topic_priority := z\<rparr>) = node_subscriber_ok s"
  by (simp_all add: node_publisher_ok_def publisher_inv_def pu_packet_size_def node_subscriber_ok_def subscriber_inv_def)

lemma length_change [simp]:
  "length (nd_publishers (change_publisher i f n)) = length (nd_publishers n)"
  "nd_subscribers (change_publisher i f n) = nd_subscribers n"
  "length (nd_subscribers (change_subscriber i g n)) = length (nd_subscribers n)"
  "nd_publishers (change_subscriber i g n) = nd_publishers n"
  "nd_publishers (enter_publisher i t p n) = nd_publishers n"
  "nd_subscribers (enter_publisher i t p n) = nd_subscribers n"
  "nd_publishers (enter_subscriber i t p n) = nd_publishers n"
  "nd_subscribers (enter_subscriber i t p n) = nd_subscribers n"
  by (simp_all add: change_publisher_def change_subscriber_def enter_publisher_def enter_subscriber_def Let_def)

text \<open>The publishers and the subscribers the table by priority has under a priority.\<close>

definition publishers_at :: "'u node \<Rightarrow> i8 \<Rightarrow> nat list" where
  "publishers_at n p = ti_publishers (prio_get p (nd_topics_by_prio n))"

definition callbacks_at :: "'u node \<Rightarrow> i8 \<Rightarrow> nat list" where
  "callbacks_at n p = ti_subscribers (prio_get p (nd_topics_by_prio n))"

text \<open>
  A small logic for calls: \<open>keeps np ns m\<close> says that when \<open>m\<close> returns, the node it returns satisfies
  the invariant and has \<open>np\<close> publishers and \<open>ns\<close> subscribers.
\<close>

definition node_ok :: "nat \<Rightarrow> nat \<Rightarrow> 'u node \<Rightarrow> bool" where
  "node_ok np ns n \<longleftrightarrow> node_inv n \<and> length (nd_publishers n) = np \<and> length (nd_subscribers n) = ns"

definition keeps :: "nat \<Rightarrow> nat \<Rightarrow> ('r \<times> 'u node \<times> 'w) res \<Rightarrow> bool" where
  "keeps np ns m \<longleftrightarrow> (\<forall>r n w. m = Inr (r, n, w) \<longrightarrow> node_ok np ns n)"

lemma keeps_return: "node_ok np ns n \<Longrightarrow> keeps np ns (Inr (r, n, w))"
  by (simp add: keeps_def)

lemma keeps_bind:
  "keeps np ns m \<Longrightarrow> (\<And>r n w. node_ok np ns n \<Longrightarrow> keeps np ns (f (r, n, w))) \<Longrightarrow> keeps np ns (rbind m f)"
  by (fastforce simp: keeps_def rbind_eq_Inr_iff)

lemma keeps_value: "(\<And>x. m = Inr x \<Longrightarrow> keeps np ns (f x)) \<Longrightarrow> keeps np ns (rbind m f)"
  by (auto simp: keeps_def rbind_eq_Inr_iff)

lemma keeps_option:
  "keeps np ns a \<Longrightarrow> (\<And>x. keeps np ns (f x)) \<Longrightarrow> keeps np ns (case r of None \<Rightarrow> a | Some x \<Rightarrow> f x)"
  by (simp split: option.split)

lemma keeps_if: "keeps np ns a \<Longrightarrow> keeps np ns b \<Longrightarrow> keeps np ns (if c then a else b)"
  by simp

lemma keeps_rpc:
  "(\<And>r n1 w1. m = Inr (r, n1, w1) \<Longrightarrow> rpc_changes n n1) \<Longrightarrow> node_ok np ns n \<Longrightarrow> keeps np ns m"
  unfolding keeps_def node_ok_def by (metis rpc_changes_fields(1,2) rpc_changes_inv)

lemma keepsD: "keeps np ns m \<Longrightarrow> m = Inr (r, n, w) \<Longrightarrow> node_ok np ns n"
  by (simp add: keeps_def)

lemma node_ok_changes:
  "node_ok np ns n \<Longrightarrow> i < np \<Longrightarrow> (\<And>p. node_publisher_ok p \<Longrightarrow> node_publisher_ok (f p)) \<Longrightarrow>
   node_ok np ns (change_publisher i f n)"
  "node_ok np ns n \<Longrightarrow> i < ns \<Longrightarrow> (\<And>s. node_subscriber_ok s \<Longrightarrow> node_subscriber_ok (g s)) \<Longrightarrow>
   node_ok np ns (change_subscriber i g n)"
  "node_ok np ns n \<Longrightarrow> i < np \<Longrightarrow> node_ok np ns (enter_publisher i t p n)"
  "node_ok np ns n \<Longrightarrow> i < ns \<Longrightarrow> node_ok np ns (enter_subscriber i t p n)"
  by (simp_all add: node_ok_def change_publisher_inv change_subscriber_inv enter_publisher_inv enter_subscriber_inv)

lemma keeps_calls:
  "node_ok np ns n \<Longrightarrow> keeps np ns (node_register_node nw n w)"
  "node_ok np ns n \<Longrightarrow> keeps np ns (node_register_message_type nw t sz n w)"
  "node_ok np ns n \<Longrightarrow> keeps np ns (node_register_topic nw t mt prio b n w)"
  "node_ok np ns n \<Longrightarrow> keeps np ns (node_add_pubsub nw a i j n w)"
  by (auto intro: keeps_rpc rpc_calls_change)

lemmas keeps_intros = keeps_bind keeps_return keeps_option keeps_if keeps_calls node_ok_changes

lemma register_publisher_keeps:
  assumes n: "node_ok np ns n"
  shows "keeps np ns (register_publisher nw i n w)"
proof (cases "i < np")
  case True
  with n show ?thesis
    unfolding register_publisher_def Let_def split_def fst_conv snd_conv
    by (intro keeps_value keeps_intros) (auto intro!: keeps_intros)
next
  case False
  with n show ?thesis by (simp add: register_publisher_def node_ok_def keeps_def)
qed

lemma register_subscriber_keeps:
  assumes n: "node_ok np ns n"
  shows "keeps np ns (register_subscriber nw i n w)"
proof (cases "i < ns")
  case True
  with n show ?thesis
    unfolding register_subscriber_def Let_def split_def fst_conv snd_conv
    by (intro keeps_value keeps_intros) (auto intro!: keeps_intros)
next
  case False
  with n show ?thesis by (simp add: register_subscriber_def node_ok_def keeps_def)
qed

lemma register_each_keeps:
  assumes "\<And>i n w. node_ok np ns n \<Longrightarrow> keeps np ns (reg i n w)"
  shows "node_ok np ns n \<Longrightarrow> keeps np ns (register_each reg is n w)"
proof (induction "is" arbitrary: n w)
  case Nil
  then show ?case by (simp add: keeps_return)
next
  case (Cons i "is")
  then show ?case
    by (auto simp: split_def intro!: keeps_bind assms keeps_return)
qed

lemma register_all_keeps:
  assumes n: "node_ok np ns n"
  shows "keeps np ns (rbind (register_each (register_publisher nw) is n w) (\<lambda>(ok, n2, w4).
     if \<not> ok then Inr (False, n2, w4) else register_each (register_subscriber nw) [0..<length (nd_subscribers n2)] n2 w4))"
  by (rule keeps_bind [OF register_each_keeps [OF register_publisher_keeps n]])
     (auto intro!: keeps_return register_each_keeps [OF register_subscriber_keeps])

lemma node_connect_keeps:
  assumes n: "node_ok np ns n"
  shows "keeps np ns (node_connect nw n w)"
  unfolding node_connect_def
  by (auto intro!: keeps_value keeps_bind [OF keeps_calls(1) [OF n]] register_all_keeps keeps_return n)

section \<open>Sending and receiving\<close>

lemma queue_all_ok:
  assumes "\<forall>s\<in>set subs. node_subscriber_ok s" and "\<forall>i\<in>set is. i < length subs"
    and "udp_buffer_size \<le> length data + 17"
  shows "\<exists>subs'. queue_all is data subs = Inr subs' \<and> length subs' = length subs \<and> (\<forall>s\<in>set subs'. node_subscriber_ok s)"
  using assms
proof (induction "is" arbitrary: subs)
  case Nil
  then show ?case by simp
next
  case (Cons i "is")
  let ?s = "subs ! i"
  from Cons.prems have s: "node_subscriber_ok ?s" "i < length subs" by simp_all
  then have inv: "subscriber_inv ?s" and data: "unat (su_message_size ?s) \<le> length data"
    using Cons.prems(3) by (auto simp: node_subscriber_ok_def)
  obtain ok s1 where s1: "queue_message data ?s = Inr (ok, s1)" "node_subscriber_ok s1"
  proof (cases "length (su_waiting ?s) < message_queue_capacity")
    case True
    from queue_message_room [OF inv this data] s that show ?thesis by (auto simp: node_subscriber_ok_def)
  next
    case False
    with su_waiting_bounded [OF inv] queue_message_full [OF inv] s that show ?thesis by auto
  qed
  have all: "\<forall>s\<in>set (subs[i := s1]). node_subscriber_ok s"
    using Cons.prems(1) s1(2) set_update_subset_insert [of subs i s1] by auto
  obtain subs' where "queue_all is data (subs[i := s1]) = Inr subs'" "length subs' = length subs"
    "\<forall>s\<in>set subs'. node_subscriber_ok s"
    using Cons.IH [OF all] Cons.prems by auto
  then show ?case using s s1 by simp
qed

lemma drop_header_length:
  "length (nd_buffer n) = udp_buffer_size \<Longrightarrow>
   udp_buffer_size \<le> length (drop (bp_header_size + bp_data_header_size) (nd_buffer n)) + 17"
  by (simp add: bp_sizes udp_buffer_size_def)

lemma deliver_message_ok:
  assumes n: "node_ok np ns n" and ti: "nd_topics n t = Some ti"
  shows "\<exists>r n'. deliver_message ti n = Inr (r, n') \<and> node_ok np ns n'"
proof -
  have idx: "\<forall>i\<in>set (ti_subscribers ti). i < length (nd_subscribers n)"
    using n ti by (auto simp: node_ok_def node_inv_def ti_ok_def ran_def)
  have "\<forall>s\<in>set (nd_subscribers n). node_subscriber_ok s"
    and "length (nd_buffer n) = udp_buffer_size"
    using n by (simp_all add: node_ok_def node_inv_def)
  from queue_all_ok [OF this(1) idx drop_header_length [OF this(2)]] obtain subs where
    "queue_all (ti_subscribers ti) (drop (bp_header_size + bp_data_header_size) (nd_buffer n))
       (nd_subscribers n) = Inr subs"
    "length subs = length (nd_subscribers n)" "\<forall>s\<in>set subs. node_subscriber_ok s" by blast
  with idx n show ?thesis
    by (cases "ti_subscribers ti") (simp_all add: deliver_message_def node_ok_def node_inv_subscribers)
qed

lemma process_incoming_keeps:
  assumes n: "node_ok np ns n"
  shows "keeps np ns (process_incoming_message nw n w)"
  unfolding process_incoming_message_def
proof (rule keeps_bind [OF keeps_rpc [OF receive_message_changes n]], assumption, goal_cases)
  case (1 outcome n1 w1)
  have "keeps np ns (rbind (deliver_message ti n1) (\<lambda>(processed, n2). Inr (processed, n2, w1)))"
    if "nd_topics n1 t = Some ti" for t ti
    using deliver_message_ok [OF 1 that] by (auto simp: keeps_return)
  then show ?case
    using keeps_return [OF 1] by (cases outcome) (auto split: option.split)
qed

section \<open>The loop never leaves its memory\<close>

text \<open>
  What is asked of the callback of a subscriber: called with a message of the subscriber's size, it returns, keeps
  the number of publishers, leaves each one well-formed, and keeps what is required of the user data. Publishing on
  any of them, as callbacks do, satisfies this.
\<close>

definition callback_ok :: "('u \<Rightarrow> bool) \<Rightarrow> nat \<Rightarrow> 'u subscriber \<Rightarrow> bool" where
  "callback_ok keep np s \<longleftrightarrow>
     (\<forall>m ps u. length m = unat (su_message_size s) \<and> keep u \<and> length ps = np \<and> (\<forall>p\<in>set ps. node_publisher_ok p) \<longrightarrow>
        (\<exists>ps' u'. su_callback s m (su_message_size s) (ps, u) = Inr (ps', u') \<and> keep u' \<and> length ps' = np \<and>
           (\<forall>p\<in>set ps'. node_publisher_ok p)))"

lemma callback_okD:
  "callback_ok keep np s \<Longrightarrow> length m = unat (su_message_size s) \<Longrightarrow> keep u \<Longrightarrow> length ps = np \<Longrightarrow>
   \<forall>p\<in>set ps. node_publisher_ok p \<Longrightarrow>
   \<exists>ps' u'. su_callback s m (su_message_size s) (ps, u) = Inr (ps', u') \<and> keep u' \<and> length ps' = np \<and>
     (\<forall>p\<in>set ps'. node_publisher_ok p)"
  by (simp add: callback_ok_def)

lemma callback_ok_queue [simp]: "callback_ok keep np (s\<lparr>su_message_queue := q\<rparr>) = callback_ok keep np s"
  by (simp add: callback_ok_def)

definition node_safe :: "('u \<Rightarrow> bool) \<Rightarrow> string \<Rightarrow> nat \<Rightarrow> nat \<Rightarrow> 'u node \<Rightarrow> 'u \<Rightarrow> bool" where
  "node_safe keep peer np ns n u \<longleftrightarrow>
     node_ok np ns n \<and> nd_broker_address n = peer \<and> (\<forall>s\<in>set (nd_subscribers n). callback_ok keep np s) \<and> keep u"

lemma waiting_length:
  assumes "node_subscriber_ok s" and "m \<in> set (su_waiting s)"
  shows "length m = unat (su_message_size s)"
proof -
  have "mq_inv (su_message_queue s)" "mq_message_size (su_message_queue s) = su_message_size s"
    using assms(1) by (simp_all add: node_subscriber_ok_def subscriber_inv_def)
  with assms(2) mq_inv_queued show ?thesis by (fastforce simp: su_waiting_def mq_contents_def)
qed

text \<open>
  What is asked of a network for the node to be safe on it, as long as its state satisfies \<open>good\<close>: no more bytes are
  received than were asked for. Its operations may fail, they may throw, and any packet may arrive.
\<close>

fun recv_bytes :: "recv_result \<Rightarrow> byte list" where
  "recv_bytes (Received bytes _) = bytes"
| "recv_bytes (RecvFailed _ bytes) = bytes"

definition network_fits :: "string \<Rightarrow> ('w \<Rightarrow> bool) \<Rightarrow> 'w network \<Rightarrow> bool" where
  "network_fits peer good nw \<longleftrightarrow>
     (\<forall>p w ok w'. good w \<longrightarrow> nw_sendto nw peer p w = Inr (ok, w') \<longrightarrow> good w') \<and>
     (\<forall>k block w r w'. good w \<longrightarrow> nw_recvfrom nw k block w = Inr (r, w') \<longrightarrow> good w' \<and> length (recv_bytes r) \<le> k)"

text \<open>
  The faults that are the network's: one thrown by a \<^verbatim>\<open>sendto\<close>, and one of a reception, which is either thrown by
  \<^verbatim>\<open>recvfrom\<close> or by the decoder on a control packet that has just been received.
\<close>

definition send_fault :: "string \<Rightarrow> ('w \<Rightarrow> bool) \<Rightarrow> 'w network \<Rightarrow> fault \<Rightarrow> bool" where
  "send_fault peer good nw f \<longleftrightarrow> (\<exists>p w. good w \<and> nw_sendto nw peer p w = Inl f)"

definition send_refused :: "string \<Rightarrow> ('w \<Rightarrow> bool) \<Rightarrow> 'w network \<Rightarrow> bool" where
  "send_refused peer good nw \<longleftrightarrow> (\<exists>p w w'. good w \<and> nw_sendto nw peer p w = Inr (False, w'))"

definition control_fault :: "byte list \<Rightarrow> byte list \<Rightarrow> fault \<Rightarrow> bool" where
  "control_fault bytes buffer f \<longleftrightarrow> take 1 bytes = [bp_control] \<and>
     decode_packet_buffer (bytes @ drop (length bytes) buffer) (length bytes) = Inl f"

definition receive_fault :: "'w network \<Rightarrow> 'u node \<Rightarrow> 'w \<Rightarrow> fault \<Rightarrow> bool" where
  "receive_fault nw n w f \<longleftrightarrow>
     nw_recvfrom nw udp_buffer_size False w = Inl f \<or>
     (\<exists>bytes sender w'. nw_recvfrom nw udp_buffer_size False w = Inr (Received bytes sender, w') \<and>
        control_fault bytes (nd_buffer n) f)"

text \<open>A network without such faults.\<close>

definition network_safe :: "string \<Rightarrow> ('w \<Rightarrow> bool) \<Rightarrow> 'w network \<Rightarrow> bool" where
  "network_safe peer good nw \<longleftrightarrow> network_fits peer good nw \<and>
     (\<forall>p w f. good w \<longrightarrow> nw_sendto nw peer p w \<noteq> Inl f) \<and>
     (\<forall>w f. good w \<longrightarrow> nw_recvfrom nw udp_buffer_size False w \<noteq> Inl f) \<and>
     (\<forall>w bytes sender w' buffer f. good w \<longrightarrow>
        nw_recvfrom nw udp_buffer_size False w = Inr (Received bytes sender, w') \<longrightarrow>
        length buffer = udp_buffer_size \<longrightarrow> \<not> control_fault bytes buffer f)"

lemma node_safe_subscriber:
  assumes "node_safe keep peer np ns n u" and "i < ns"
  shows "node_subscriber_ok (nd_subscribers n ! i)" and "callback_ok keep np (nd_subscribers n ! i)" and "keep u"
  using assms by (auto simp: node_safe_def node_ok_def node_inv_subscriber)

lemma node_safe_set_subscriber:
  assumes "node_safe keep peer np ns n u" and "node_subscriber_ok s" and "callback_ok keep np s"
  shows "node_safe keep peer np ns (n\<lparr>nd_subscribers := (nd_subscribers n)[i := s]\<rparr>) u"
  using assms set_update_subset_insert [of "nd_subscribers n" i s]
  by (auto simp: node_safe_def node_ok_def intro!: node_inv_set_subscriber)

lemma node_safe_set_publishers:
  assumes "node_safe keep peer np ns n u" and "length ps = np" and "\<forall>p\<in>set ps. node_publisher_ok p"
  shows "node_safe keep peer np ns (n\<lparr>nd_publishers := ps\<rparr>) u"
  using assms by (simp add: node_safe_def node_ok_def node_inv_publishers)

lemma messages_queued_waiting: "su_messages_queued s = length (su_waiting s)" "pu_messages_queued p = length (pu_waiting p)"
  by (simp_all add: su_messages_queued_def su_waiting_def pu_messages_queued_def pu_waiting_def)

text \<open>One callback on a subscriber with a waiting message.\<close>

lemma run_callback_safe:
  assumes n: "node_safe keep peer np ns n u" and i: "i < ns" and ne: "su_waiting (nd_subscribers n ! i) = m # ms"
  shows "\<exists>s1 ps u1. run_callback (nd_subscribers n ! i) (nd_publishers n, u) = Inr (True, s1, (ps, u1)) \<and>
    su_waiting s1 = ms \<and>
    node_safe keep peer np ns (n\<lparr>nd_subscribers := (nd_subscribers n)[i := s1], nd_publishers := ps\<rparr>) u1"
proof -
  let ?s = "nd_subscribers n ! i"
  note s = node_safe_subscriber [OF n i]
  from run_callback_some [OF _ ne, of "(nd_publishers n, u)"] s(1) obtain q where
    q: "run_callback ?s (nd_publishers n, u) = rbind (su_callback ?s m (su_message_size ?s) (nd_publishers n, u))
        (\<lambda>ctx1. Inr (True, ?s\<lparr>su_message_queue := q\<rparr>, ctx1))"
      "subscriber_inv (?s\<lparr>su_message_queue := q\<rparr>)" "su_waiting (?s\<lparr>su_message_queue := q\<rparr>) = ms"
    by (auto simp: node_subscriber_ok_def)
  have "length (nd_publishers n) = np" "\<forall>p\<in>set (nd_publishers n). node_publisher_ok p"
    using n by (simp_all add: node_safe_def node_ok_def node_inv_def)
  moreover have len: "length m = unat (su_message_size ?s)" using waiting_length [OF s(1), of m] ne by simp
  ultimately obtain ps u1 where cb: "su_callback ?s m (su_message_size ?s) (nd_publishers n, u) = Inr (ps, u1)"
    "length ps = np" "\<forall>p\<in>set ps. node_publisher_ok p" "keep u1"
    using callback_okD [OF s(2) len s(3)] by blast
  have "node_safe keep peer np ns (n\<lparr>nd_subscribers := (nd_subscribers n)[i := ?s\<lparr>su_message_queue := q\<rparr>]\<rparr>) u"
    using node_safe_set_subscriber [OF n, of "?s\<lparr>su_message_queue := q\<rparr>" i] s q(2)
    by (simp add: node_subscriber_ok_def)
  then have "node_safe keep peer np ns (n\<lparr>nd_subscribers := (nd_subscribers n)[i := ?s\<lparr>su_message_queue := q\<rparr>]\<rparr>) u1"
    using cb(4) by (simp add: node_safe_def)
  from node_safe_set_publishers [OF this cb(2,3)] q(1,3) cb(1) show ?thesis by auto
qed

text \<open>The number of messages waiting in all publishers, and in all subscribers.\<close>

definition pubs_weight :: "'u node \<Rightarrow> nat" where
  "pubs_weight n = sum_list (map (\<lambda>p. length (pu_waiting p)) (nd_publishers n))"

definition subs_weight :: "'u node \<Rightarrow> nat" where
  "subs_weight n = sum_list (map (\<lambda>s. length (su_waiting s)) (nd_subscribers n))"

text \<open>
  A weight no pass over the topics increases, and that one with work reduces: a callback can publish at most as many
  messages as the queues of all publishers hold.
\<close>

definition pass_weight :: "nat \<Rightarrow> 'u node \<Rightarrow> nat" where
  "pass_weight np n = pubs_weight n + Suc (np * message_queue_capacity) * subs_weight n"

lemma sum_list_bounded: "\<forall>x\<in>set xs. f x \<le> (k :: nat) \<Longrightarrow> sum_list (map f xs) \<le> length xs * k"
  by (induction xs) auto

lemma sum_list_set: "i < length xs \<Longrightarrow> sum_list (map f (xs[i := x])) + f (xs ! i) = sum_list (map f xs) + (f x :: nat)"
  by (induction xs arbitrary: i) (auto split: nat.split)

lemma pubs_weight_bound: "node_safe keep peer np ns n u \<Longrightarrow> pubs_weight n \<le> np * message_queue_capacity"
  using sum_list_bounded [of "nd_publishers n" "\<lambda>p. length (pu_waiting p)" message_queue_capacity]
  by (auto simp: pubs_weight_def node_safe_def node_ok_def node_inv_def node_publisher_ok_def pu_waiting_bounded)

lemma subs_weight_bound: "node_safe keep peer np ns n u \<Longrightarrow> subs_weight n \<le> ns * message_queue_capacity"
  using sum_list_bounded [of "nd_subscribers n" "\<lambda>s. length (su_waiting s)" message_queue_capacity]
  by (auto simp: subs_weight_def node_safe_def node_ok_def node_inv_def node_subscriber_ok_def su_waiting_bounded)

lemma run_callbacks_safe:
  "node_safe keep peer np ns n u \<Longrightarrow> \<forall>i\<in>set is. i < ns \<Longrightarrow>
   \<exists>n' u'. run_callbacks is n u = Inr (True, n', u') \<and> node_safe keep peer np ns n' u' \<and>
     pass_weight np n' \<le> pass_weight np n"
proof (induction "is" arbitrary: n u)
  case Nil
  then show ?case by simp
next
  case (Cons i "is")
  note IH = Cons.IH and prems = Cons.prems
  have i: "i < ns" "i < length (nd_subscribers n)" using prems by (simp_all add: node_safe_def node_ok_def)
  show ?case
  proof (cases "su_waiting (nd_subscribers n ! i)")
    case Nil
    with IH prems i show ?thesis by (simp add: messages_queued_waiting)
  next
    case (Cons m ms)
    from run_callback_safe [OF prems(1) i(1) Cons] obtain s1 ps u1 where
      1: "run_callback (nd_subscribers n ! i) (nd_publishers n, u) = Inr (True, s1, (ps, u1))" "su_waiting s1 = ms"
      "node_safe keep peer np ns (n\<lparr>nd_subscribers := (nd_subscribers n)[i := s1], nd_publishers := ps\<rparr>) u1" by blast
    let ?n = "n\<lparr>nd_subscribers := (nd_subscribers n)[i := s1], nd_publishers := ps\<rparr>"
    have "subs_weight ?n + length (su_waiting (nd_subscribers n ! i)) = subs_weight n + length ms"
      using sum_list_set [OF i(2), of "\<lambda>s. length (su_waiting s)" s1] 1(2) by (simp add: subs_weight_def)
    then have sub: "subs_weight n = Suc (subs_weight ?n)" using Cons by simp
    have le: "pass_weight np ?n \<le> pass_weight np n"
      unfolding pass_weight_def sub mult_Suc_right using pubs_weight_bound [OF 1(3)] by linarith
    from IH [OF 1(3)] prems(2) obtain n' u' where r:
      "run_callbacks is ?n u1 = Inr (True, n', u')" "node_safe keep peer np ns n' u'"
      "pass_weight np n' \<le> pass_weight np ?n" by auto
    have eq: "run_callbacks (i # is) n u = run_callbacks is ?n u1"
      using 1(1) i Cons by (simp add: messages_queued_waiting Let_def)
    show ?thesis unfolding eq using r(1,2) order_trans [OF r(3) le] by blast
  qed
qed

text \<open>
  Sending the oldest message of a publisher: the packet is the header with the node's next counter,
  the publisher's topic and message type, and the message.
\<close>

definition data_packet :: "u32 \<Rightarrow> publisher \<Rightarrow> byte list \<Rightarrow> byte list" where
  "data_packet counter p message =
     bp_data # htonl_bytes counter @ htonl_bytes (pu_topic_id p) @ htonl_bytes (pu_message_type_id p) @
     htonl_bytes (pu_message_size p) @ message"

lemma node_send_data_packet:
  assumes ok: "node_publisher_ok p" and i: "i < length (nd_publishers n)" "nd_publishers n ! i = p"
    and ne: "pu_waiting p = m # ms"
  shows "\<exists>q. node_send_data nw i n w =
      rbind (nw_sendto nw (nd_broker_address n) (data_packet (nd_bp_counter n + 1) p m) w)
        (\<lambda>(ok, w1). Inr (ok, n\<lparr>nd_bp_counter := nd_bp_counter n + 1,
                                nd_publishers := (nd_publishers n)[i := p\<lparr>pu_message_queue := q\<rparr>]\<rparr>, w1)) \<and>
    node_publisher_ok (p\<lparr>pu_message_queue := q\<rparr>) \<and> pu_waiting (p\<lparr>pu_message_queue := q\<rparr>) = m # ms"
proof -
  let ?q = "pu_message_queue p"
  have mq: "mq_inv ?q" and hs: "pu_packet_header_size p = 17"
    and sz: "unat (mq_message_size ?q) = 17 + unat (pu_message_size p)"
    using ok by (simp_all add: node_publisher_ok_def publisher_inv_def pu_packet_size_def)
  from ne hs obtain b bs where b: "mq_queue ?q = b # bs" and m: "m = drop 17 (mq_buffers ?q ! b)"
    and ms: "ms = map (\<lambda>c. drop 17 (mq_buffers ?q ! c)) bs"
    by (cases "mq_queue ?q") (auto simp: pu_waiting_def mq_contents_def)
  from mq_inv_queued [OF mq, of b] b have bl: "b < length (mq_buffers ?q)"
    and len: "length (mq_buffers ?q ! b) = 17 + unat (pu_message_size p)" by (auto simp: sz)
  define buf where "buf = data_packet (nd_bp_counter n + 1) p m"
  have buflen: "length buf = 17 + unat (pu_message_size p)" using len by (simp add: buf_def data_packet_def m)
  have fill: "bp_fill_data_header (nd_bp_counter n + 1) (pu_topic_id p) (pu_message_type_id p)
       (of_nat (pu_packet_size p) - of_nat (bp_header_size + bp_data_header_size)) (mq_buffers ?q ! b) = Inr buf"
    using len by (simp add: bp_fill_data_header_def write_at_def bp_sizes buf_def data_packet_def m pu_packet_size_def hs)
  define q where "q = ?q\<lparr>mq_buffers := (mq_buffers ?q)[b := buf]\<rparr>"
  have b_notin: "b \<notin> set bs" using mq b by (auto simp: mq_inv_def)
  have "mq_inv q"
    using mq b bl buflen sz set_update_subset_insert [of "mq_buffers ?q" b buf]
    by (auto simp: q_def mq_inv_def)
  moreover have "mq_contents q = buf # map (\<lambda>c. mq_buffers ?q ! c) bs"
    using b bl b_notin by (auto simp: q_def mq_contents_def nth_list_update)
  ultimately have 1: "node_publisher_ok (p\<lparr>pu_message_queue := q\<rparr>)" "pu_waiting (p\<lparr>pu_message_queue := q\<rparr>) = m # ms"
    using ok hs by (simp_all add: node_publisher_ok_def publisher_inv_def pu_packet_size_def pu_waiting_def ms
        q_def buf_def data_packet_def comp_def)
  have "read_at 0 (pu_packet_size p) buf = Inr buf"
    using buflen by (simp add: read_at_def slice_def pu_packet_size_def hs)
  then have "node_send_data nw i n w =
      rbind (nw_sendto nw (nd_broker_address n) buf w)
        (\<lambda>(ok, w1). Inr (ok, n\<lparr>nd_bp_counter := nd_bp_counter n + 1,
                                nd_publishers := (nd_publishers n)[i := p\<lparr>pu_message_queue := q\<rparr>]\<rparr>, w1))"
    using i b bl fill by (simp add: node_send_data_def mq_get_def next_bp_counter_def Let_def q_def)
  with 1 show ?thesis unfolding buf_def by blast
qed

text \<open>The node after sending with publisher \<open>i\<close>: one counter further, with a new queue at \<open>i\<close>.\<close>

definition sent_with :: "nat \<Rightarrow> message_queue \<Rightarrow> 'u node \<Rightarrow> 'u node" where
  "sent_with i q n =
     n\<lparr>nd_bp_counter := nd_bp_counter n + 1,
       nd_publishers := (nd_publishers n)[i := (nd_publishers n ! i)\<lparr>pu_message_queue := q\<rparr>]\<rparr>"

lemma send_messages_waiting:
  assumes ok: "node_publisher_ok (nd_publishers n ! i)" and i: "i < length (nd_publishers n)"
    and ne: "pu_waiting (nd_publishers n ! i) = m # ms"
  shows "\<exists>q1 q2. send_messages nw (i # is) work n w =
      rbind (nw_sendto nw (nd_broker_address n) (data_packet (nd_bp_counter n + 1) (nd_publishers n ! i) m) w)
        (\<lambda>(sent, w1). if \<not> sent then Inr (False, work, sent_with i q1 n, w1)
                      else send_messages nw is True (sent_with i q2 n) w1) \<and>
    node_publisher_ok ((nd_publishers n ! i)\<lparr>pu_message_queue := q1\<rparr>) \<and>
    node_publisher_ok ((nd_publishers n ! i)\<lparr>pu_message_queue := q2\<rparr>) \<and>
    pu_waiting ((nd_publishers n ! i)\<lparr>pu_message_queue := q2\<rparr>) = ms \<and>
    pu_waiting ((nd_publishers n ! i)\<lparr>pu_message_queue := q1\<rparr>) = m # ms"
proof -
  let ?p = "nd_publishers n ! i"
  from node_send_data_packet [OF ok i refl ne, of nw w] obtain q1 where
    q1: "node_send_data nw i n w =
      rbind (nw_sendto nw (nd_broker_address n) (data_packet (nd_bp_counter n + 1) ?p m) w)
        (\<lambda>(ok, w1). Inr (ok, sent_with i q1 n, w1))"
      "node_publisher_ok (?p\<lparr>pu_message_queue := q1\<rparr>)" "pu_waiting (?p\<lparr>pu_message_queue := q1\<rparr>) = m # ms"
    unfolding sent_with_def by blast
  from pu_pop_some [OF _ q1(3)] q1(2) obtain q2 where
    q2: "pu_pop_message (?p\<lparr>pu_message_queue := q1\<rparr>) = (True, ?p\<lparr>pu_message_queue := q2\<rparr>)"
      "publisher_inv (?p\<lparr>pu_message_queue := q2\<rparr>)" "pu_waiting (?p\<lparr>pu_message_queue := q2\<rparr>) = ms"
    by (auto simp: node_publisher_ok_def)
  have pop: "change_publisher i (\<lambda>p. snd (pu_pop_message p)) (sent_with i q1 n) = sent_with i q2 n"
    using i q2(1) by (simp add: change_publisher_def sent_with_def)
  have "pu_messages_queued ?p \<noteq> 0" using ne by (simp add: messages_queued_waiting)
  then have "send_messages nw (i # is) work n w =
      rbind (nw_sendto nw (nd_broker_address n) (data_packet (nd_bp_counter n + 1) ?p m) w)
        (\<lambda>(sent, w1). if \<not> sent then Inr (False, work, sent_with i q1 n, w1)
                      else send_messages nw is True (sent_with i q2 n) w1)"
    using i q1(1) pop
    by (cases "nw_sendto nw (nd_broker_address n) (data_packet (nd_bp_counter n + 1) ?p m) w") auto
  moreover have "node_publisher_ok (?p\<lparr>pu_message_queue := q2\<rparr>)"
    using q2(2) ok by (simp add: node_publisher_ok_def)
  ultimately show ?thesis using q1(2,3) q2(3) by blast
qed

lemma sent_with_safe:
  assumes "node_safe keep peer np ns n u" and "node_publisher_ok ((nd_publishers n ! i)\<lparr>pu_message_queue := q\<rparr>)"
  shows "node_safe keep peer np ns (sent_with i q n) u"
  using assms node_inv_set_publisher [of "n\<lparr>nd_bp_counter := nd_bp_counter n + 1\<rparr>" _ i]
  by (simp add: node_safe_def node_ok_def sent_with_def)

lemma send_messages_safe:
  assumes nw: "network_fits peer good nw"
  shows "node_safe keep peer np ns n u \<Longrightarrow> \<forall>i\<in>set is. i < np \<Longrightarrow> good w \<Longrightarrow>
   within (send_fault peer good nw) (\<lambda>(ok, work', n', w'). node_safe keep peer np ns n' u \<and> good w' \<and>
       (ok \<or> send_refused peer good nw) \<and> nd_subscribers n' = nd_subscribers n \<and>
       pubs_weight n' + (if work' \<and> \<not> work then 1 else 0) \<le> pubs_weight n \<and> (work \<longrightarrow> work'))
     (send_messages nw is work n w)"
proof (induction "is" arbitrary: work n w)
  case Nil
  then show ?case by auto
next
  case (Cons i "is")
  note IH = Cons.IH and prems = Cons.prems
  have i: "i < length (nd_publishers n)" "node_publisher_ok (nd_publishers n ! i)"
    using prems by (simp_all add: node_safe_def node_ok_def node_inv_publisher)
  let ?p = "nd_publishers n ! i"
  show ?case
  proof (cases "pu_waiting ?p")
    case Nil
    with IH prems i show ?thesis by (simp add: messages_queued_waiting)
  next
    case (Cons m ms)
    from send_messages_waiting [OF i(2,1) Cons, of nw "is" work w] obtain q1 q2 where
      eq: "send_messages nw (i # is) work n w =
        rbind (nw_sendto nw (nd_broker_address n) (data_packet (nd_bp_counter n + 1) ?p m) w)
        (\<lambda>(sent, w1). if \<not> sent then Inr (False, work, sent_with i q1 n, w1)
                      else send_messages nw is True (sent_with i q2 n) w1)"
      and ok: "node_publisher_ok (?p\<lparr>pu_message_queue := q1\<rparr>)" "pu_waiting (?p\<lparr>pu_message_queue := q1\<rparr>) = m # ms"
        "node_publisher_ok (?p\<lparr>pu_message_queue := q2\<rparr>)" "pu_waiting (?p\<lparr>pu_message_queue := q2\<rparr>) = ms" by blast
    note safe = sent_with_safe [OF prems(1) ok(1)] sent_with_safe [OF prems(1) ok(3)]
    have weight: "pubs_weight (sent_with i q n) + Suc (length ms) =
        pubs_weight n + length (pu_waiting (?p\<lparr>pu_message_queue := q\<rparr>))" for q
      using sum_list_set [OF i(1), of "\<lambda>p. length (pu_waiting p)" "?p\<lparr>pu_message_queue := q\<rparr>"] Cons
      by (simp add: pubs_weight_def sent_with_def)
    have less: "pubs_weight (sent_with i q1 n) = pubs_weight n" "Suc (pubs_weight (sent_with i q2 n)) = pubs_weight n"
      using weight [of q1] weight [of q2] ok(2,4) by simp_all
    have subs: "nd_subscribers (sent_with i q n) = nd_subscribers n" for q by (simp add: sent_with_def)
    let ?a = "nd_broker_address n" and ?packet = "data_packet (nd_bp_counter n + 1) ?p m"
    have peer: "?a = peer" using prems(1) by (simp add: node_safe_def)
    have sent: "within (send_fault peer good nw) (\<lambda>(sent, w1). good w1 \<and> (sent \<or> send_refused peer good nw))
        (nw_sendto nw ?a ?packet w)"
    proof (cases "nw_sendto nw ?a ?packet w")
      case (Inl f)
      with prems(3) show ?thesis unfolding peer by (auto simp: send_fault_def)
    next
      case (Inr r)
      obtain took w1 where "r = (took, w1)" by (cases r)
      moreover from this Inr nw prems(3) have "good w1" unfolding peer network_fits_def by blast
      ultimately show ?thesis using Inr prems(3) unfolding peer by (cases took) (auto simp: send_refused_def)
    qed
    have later: "within (send_fault peer good nw) (\<lambda>(ok, work', n', w'). node_safe keep peer np ns n' u \<and> good w' \<and>
        (ok \<or> send_refused peer good nw) \<and> nd_subscribers n' = nd_subscribers n \<and>
        pubs_weight n' + (if work' \<and> \<not> work then 1 else 0) \<le> pubs_weight n \<and> (work \<longrightarrow> work'))
      (send_messages nw is True (sent_with i q2 n) w1)" if "good w1" for w1
      by (rule within_mono [OF IH [OF safe(2) _ that, of True]]) (use prems(2) less(2) subs in auto)
    show ?thesis
      unfolding eq
    proof (rule within_rbind [OF sent], clarify)
      fix took w1
      assume w1: "good w1" and "took \<or> send_refused peer good nw"
      then show "within (send_fault peer good nw) (\<lambda>(ok, work', n', w'). node_safe keep peer np ns n' u \<and> good w' \<and>
        (ok \<or> send_refused peer good nw) \<and> nd_subscribers n' = nd_subscribers n \<and>
        pubs_weight n' + (if work' \<and> \<not> work then 1 else 0) \<le> pubs_weight n \<and> (work \<longrightarrow> work'))
        (if \<not> took then Inr (False, work, sent_with i q1 n, w1) else send_messages nw is True (sent_with i q2 n) w1)"
        using later [OF w1] safe(1) less(1) subs by (cases took) simp_all
    qed
  qed
qed

lemma spin_topics_safe:
  assumes nw: "network_fits peer good nw"
  shows "node_safe keep peer np ns n u \<Longrightarrow> \<forall>ti\<in>snd ` set ts. ti_ok np ns ti \<Longrightarrow> good w \<Longrightarrow>
   within (send_fault peer good nw) (\<lambda>(ok, work', n', u', w'). node_safe keep peer np ns n' u' \<and> good w' \<and>
       (ok \<or> send_refused peer good nw) \<and>
       pass_weight np n' + (if work' \<and> \<not> work then 1 else 0) \<le> pass_weight np n \<and> (work \<longrightarrow> work'))
     (spin_topics nw ts work n u w)"
proof (induction ts arbitrary: work n u w)
  case Nil
  then show ?case by auto
next
  case (Cons t ts)
  obtain prio ti where t: "t = (prio, ti)" by (cases t)
  have idx: "\<forall>i\<in>set (ti_subscribers ti). i < ns" "\<forall>i\<in>set (ti_publishers ti). i < np"
    using Cons.prems(2) t by (simp_all add: ti_ok_def)
  from run_callbacks_safe [OF Cons.prems(1) idx(1)] obtain n1 u1 where
    1: "run_callbacks (ti_subscribers ti) n u = Inr (True, n1, u1)" "node_safe keep peer np ns n1 u1"
      "pass_weight np n1 \<le> pass_weight np n" by blast
  have next_topic: "within (send_fault peer good nw) (\<lambda>(ok, work', n', u', w'). node_safe keep peer np ns n' u' \<and> good w' \<and>
       (ok \<or> send_refused peer good nw) \<and>
       pass_weight np n' + (if work' \<and> \<not> work then 1 else 0) \<le> pass_weight np n \<and> (work \<longrightarrow> work'))
     (spin_topics nw ts work1 n2 u1 w1)"
    if n2: "node_safe keep peer np ns n2 u1" "good w1" "nd_subscribers n2 = nd_subscribers n1"
      "pubs_weight n2 + (if work1 \<and> \<not> work then 1 else 0) \<le> pubs_weight n1" "work \<longrightarrow> work1" for work1 n2 w1
  proof -
    have w2: "pass_weight np n2 + (if work1 \<and> \<not> work then 1 else 0) \<le> pass_weight np n1"
      using n2(3,4) by (simp add: pass_weight_def subs_weight_def)
    have "within (send_fault peer good nw) (\<lambda>(ok, work', n', u', w'). node_safe keep peer np ns n' u' \<and> good w' \<and>
       (ok \<or> send_refused peer good nw) \<and>
       pass_weight np n' + (if work' \<and> \<not> work1 then 1 else 0) \<le> pass_weight np n2 \<and> (work1 \<longrightarrow> work'))
      (spin_topics nw ts work1 n2 u1 w1)"
      using Cons.IH [OF n2(1) _ n2(2)] Cons.prems(2) by simp
    then show ?thesis
      using w2 n2(5) 1(3) by (elim within_mono) (auto split: if_splits)
  qed
  have ready: "within (send_fault peer good nw) (\<lambda>(ok, work', n', w'). node_safe keep peer np ns n' u1 \<and> good w' \<and>
       (ok \<or> send_refused peer good nw) \<and> nd_subscribers n' = nd_subscribers n1 \<and>
       pubs_weight n' + (if work' \<and> \<not> work then 1 else 0) \<le> pubs_weight n1 \<and> (work \<longrightarrow> work'))
     (send_messages nw (ti_publishers ti) work n1 w)"
    by (rule send_messages_safe [OF nw 1(2) idx(2) Cons.prems(3)])
  have stop: "pass_weight np n2 + (if work1 \<and> \<not> work then 1 else 0) \<le> pass_weight np n"
    if "nd_subscribers n2 = nd_subscribers n1" "pubs_weight n2 + (if work1 \<and> \<not> work then 1 else 0) \<le> pubs_weight n1" for n2 work1
    using that 1(3) by (simp add: pass_weight_def subs_weight_def)
  have eq: "spin_topics nw (t # ts) work n u w =
      rbind (send_messages nw (ti_publishers ti) work n1 w) (\<lambda>(ok, work1, n2, w1).
        if \<not> ok then Inr (False, work1, n2, u1, w1) else spin_topics nw ts work1 n2 u1 w1)"
    by (simp add: t 1(1))
  show ?case
    unfolding eq
  proof (rule within_rbind [OF ready], clarify)
    fix ok work1 n2 w1
    assume n2: "node_safe keep peer np ns n2 u1" "good w1" "ok \<or> send_refused peer good nw"
      "nd_subscribers n2 = nd_subscribers n1"
      "pubs_weight n2 + (if work1 \<and> \<not> work then 1 else 0) \<le> pubs_weight n1" "work \<longrightarrow> work1"
    show "within (send_fault peer good nw) (\<lambda>(ok, work', n', u', w'). node_safe keep peer np ns n' u' \<and> good w' \<and>
       (ok \<or> send_refused peer good nw) \<and>
       pass_weight np n' + (if work' \<and> \<not> work then 1 else 0) \<le> pass_weight np n \<and> (work \<longrightarrow> work'))
      (if \<not> ok then Inr (False, work1, n2, u1, w1) else spin_topics nw ts work1 n2 u1 w1)"
      using next_topic [OF n2(1,2,4-6)] n2(1-3,6) stop [OF n2(4,5)] by (cases ok) simp_all
  qed
qed

lemma decode_not_control:
  assumes "17 \<le> length buf" and "5 \<le> k \<Longrightarrow> buf ! 0 \<noteq> bp_control"
  shows "\<exists>ty d. decode_packet_buffer buf k = Inr (ty, d)"
proof -
  have "\<exists>v. read_u32 j buf = Inr v" if "j \<le> 13" for j
    using that assms(1) by (simp add: read_u32_def read_at_def)
  from this [of 1] this [of 5] this [of 9] this [of 13] obtain a b c d where
    "read_u32 1 buf = Inr a" "read_u32 5 buf = Inr b" "read_u32 9 buf = Inr c" "read_u32 13 buf = Inr d" by auto
  moreover have "at buf 0 = Inr (buf ! 0)" using assms(1) by (intro at_in) linarith
  ultimately show ?thesis using assms(2) by (auto simp: decode_packet_buffer_def decode_data_def bp_sizes Let_def)
qed

lemma receive_message_safe:
  assumes nw: "network_fits peer good nw" and n: "node_safe keep peer np ns n u" and w: "good w"
  shows "within (receive_fault nw n w) (\<lambda>(outcome, n1, w1). node_safe keep peer np ns n1 u \<and> good w1 \<and>
      nd_publishers n1 = nd_publishers n \<and> nd_subscribers n1 = nd_subscribers n)
    (receive_message nw False n w)"
proof (cases "nw_recvfrom nw udp_buffer_size False w")
  case (Inl f)
  then show ?thesis by (simp add: receive_message_def receive_fault_def)
next
  case (Inr x)
  obtain r w1 where x: "x = (r, w1)" by (cases x)
  with Inr nw w have w1: "good w1" "length (recv_bytes r) \<le> udp_buffer_size" unfolding network_fits_def by blast+
  have len: "length (nd_buffer n) = udp_buffer_size" using n by (simp add: node_safe_def node_ok_def node_inv_def)
  define buf where "buf = recv_bytes r @ drop (length (recv_bytes r)) (nd_buffer n)"
  have l: "length buf = udp_buffer_size" using w1(2) len by (simp add: buf_def)
  have safe: "node_safe keep peer np ns (n\<lparr>nd_buffer := buf\<rparr>) u"
    using n l len by (simp add: node_safe_def node_ok_def node_inv_buffer)
  have wr: "write_at 0 (recv_bytes r) (nd_buffer n) = Inr buf" using w1(2) len by (simp add: write_at_def buf_def)
  show ?thesis
  proof (cases r)
    case (RecvFailed e bytes)
    with Inr x wr safe w1(1) show ?thesis by (auto simp: receive_message_def Let_def)
  next
    case (Received bytes sender)
    show ?thesis
    proof (cases "decode_packet_buffer buf (length bytes)")
      case (Inl f)
      have "take 1 bytes = [bp_control]"
        using decode_not_control [of buf "length bytes"] Inl l Received
        by (cases bytes) (auto simp: udp_buffer_size_def buf_def)
      then have "control_fault bytes (nd_buffer n) f" using Inl Received by (simp add: control_fault_def buf_def)
      then have "receive_fault nw n w f" using Inr x Received by (auto simp: receive_fault_def)
      with Inr x Received wr Inl show ?thesis by (simp add: receive_message_def Let_def)
    next
      case d: (Inr y)
      obtain ty d where "y = (ty, d)" by (cases y)
      with d Inr x Received wr safe w1(1) show ?thesis by (auto simp: receive_message_def Let_def)
    qed
  qed
qed

lemma deliver_message_callbacks:
  "queue_all is data subs = Inr subs' \<Longrightarrow> map (\<lambda>s. (su_callback s, su_message_size s)) subs' = map (\<lambda>s. (su_callback s, su_message_size s)) subs"
proof (induction "is" arbitrary: subs)
  case Nil
  then show ?case by simp
next
  case (Cons i "is")
  then obtain s1 ok where "i < length subs" "queue_message data (subs ! i) = Inr (ok, s1)"
    "queue_all is data (subs[i := s1]) = Inr subs'"
    by (auto simp: at_eq_Inr_iff elim!: rbind_InrE)
  moreover from this(2) have "su_callback s1 = su_callback (subs ! i)" "su_message_size s1 = su_message_size (subs ! i)"
    by (auto simp: queue_message_def elim!: rbind_InrE)
  ultimately show ?case using Cons.IH [of "subs[i := s1]"]
    by (simp add: map_update list_update_same_conv)
qed

lemma deliver_message_safe:
  assumes n: "node_safe keep peer np ns n u" and ti: "nd_topics n t = Some ti"
  shows "\<exists>r n'. deliver_message ti n = Inr (r, n') \<and> node_safe keep peer np ns n' u"
proof -
  from deliver_message_ok [OF _ ti] n obtain r n' where n': "deliver_message ti n = Inr (r, n')" "node_ok np ns n'"
    unfolding node_safe_def by blast
  define f where "f = (\<lambda>s :: 'a subscriber. (su_callback s, su_message_size s))"
  have "map f (nd_subscribers n') = map f (nd_subscribers n)"
    using n'(1) unfolding f_def
    by (auto simp: deliver_message_def simp del: queue_all.simps split: list.splits elim!: rbind_InrE
        dest!: deliver_message_callbacks)
  then have same: "f ` set (nd_subscribers n') = f ` set (nd_subscribers n)"
    by (metis list.set_map)
  have "callback_ok keep np s" if s: "s \<in> set (nd_subscribers n')" for s
  proof -
    have "f s \<in> f ` set (nd_subscribers n)" unfolding same [symmetric] using s by blast
    then obtain s0 where s0: "s0 \<in> set (nd_subscribers n)" "su_callback s = su_callback s0" "su_message_size s = su_message_size s0"
      by (auto simp: f_def)
    with n have "callback_ok keep np s0" by (simp add: node_safe_def)
    then show ?thesis by (simp add: callback_ok_def s0(2,3))
  qed
  moreover have "nd_broker_address n' = nd_broker_address n"
    using n'(1) by (auto simp: deliver_message_def simp del: queue_all.simps split: list.splits elim!: rbind_InrE)
  ultimately show ?thesis using n' n by (simp add: node_safe_def)
qed

lemma process_incoming_safe:
  assumes nw: "network_fits peer good nw" and n: "node_safe keep peer np ns n u" and w: "good w"
  shows "within (receive_fault nw n w) (\<lambda>(r, n1, w1). node_safe keep peer np ns n1 u \<and> good w1 \<and>
      nd_publishers n1 = nd_publishers n)
    (process_incoming_message nw n w)"
proof -
  have step: "within (receive_fault nw n w) (\<lambda>(r, n1, w1). node_safe keep peer np ns n1 u \<and> good w1 \<and>
      nd_publishers n1 = nd_publishers n) (rbind (deliver_message ti n1) (\<lambda>(r, n2). Inr (r, n2, w1)))"
    if n1: "node_safe keep peer np ns n1 u" "nd_topics n1 t = Some ti" "good w1" "nd_publishers n1 = nd_publishers n" for n1 t ti w1
  proof -
    from deliver_message_safe [OF n1(1,2)] obtain r n2 where
      d: "deliver_message ti n1 = Inr (r, n2)" "node_safe keep peer np ns n2 u" by blast
    from d(1) have "nd_publishers n2 = nd_publishers n1"
      by (auto simp: deliver_message_def simp del: queue_all.simps split: list.splits elim!: rbind_InrE)
    with d n1 show ?thesis by simp
  qed
  show ?thesis
    unfolding process_incoming_message_def
    by (rule within_rbind [OF receive_message_safe [OF assms]])
       (use step in \<open>auto split: receive_outcome.split option.split\<close>)
qed

lemma spin_once_safe:
  assumes nw: "network_fits peer good nw" and n: "node_safe keep peer np ns n u" and w: "good w"
  shows "within (\<lambda>f. receive_fault nw n w f \<or> send_fault peer good nw f)
    (\<lambda>(r, n', u', w'). node_safe keep peer np ns n' u' \<and> good w' \<and> (r = SpinError \<longrightarrow> send_refused peer good nw))
    (spin_once nw (n, u, w))"
proof -
  have topics: "within (send_fault peer good nw) (\<lambda>(ok, work', n', u', w'). node_safe keep peer np ns n' u' \<and> good w' \<and>
      (ok \<or> send_refused peer good nw)) (spin_topics nw (nd_topics_by_prio n1) work n1 u w1)"
    if n1: "node_safe keep peer np ns n1 u" "good w1" for work n1 w1
  proof -
    have "\<forall>ti\<in>snd ` set (nd_topics_by_prio n1). ti_ok np ns ti"
      using n1(1) by (auto simp: node_safe_def node_ok_def node_inv_def)
    from spin_topics_safe [OF nw n1(1) this n1(2)] show ?thesis by (rule within_mono) auto
  qed
  have all: "within (\<lambda>f. receive_fault nw n w f \<or> send_fault peer good nw f) (\<lambda>(p, n1, w1). node_safe keep peer np ns n1 u \<and> good w1)
      (process_incoming_message nw n w)"
    by (rule within_mono [OF process_incoming_safe [OF assms]]) auto
  have spin: "within (\<lambda>f. receive_fault nw n w f \<or> send_fault peer good nw f) (\<lambda>(ok, work', n', u', w'). node_safe keep peer np ns n' u' \<and> good w' \<and>
      (ok \<or> send_refused peer good nw)) (spin_topics nw (nd_topics_by_prio n1) work n1 u w1)"
    if n1: "node_safe keep peer np ns n1 u" "good w1" for work n1 w1
    by (rule within_mono [OF topics [OF n1]]) auto
  show ?thesis
    unfolding spin_once_def prod.case
    by (rule within_rbind [OF all]) (auto intro!: within_rbind [OF spin])
qed

lemma spin_once_safe_step:
  assumes nw: "network_safe peer good nw" and n: "node_safe keep peer np ns n u" and w: "good w"
  shows "\<exists>r n' u' w'. spin_once nw (n, u, w) = Inr (r, n', u', w') \<and> node_safe keep peer np ns n' u' \<and> good w'"
proof -
  have len: "length (nd_buffer n) = udp_buffer_size" using n by (simp add: node_safe_def node_ok_def node_inv_def)
  have none: "\<not> receive_fault nw n w f" "\<not> send_fault peer good nw f" for f
    using nw w len unfolding network_safe_def receive_fault_def send_fault_def by blast+
  have "network_fits peer good nw" using nw by (simp add: network_safe_def)
  from spin_once_safe [OF this n w] show ?thesis by (cases "spin_once nw (n, u, w)") (auto simp: none)
qed

text \<open>
  A run that ends with a fault: the fault is one thrown by a \<^verbatim>\<open>sendto\<close>, or that of the reception of the iteration it
  ends in, whose start is a state of the run.
\<close>

lemma node_spin_safe_run:
  assumes nw: "network_fits peer good nw"
  shows "node_safe keep peer np ns n u \<Longrightarrow> good w \<Longrightarrow>
   within (\<lambda>f. send_fault peer good nw f \<or>
       (\<exists>j<k. \<exists>n1 u1 w1. node_spin j nw (n, u, w) = Inr (None, n1, u1, w1) \<and> node_safe keep peer np ns n1 u1 \<and> good w1 \<and>
          receive_fault nw n1 w1 f))
     (\<lambda>(r, n', u', w'). node_safe keep peer np ns n' u' \<and> good w' \<and> (r \<noteq> None \<longrightarrow> r = Some False \<and> send_refused peer good nw))
     (node_spin k nw (n, u, w))"
proof (induction k arbitrary: n u w)
  case 0
  then show ?case by simp
next
  case (Suc k)
  show ?case
  proof (cases "spin_once nw (n, u, w)")
    case (Inl f)
    have "receive_fault nw n w f \<or> send_fault peer good nw f"
      using spin_once_safe [OF nw Suc.prems] Inl by simp
    then have "send_fault peer good nw f \<or> (\<exists>j<Suc k. \<exists>n1 u1 w1. node_spin j nw (n, u, w) = Inr (None, n1, u1, w1) \<and>
        node_safe keep peer np ns n1 u1 \<and> good w1 \<and> receive_fault nw n1 w1 f)"
      using Suc.prems by (metis node_spin.simps(1) zero_less_Suc)
    then show ?thesis using Inl by (simp del: ex_simps)
  next
    case (Inr x)
    obtain r n1 u1 w1 where x: "x = (r, n1, u1, w1)" by (cases x)
    with spin_once_safe [OF nw Suc.prems] Inr
    have 1: "node_safe keep peer np ns n1 u1" "good w1" "r = SpinError \<longrightarrow> send_refused peer good nw" by auto
    show ?thesis
    proof (cases "r = SpinSuccess \<or> r = SpinNoWork")
      case True
      have later: "node_spin (Suc j) nw (n, u, w) = node_spin j nw (n1, u1, w1)" for j
        using Inr x True by simp
      show ?thesis
        unfolding later
        by (rule within_mono [OF Suc.IH [OF 1(1,2)]]) (blast intro: later Suc_mono dest: later [THEN trans])+
    next
      case False
      moreover have "r \<noteq> SpinInvalid" using Inr x by (auto simp: spin_once_def split: if_splits elim!: rbind_InrE)
      ultimately have "r = SpinError" by (cases r) auto
      with Inr x 1 show ?thesis by simp
    qed
  qed
qed

text \<open>Conversely a fault of a reception ends the loop.\<close>

lemma node_spin_continues: "node_spin j nw s = Inr (None, s1) \<Longrightarrow> node_spin (j + k) nw s = node_spin k nw s1"
proof (induction j arbitrary: s)
  case 0
  then show ?case by simp
next
  case (Suc j)
  then obtain r s2 where "spin_once nw s = Inr (r, s2)" by (auto elim!: rbind_InrE)
  with Suc show ?case by (auto split: if_splits)
qed

lemma receive_fault_ends:
  assumes nw: "network_fits peer good nw" and n: "node_safe keep peer np ns n u" and w: "good w" and f: "receive_fault nw n w f"
  shows "node_spin (Suc k) nw (n, u, w) = Inl f"
proof -
  have len: "length (nd_buffer n) = udp_buffer_size" using n by (simp add: node_safe_def node_ok_def node_inv_def)
  have fits: "length (recv_bytes r) \<le> udp_buffer_size" if "nw_recvfrom nw udp_buffer_size False w = Inr (r, w')" for r w'
    using nw w that unfolding network_fits_def by blast
  have "receive_message nw False n w = Inl f"
    using f
  proof (cases "nw_recvfrom nw udp_buffer_size False w")
    case (Inl g)
    with f show ?thesis by (simp add: receive_fault_def receive_message_def)
  next
    case (Inr x)
    with f obtain bytes sender w' where x: "x = (Received bytes sender, w')" "control_fault bytes (nd_buffer n) f"
      by (auto simp: receive_fault_def)
    then have "write_at 0 bytes (nd_buffer n) = Inr (bytes @ drop (length bytes) (nd_buffer n))"
      using fits [of "Received bytes sender" w'] Inr len by (simp add: write_at_def)
    with Inr x show ?thesis by (simp add: receive_message_def control_fault_def Let_def)
  qed
  then show ?thesis by (simp add: spin_once_def process_incoming_message_def)
qed

section \<open>The recording network\<close>

text \<open>Every state of it fits; without control packets the decoder rejects, it is also free of faults.\<close>

lemma mailbox_fits: "network_fits peer (\<lambda>_. True) mailbox_network"
  by (auto simp: network_fits_def mailbox_network_def split: list.splits)

definition mailbox_good :: "mailbox \<Rightarrow> bool" where
  "mailbox_good w \<longleftrightarrow> (\<forall>(packet, sender)\<in>set (mb_inbox w). \<forall>buffer f.
     length buffer = udp_buffer_size \<longrightarrow> \<not> control_fault (take udp_buffer_size packet) buffer f)"

lemma mailbox_good_data: "\<forall>(packet, sender)\<in>set (mb_inbox w). take 1 packet \<noteq> [bp_control] \<Longrightarrow> mailbox_good w"
  by (fastforce simp: mailbox_good_def control_fault_def udp_buffer_size_def)

lemma mailbox_safe: "network_safe peer mailbox_good mailbox_network"
  by (auto simp: network_safe_def network_fits_def mailbox_network_def mailbox_good_def split: list.splits)

section \<open>A small node for concrete runs\<close>

definition silent_callback :: "'u callback" where
  "silent_callback m sz ctx = Inr ctx"

lemma silent_callback_ok: "su_callback s = silent_callback \<Longrightarrow> callback_ok keep np s"
  by (simp add: callback_ok_def silent_callback_def)

text \<open>
  One publisher and one subscriber, on the topics 3 (priority 7) and 4 (priority -2), as after
  \<^verbatim>\<open>connect()\<close>.
\<close>

definition sample_node :: "unit node" where
  "sample_node =
     enter_subscriber 0 4 (- 2) (enter_publisher 0 3 7
       (create_subscriber (\<lambda>_ q. q) ''in'' ''T'' 2 silent_callback dontcare_topic_priority
         (create_publisher (\<lambda>_ q. q) ''out'' ''T'' 2 7 (node_new ''n'' ''h'' UDP 1000))))"

lemma sample_node_counts [simp]: "length (nd_publishers sample_node) = 1" "length (nd_subscribers sample_node) = 1"
  by (simp_all add: sample_node_def create_subscriber_def create_publisher_def node_new_def)

lemma sample_node_safe: "node_safe (\<lambda>_. True) (nd_broker_address sample_node) 1 1 sample_node u"
proof -
  have "node_inv sample_node"
    unfolding sample_node_def
    by (intro enter_subscriber_inv enter_publisher_inv create_subscriber_inv create_publisher_inv node_new_inv)
       (simp_all add: create_subscriber_def create_publisher_def node_new_def udp_buffer_size_def)
  moreover have "nd_subscribers sample_node = [subscriber_new ''in'' ''T'' 2 silent_callback dontcare_topic_priority]"
    by (simp add: sample_node_def create_subscriber_def create_publisher_def node_new_def)
  ultimately show ?thesis
    by (simp add: node_safe_def node_ok_def subscriber_new_def silent_callback_ok)
qed

section \<open>Properties\<close>

text \<open>
  C16: the node's loop is memory-safe, and its only faults are those of the network. Take a node whose invariant
  holds, with callbacks that, called with a message of their subscriber's size, return and leave the publishers
  well-formed, and any network that never receives more bytes than it was asked for; its operations may fail or
  throw, and any packets may arrive, control packets included. When any number of iterations of \<^verbatim>\<open>spin()\<close> ends
  normally, the invariant holds and so does what the callbacks keep of the user data (\<open>keep\<close>); the loop is then
  still running, or it returned \<open>false\<close> because a packet could not be sent. When it ends with a fault, a \<^verbatim>\<open>sendto\<close>
  threw it, or it is the fault of a reception: \<^verbatim>\<open>recvfrom\<close> threw it, or the decoder did on the control packet just
  received. No queue, table or buffer access of the loop itself is out of bounds. And a reception with such a fault
  does end the loop: nobody catches the exception.
\<close>

theorem node_spin_safe:
  assumes "network_fits peer good nw" and "node_safe keep peer np ns n u" and "good w"
  shows "(case node_spin k nw (n, u, w) of
      Inr (r, n', u', w') \<Rightarrow> node_safe keep peer np ns n' u' \<and>
        (r = None \<or> r = Some False \<and> send_refused peer good nw)
    | Inl f \<Rightarrow> send_fault peer good nw f \<or>
        (\<exists>j<k. \<exists>n1 u1 w1. node_spin j nw (n, u, w) = Inr (None, n1, u1, w1) \<and>
           node_safe keep peer np ns n1 u1 \<and> good w1 \<and> receive_fault nw n1 w1 f)) \<and>
    (\<forall>j n1 u1 w1 f. node_spin j nw (n, u, w) = Inr (None, n1, u1, w1) \<and> receive_fault nw n1 w1 f \<longrightarrow>
       node_spin (Suc j) nw (n, u, w) = Inl f)"
proof -
  note run = node_spin_safe_run [OF assms]
  have "node_spin (Suc j) nw (n, u, w) = Inl f"
    if "node_spin j nw (n, u, w) = Inr (None, n1, u1, w1)" "receive_fault nw n1 w1 f" for j n1 u1 w1 f
  proof -
    from run [of j] that(1) have "node_safe keep peer np ns n1 u1" "good w1" by simp_all
    from receive_fault_ends [OF assms(1) this that(2), of 0] node_spin_continues [OF that(1), of 1]
    show ?thesis by simp
  qed
  with run [of k] show ?thesis
    by (cases "node_spin k nw (n, u, w)") auto
qed

text \<open>A control packet that announces no text: parsing nothing throws. A data packet comes after it.\<close>

lemma empty_packet_fault:
  "control_fault (bp_control # htonl_bytes c @ htonl_bytes 0) buffer (JsonParseError 101)"
proof -
  have "json_parse [] = Inl (JsonParseError 101)"
    by (simp add: json_parse_def scan_first_def scan_def parse_value.simps)
  then have "decode_packet_buffer (bp_control # htonl_bytes c @ htonl_bytes 0 @ rest) 9 = Inl (JsonParseError 101)" for rest
    unfolding decode_header_prefix decode_control_prefix
    by (simp add: bp_sizes Let_def read_at_def slice_def)
  then show ?thesis by (simp add: control_fault_def)
qed
definition sample_traffic :: mailbox where
  "sample_traffic = \<lparr>mb_inbox =
     [(bp_control # htonl_bytes 1 @ htonl_bytes 0, ''h:1''),
      (bp_data # htonl_bytes 2 @ htonl_bytes 4 @ htonl_bytes 0 @ htonl_bytes 2 @ [8, 9], ''h:1'')], mb_sent = []\<rparr>"

lemma sample_traffic_fault: "receive_fault mailbox_network sample_node sample_traffic (JsonParseError 101)"
  using empty_packet_fault [of 1 "nd_buffer sample_node"]
  by (simp add: receive_fault_def sample_traffic_def mailbox_network_def udp_buffer_size_def)
text \<open>The control packet, which announces no text, ends the sample node in its first iteration.\<close>

theorem node_spin_safe_witness:
  "node_spin (Suc 0) mailbox_network (sample_node, (), sample_traffic) = Inl (JsonParseError 101)"
proof -
  have "node_spin 0 mailbox_network (sample_node, (), sample_traffic) = Inr (None, sample_node, (), sample_traffic)" by simp
  with conjunct2 [OF node_spin_safe [OF mailbox_fits sample_node_safe, where u = "()" and w = sample_traffic]]
    sample_traffic_fault show ?thesis by blast
qed

text \<open>
  C23: connecting keeps the node well-formed. Whatever the network and the broker do, \<^verbatim>\<open>connect()\<close>, when
  it returns, with success or not, leaves a node whose queues are intact, whose tables refer to
  existing publishers and subscribers only, and whose priorities are sorted from high to low.
\<close>

theorem node_connect_invariant:
  assumes "node_inv n" and "node_connect nw n w = Inr (ok, n', w')"
  shows "node_inv n' \<and> length (nd_publishers n') = length (nd_publishers n) \<and>
    length (nd_subscribers n') = length (nd_subscribers n)"
  using node_connect_keeps [of "length (nd_publishers n)" "length (nd_subscribers n)" n nw w] assms
  by (auto simp: node_ok_def keeps_def)

theorem node_connect_invariant_witness:
  "node_inv ((node_new ''n'' ''h'' UDP 1000 :: unit node)\<lparr>nd_bp_counter := 1\<rparr>) \<and>
   length (nd_publishers ((node_new ''n'' ''h'' UDP 1000 :: unit node)\<lparr>nd_bp_counter := 1\<rparr>)) =
     length (nd_publishers (node_new ''n'' ''h'' UDP 1000 :: unit node)) \<and>
   length (nd_subscribers ((node_new ''n'' ''h'' UDP 1000 :: unit node)\<lparr>nd_bp_counter := 1\<rparr>)) =
     length (nd_subscribers (node_new ''n'' ''h'' UDP 1000 :: unit node))"
proof -
  let ?n = "node_new ''n'' ''h'' UDP 1000 :: unit node"
  let ?nw = "mailbox_network\<lparr>nw_sendto := \<lambda>a p w. Inr (False, w)\<rparr>"
  let ?j = "JObject [(''node'', JObject [(''action'', JString ''register''),
    (''params'', JObject [(''name'', JString ''n'')])]), (''rpc_id'', JUInt 0), (''scope'', JString ''node'')]"
  have j: "build_request ''node'' ''register'' (node_rpc_id ?n) [(''name'', JString ''n'')] = Inr ?j"
    by (simp add: build_request_def request_literal_def node_rpc_id_def node_new_def json_of_unsigned_def)
  obtain s where s: "json_dump ?j = Inr s" using json_roundtrip_law [of ?j] by (auto simp: obj_sorted_def)
  have "bp_control_json_to_packet_buffer ?j c =
      Inr (bp_control # htonl_bytes c @ htonl_bytes (of_nat (length s)) @ map byte_of_char s)" for c
    by (simp only: bp_control_json_to_packet_buffer_def s rbind_Inr)
  then have "send_control ?nw ?j ?n w = Inr (False, ?n\<lparr>nd_bp_counter := 1\<rparr>, w)" for w
    by (simp add: send_control_def next_bp_counter_def node_new_def Let_def)
  then have "node_connect ?nw ?n \<lparr>mb_inbox = [], mb_sent = []\<rparr> =
      Inr (False, ?n\<lparr>nd_bp_counter := 1\<rparr>, \<lparr>mb_inbox = [], mb_sent = []\<rparr>)"
    using j by (simp add: node_connect_def mailbox_network_def node_register_node_def broker_rpc_blocking_def
        rpc_success_def json_empty_def node_new_def)
  then show ?thesis by (rule node_connect_invariant [OF node_new_inv])
qed

end
