(* ===== verification/Node_Delivery.thy ===== *)
theory Node_Delivery
  imports Node_Correct
begin

text \<open>
  What a node does with messages: the packets it sends for a list of publishers, the messages a received packet
  leaves in the queues of the subscribers, the end of \<^verbatim>\<open>spin_while_work()\<close>, and an oddity of the loop. Sending and receiving are observed on the recording network.
\<close>

section \<open>Packets sent for a topic\<close>

text \<open>
  The packets of the publishers \<open>is\<close>, with counters from \<open>c + 1\<close> on: the oldest message of each
  publisher that has one.
\<close>

fun waiting_packets :: "nat list \<Rightarrow> publisher list \<Rightarrow> u32 \<Rightarrow> byte list list" where
  "waiting_packets [] ps c = []"
| "waiting_packets (i # is) ps c =
     (case pu_waiting (ps ! i) of
        [] \<Rightarrow> waiting_packets is ps c
      | m # _ \<Rightarrow> data_packet (c + 1) (ps ! i) m # waiting_packets is ps (c + 1))"

lemma waiting_packets_cong:
  "\<forall>i\<in>set is. ps ! i = ps' ! i \<Longrightarrow> waiting_packets is ps c = waiting_packets is ps' c"
  by (induction "is" arbitrary: c) (auto split: list.split)

lemma waiting_packets_append:
  "waiting_packets (is @ js) ps c =
     waiting_packets is ps c @ waiting_packets js ps (c + of_nat (length (waiting_packets is ps c)))"
  by (induction "is" arbitrary: c) (auto split: list.split simp: algebra_simps)

lemma sendto_mailbox [simp]:
  "nw_sendto mailbox_network a packet w = Inr (True, w\<lparr>mb_sent := mb_sent w @ [(a, packet)]\<rparr>)"
  by (simp add: mailbox_network_def)

lemma send_messages_order:
  "\<lbrakk>node_inv n; \<forall>i\<in>set is. i < length (nd_publishers n); distinct is\<rbrakk> \<Longrightarrow>
   \<exists>n'. send_messages mailbox_network is work n w =
      Inr (True, work \<or> waiting_packets is (nd_publishers n) (nd_bp_counter n) \<noteq> [], n',
           w\<lparr>mb_sent := mb_sent w @ map (Pair (nd_broker_address n))
                                        (waiting_packets is (nd_publishers n) (nd_bp_counter n))\<rparr>) \<and>
     node_inv n' \<and> nd_broker_address n' = nd_broker_address n \<and> nd_subscribers n' = nd_subscribers n \<and>
     length (nd_publishers n') = length (nd_publishers n) \<and>
     nd_bp_counter n' = nd_bp_counter n + of_nat (length (waiting_packets is (nd_publishers n) (nd_bp_counter n))) \<and>
     (\<forall>i<length (nd_publishers n).
        if i \<in> set is then pu_waiting (nd_publishers n' ! i) = tl (pu_waiting (nd_publishers n ! i))
        else nd_publishers n' ! i = nd_publishers n ! i)"
proof (induction "is" arbitrary: work n w)
  case Nil
  then show ?case by simp
next
  case (Cons i "is")
  note IH = Cons.IH and prems = Cons.prems
  let ?p = "nd_publishers n ! i"
  have i: "i < length (nd_publishers n)" "node_publisher_ok ?p" using prems by (simp_all add: node_inv_publisher)
  show ?case
  proof (cases "pu_waiting ?p")
    case Nil
    from IH [of n work w] prems obtain n' where n':
      "send_messages mailbox_network is work n w =
        Inr (True, work \<or> waiting_packets is (nd_publishers n) (nd_bp_counter n) \<noteq> [], n',
             w\<lparr>mb_sent := mb_sent w @ map (Pair (nd_broker_address n))
                                          (waiting_packets is (nd_publishers n) (nd_bp_counter n))\<rparr>)"
      and rest: "node_inv n'" "nd_broker_address n' = nd_broker_address n" "nd_subscribers n' = nd_subscribers n"
        "length (nd_publishers n') = length (nd_publishers n)"
        "nd_bp_counter n' = nd_bp_counter n + of_nat (length (waiting_packets is (nd_publishers n) (nd_bp_counter n)))"
        "\<forall>i<length (nd_publishers n).
          if i \<in> set is then pu_waiting (nd_publishers n' ! i) = tl (pu_waiting (nd_publishers n ! i))
          else nd_publishers n' ! i = nd_publishers n ! i"
      by auto
    show ?thesis
      by (rule exI [of _ n']) (use n' rest i Nil prems(3) in \<open>auto simp: messages_queued_waiting\<close>)
  next
    case (Cons m ms)
    from send_messages_waiting [OF i(2,1) Cons, of mailbox_network "is" work w] obtain q where
      eq: "send_messages mailbox_network (i # is) work n w =
        send_messages mailbox_network is True (sent_with i q n)
          (w\<lparr>mb_sent := mb_sent w @ [(nd_broker_address n, data_packet (nd_bp_counter n + 1) ?p m)]\<rparr>)"
      and q: "node_publisher_ok (?p\<lparr>pu_message_queue := q\<rparr>)" "pu_waiting (?p\<lparr>pu_message_queue := q\<rparr>) = ms"
      by auto
    let ?n = "sent_with i q n"
    have n: "node_inv ?n" using node_inv_set_publisher [of "n\<lparr>nd_bp_counter := nd_bp_counter n + 1\<rparr>" _ i] prems(1) q(1)
      by (simp add: sent_with_def)
    have flds: "length (nd_publishers ?n) = length (nd_publishers n)" "nd_broker_address ?n = nd_broker_address n"
      "nd_subscribers ?n = nd_subscribers n" "nd_bp_counter ?n = nd_bp_counter n + 1"
      "nd_publishers ?n ! i = ?p\<lparr>pu_message_queue := q\<rparr>" "\<And>j. j \<noteq> i \<Longrightarrow> nd_publishers ?n ! j = nd_publishers n ! j"
      using i by (simp_all add: sent_with_def)
    have same: "waiting_packets is (nd_publishers ?n) c = waiting_packets is (nd_publishers n) c" for c
      using prems(3) by (intro waiting_packets_cong ballI flds(6)) auto
    from IH [of ?n True "w\<lparr>mb_sent := mb_sent w @ [(nd_broker_address n, data_packet (nd_bp_counter n + 1) ?p m)]\<rparr>"]
      n prems flds same obtain n' where n':
      "send_messages mailbox_network (i # is) work n w =
        Inr (True, True, n', w\<lparr>mb_sent := mb_sent w @ map (Pair (nd_broker_address n))
          (waiting_packets (i # is) (nd_publishers n) (nd_bp_counter n))\<rparr>)"
      and rest: "node_inv n'" "nd_broker_address n' = nd_broker_address n" "nd_subscribers n' = nd_subscribers n"
        "length (nd_publishers n') = length (nd_publishers n)"
        "nd_bp_counter n' = nd_bp_counter n + 1 + of_nat (length (waiting_packets is (nd_publishers n) (nd_bp_counter n + 1)))"
        "\<forall>j<length (nd_publishers n).
          if j \<in> set is then pu_waiting (nd_publishers n' ! j) = tl (pu_waiting (nd_publishers ?n ! j))
          else nd_publishers n' ! j = nd_publishers ?n ! j"
      unfolding eq by (auto simp: Cons)
    have "if j \<in> set (i # is) then pu_waiting (nd_publishers n' ! j) = tl (pu_waiting (nd_publishers n ! j))
          else nd_publishers n' ! j = nd_publishers n ! j" if "j < length (nd_publishers n)" for j
      using rest(6) that prems(3) flds(5,6) q(2) Cons by (cases "j = i") auto
    then show ?thesis
      using n' rest(1-5) by (intro exI [of _ n']) (simp add: Cons algebra_simps)
  qed
qed

section \<open>Delivery\<close>

text \<open>What a queue holds after a message arrived: the message at the end, if there was room.\<close>

definition received_by :: "'u subscriber \<Rightarrow> byte list \<Rightarrow> byte list list" where
  "received_by s data = su_waiting s @
     (if length (su_waiting s) < message_queue_capacity then [take (unat (su_message_size s)) data] else [])"

lemma queue_message_effect:
  assumes ok: "node_subscriber_ok s" and data: "udp_buffer_size \<le> length data + 17"
  shows "\<exists>b s1. queue_message data s = Inr (b, s1) \<and> node_subscriber_ok s1 \<and> su_waiting s1 = received_by s data"
proof -
  have inv: "subscriber_inv s" and len: "unat (su_message_size s) \<le> length data"
    using assms by (simp_all add: node_subscriber_ok_def)
  show ?thesis
  proof (cases "length (su_waiting s) < message_queue_capacity")
    case True
    from queue_message_room [OF inv True len] ok True show ?thesis
      by (auto simp: node_subscriber_ok_def received_by_def)
  next
    case False
    with su_waiting_bounded [OF inv] queue_message_full [OF inv] ok show ?thesis by (auto simp: received_by_def)
  qed
qed

lemma queue_all_effect:
  assumes "\<forall>s\<in>set subs. node_subscriber_ok s" and "\<forall>i\<in>set is. i < length subs" and "distinct is"
    and "udp_buffer_size \<le> length data + 17"
  shows "\<exists>subs'. queue_all is data subs = Inr subs' \<and> length subs' = length subs \<and>
    (\<forall>s\<in>set subs'. node_subscriber_ok s) \<and>
    (\<forall>j<length subs. if j \<in> set is then su_waiting (subs' ! j) = received_by (subs ! j) data
                     else subs' ! j = subs ! j)"
  using assms
proof (induction "is" arbitrary: subs)
  case Nil
  then show ?case by simp
next
  case (Cons i "is")
  note IH = Cons.IH and prems = Cons.prems
  from prems have i: "i < length subs" "node_subscriber_ok (subs ! i)" by simp_all
  from queue_message_effect [OF i(2) prems(4)] obtain b s1 where
    s1: "queue_message data (subs ! i) = Inr (b, s1)" "node_subscriber_ok s1" "su_waiting s1 = received_by (subs ! i) data"
    by blast
  have "\<forall>s\<in>set (subs[i := s1]). node_subscriber_ok s"
    using prems(1) s1(2) set_update_subset_insert [of subs i s1] by auto
  from IH [OF this] prems obtain subs' where
    "queue_all is data (subs[i := s1]) = Inr subs'" "length subs' = length subs" "\<forall>s\<in>set subs'. node_subscriber_ok s"
    "\<forall>j<length subs. if j \<in> set is then su_waiting (subs' ! j) = received_by (subs[i := s1] ! j) data
                     else subs' ! j = subs[i := s1] ! j" by auto
  moreover from this(4) prems(3) i(1) s1(3)
  have "\<forall>j<length subs. if j \<in> set (i # is) then su_waiting (subs' ! j) = received_by (subs ! j) data
                     else subs' ! j = subs ! j"
    by (auto simp: nth_list_update split: if_splits)
  ultimately show ?case using i(1) s1(1) by auto
qed

lemma receive_data_packet:
  fixes sz :: u32
  assumes inv: "node_inv n"
    and packet: "packet = bp_data # htonl_bytes c @ htonl_bytes t @ htonl_bytes mt @ htonl_bytes sz @ payload"
    and sz: "unat sz = length payload" "length packet \<le> udp_buffer_size"
    and inbox: "mb_inbox w = (packet, sender) # rest"
  shows "\<exists>d. receive_message mailbox_network block n w =
      Inr (ReceivedPacket (length packet) bp_data d,
           n\<lparr>nd_buffer := packet @ drop (length packet) (nd_buffer n)\<rparr>, w\<lparr>mb_inbox := rest\<rparr>) \<and>
    bpd_topic_id (dec_data_header d) = t"
proof -
  have small: "length packet < 2 ^ 32" using sz(2) by (simp add: udp_buffer_size_def)
  have w: "write_at 0 packet (nd_buffer n) = Inr (packet @ drop (length packet) (nd_buffer n))"
    using inv sz(2) by (simp add: write_at_def node_inv_def)
  have "unat (9 + sz) = 9 + length payload" using sz packet small by (simp add: unat_word_ariths)
  then have "decode_packet_buffer (packet @ drop (length packet) (nd_buffer n)) (length packet) =
      Inr (bp_data, decoded_zero\<lparr>dec_header := \<lparr>bph_type = bp_data, bph_counter = c\<rparr>,
        dec_data_header := \<lparr>bpd_topic_id = t, bpd_message_type_id = mt, bpd_size = sz\<rparr>\<rparr>)"
    unfolding packet append_Cons append_assoc decode_data_prefix by simp
  then show ?thesis
    using inbox w sz(2) by (simp add: receive_message_def mailbox_network_def Let_def bp_type_defs)
qed

lemma process_data_packet:
  fixes sz :: u32
  assumes inv: "node_inv n" and ti: "nd_topics n t = Some ti" "ti_subscribers ti \<noteq> []" "distinct (ti_subscribers ti)"
    and packet: "packet = bp_data # htonl_bytes c @ htonl_bytes t @ htonl_bytes mt @ htonl_bytes sz @ payload"
    and sz: "unat sz = length payload" "length packet \<le> udp_buffer_size"
    and inbox: "mb_inbox w = (packet, sender) # rest"
  shows "\<exists>n'. process_incoming_message mailbox_network n w = Inr (1, n', w\<lparr>mb_inbox := rest\<rparr>) \<and> node_inv n' \<and>
    nd_publishers n' = nd_publishers n \<and> nd_topics_by_prio n' = nd_topics_by_prio n \<and>
    (\<forall>j<length (nd_subscribers n).
      if j \<in> set (ti_subscribers ti)
      then su_waiting (nd_subscribers n' ! j) =
        received_by (nd_subscribers n ! j) (payload @ drop (length packet) (nd_buffer n))
      else nd_subscribers n' ! j = nd_subscribers n ! j)"
proof -
  let ?buf = "packet @ drop (length packet) (nd_buffer n)"
  let ?n = "n\<lparr>nd_buffer := ?buf\<rparr>"
  have len: "length ?buf = udp_buffer_size" using inv sz(2) by (simp add: node_inv_def)
  have n: "node_inv ?n" using node_inv_buffer [OF inv, of ?buf] inv len by (simp add: node_inv_def)
  have data: "drop (bp_header_size + bp_data_header_size) ?buf = payload @ drop (length packet) (nd_buffer n)"
    by (simp add: packet bp_sizes numeral_eq_Suc)
  have idx: "\<forall>i\<in>set (ti_subscribers ti). i < length (nd_subscribers n)"
    using inv ti(1) by (auto simp: node_inv_def ti_ok_def ran_def)
  let ?d = "payload @ drop (length packet) (nd_buffer n)"
  have dl: "udp_buffer_size \<le> length ?d + 17"
    using len by (simp add: packet udp_buffer_size_def)
  have subs_ok: "\<forall>s\<in>set (nd_subscribers n). node_subscriber_ok s" using inv by (simp add: node_inv_def)
  from queue_all_effect [OF subs_ok idx ti(3) dl]
  obtain subs where subs: "queue_all (ti_subscribers ti) (payload @ drop (length packet) (nd_buffer n)) (nd_subscribers n) = Inr subs"
    "length subs = length (nd_subscribers n)" "\<forall>s\<in>set subs. node_subscriber_ok s"
    "\<forall>j<length (nd_subscribers n). if j \<in> set (ti_subscribers ti)
      then su_waiting (subs ! j) = received_by (nd_subscribers n ! j) (payload @ drop (length packet) (nd_buffer n))
      else subs ! j = nd_subscribers n ! j"
    by blast
  from ti(2) obtain i "is" where tis: "ti_subscribers ti = i # is" by (cases "ti_subscribers ti") auto
  then have first: "at (nd_subscribers n) i = Inr (nd_subscribers n ! i)" using idx by simp
  have deliver: "deliver_message ti ?n = Inr (1, ?n\<lparr>nd_subscribers := subs\<rparr>)"
    using first subs(1) data unfolding deliver_message_def tis by (simp del: drop_append queue_all.simps)
  from receive_data_packet [OF inv packet sz inbox, of False] obtain d where d:
    "receive_message mailbox_network False n w = Inr (ReceivedPacket (length packet) bp_data d, ?n, w\<lparr>mb_inbox := rest\<rparr>)"
    "bpd_topic_id (dec_data_header d) = t" by blast
  have "process_incoming_message mailbox_network n w = Inr (1, ?n\<lparr>nd_subscribers := subs\<rparr>, w\<lparr>mb_inbox := rest\<rparr>)"
    using d deliver ti(1) by (simp add: process_incoming_message_def packet)
  then show ?thesis
    using node_inv_subscribers [OF n, of subs] subs(2-4) by auto
qed

section \<open>\<^verbatim>\<open>spin_while_work()\<close> ends\<close>

text \<open>
  What bounds the traffic: a number of packets that can still arrive. Every reception of a packet lowers it, and neither
  a failed reception nor a transmission raises it.
\<close>

definition arrivals_bounded :: "string \<Rightarrow> ('w \<Rightarrow> bool) \<Rightarrow> ('w \<Rightarrow> nat) \<Rightarrow> 'w network \<Rightarrow> bool" where
  "arrivals_bounded peer good left nw \<longleftrightarrow>
     (\<forall>p w ok w'. good w \<longrightarrow> nw_sendto nw peer p w = Inr (ok, w') \<longrightarrow> left w' \<le> left w) \<and>
     (\<forall>k block w r w'. good w \<longrightarrow> nw_recvfrom nw k block w = Inr (r, w') \<longrightarrow>
        (case r of Received bytes sender \<Rightarrow> left w' < left w | RecvFailed e bytes \<Rightarrow> left w' \<le> left w))"

lemma arrivals_bounded_le:
  assumes "arrivals_bounded peer good left nw" and "nw_recvfrom nw k block w = Inr (r, w')" and "good w"
  shows "left w' \<le> left w"
proof -
  have "case r of Received bytes sender \<Rightarrow> left w' < left w | RecvFailed e bytes \<Rightarrow> left w' \<le> left w"
    using assms unfolding arrivals_bounded_def by blast
  then show ?thesis by (cases r) simp_all
qed

lemma bounded_fits:
  assumes nw: "network_fits peer good nw" and left: "arrivals_bounded peer good left nw"
  shows "network_fits peer (\<lambda>w. good w \<and> left w \<le> k) nw"
proof -
  have "good w' \<and> left w' \<le> k" if "good w \<and> left w \<le> k" "nw_sendto nw peer p w = Inr (ok, w')" for p w ok w'
    using that nw left unfolding network_fits_def arrivals_bounded_def by (meson le_trans)
  moreover have "(good w' \<and> left w' \<le> k) \<and> length (recv_bytes r) \<le> m"
    if "good w \<and> left w \<le> k" "nw_recvfrom nw m block w = Inr (r, w')" for m block w r w'
    using that nw arrivals_bounded_le [OF left that(2)] unfolding network_fits_def by (meson le_trans)
  ultimately show ?thesis unfolding network_fits_def by blast
qed

text \<open>An iteration receives a packet, or leaves the subscribers as they are and counts as no work so far.\<close>

lemma process_incoming_left:
  assumes left: "arrivals_bounded peer good left nw" and w: "good w"
    and p: "process_incoming_message nw n w = Inr (r, n1, w1)"
  shows "left w1 < left w \<or> left w1 \<le> left w \<and> nd_subscribers n1 = nd_subscribers n \<and> r \<le> 0"
proof (cases "nw_recvfrom nw udp_buffer_size False w")
  case (Inl f)
  with p show ?thesis by (simp add: process_incoming_message_def receive_message_def)
next
  case (Inr x)
  obtain got w2 where x: "x = (got, w2)" by (cases x)
  have w1: "w1 = w2"
    using p Inr x by (auto simp: process_incoming_message_def receive_message_def Let_def
        split: recv_result.splits receive_outcome.splits if_splits option.splits elim!: rbind_InrE)
  show ?thesis
  proof (cases got)
    case (Received bytes sender)
    with left Inr x w w1 have "left w1 < left w" unfolding arrivals_bounded_def by fastforce
    then show ?thesis ..
  next
    case (RecvFailed e bytes)
    moreover have "left w1 \<le> left w" using arrivals_bounded_le [OF left _ w, of udp_buffer_size False got w2] Inr x w1 by simp
    ultimately show ?thesis
      using p Inr x by (auto simp: process_incoming_message_def receive_message_def Let_def
          split: if_splits elim!: rbind_InrE)
  qed
qed

text \<open>
  A weight that every iteration with work reduces: packets that can still arrive weigh most, then messages waiting for
  their callback, then messages waiting to be sent.
\<close>

definition spin_weight :: "nat \<Rightarrow> nat \<Rightarrow> ('w \<Rightarrow> nat) \<Rightarrow> 'u node \<Rightarrow> 'w \<Rightarrow> nat" where
  "spin_weight np ns left n w =
     left w * Suc (Suc (np * message_queue_capacity) * (ns * message_queue_capacity)) + pass_weight np n"

lemma spin_once_weight:
  assumes nw: "network_fits peer good nw" and left: "arrivals_bounded peer good left nw"
    and n: "node_safe keep peer np ns n u" and w: "good w"
    and s: "spin_once nw (n, u, w) = Inr (SpinSuccess, n', u', w')"
  shows "spin_weight np ns left n' w' < spin_weight np ns left n w"
proof -
  let ?k = "Suc (np * message_queue_capacity)" and ?l = "ns * message_queue_capacity"
  from s obtain p n1 w1 work where
    1: "process_incoming_message nw n w = Inr (p, n1, w1)"
    and 2: "spin_topics nw (nd_topics_by_prio n1) (0 < p) n1 u w1 = Inr (True, True, n', u', w')"
    by (auto simp: spin_once_def split: if_splits elim!: rbind_InrE)
  have n1: "node_safe keep peer np ns n1 u" "good w1" "nd_publishers n1 = nd_publishers n"
    using process_incoming_safe [OF nw n w] 1 by simp_all
  note less = process_incoming_left [OF left w 1]
  have ti: "\<forall>ti\<in>snd ` set (nd_topics_by_prio n1). ti_ok np ns ti"
    using n1(1) by (auto simp: node_safe_def node_ok_def node_inv_def)
  have t: "left w' \<le> left w1" "pass_weight np n' + (if 0 < p then 0 else 1) \<le> pass_weight np n1"
    using spin_topics_safe [OF bounded_fits [OF nw left, of "left w1"] n1(1) ti, of w1 "0 < p"] n1(2) 2 by auto
  have pubs: "pubs_weight n1 = pubs_weight n" using n1(3) by (simp add: pubs_weight_def)
  define M where "M = Suc (?k * ?l)"
  have bound: "pass_weight np n1 < pubs_weight n + M"
    using mult_le_mono2 [OF subs_weight_bound [OF n1(1)], of ?k] unfolding pass_weight_def pubs M_def by linarith
  have base: "pubs_weight n \<le> pass_weight np n" by (simp add: pass_weight_def)
  have "left w' * M + pass_weight np n' < left w * M + pass_weight np n"
  proof (cases "left w1 < left w")
    case True
    then have "left w' * M + M \<le> left w * M" using t(1) mult_le_mono1 [of "Suc (left w')" "left w" M] by simp
    with bound base t(2) show ?thesis by linarith
  next
    case False
    with less have "nd_subscribers n1 = nd_subscribers n" "p \<le> 0" "left w1 \<le> left w" by auto
    then have same: "pass_weight np n1 = pass_weight np n" and le: "left w' * M \<le> left w * M"
      using pubs t(1) by (simp_all add: pass_weight_def subs_weight_def)
    have "pass_weight np n' < pass_weight np n" using t(2) \<open>p \<le> 0\<close> same by simp
    with le show ?thesis by linarith
  qed
  then show ?thesis by (simp only: spin_weight_def M_def)
qed

lemma spin_while_work_ends:
  assumes nw: "network_fits peer good nw" and left: "arrivals_bounded peer good left nw"
  shows "node_safe keep peer np ns n u \<Longrightarrow> good w \<Longrightarrow>
    \<exists>m. spin_while_work nw (n, u, w) = Some m \<and>
      within (\<lambda>f. send_fault peer good nw f \<or>
          (\<exists>j n1 u1 w1. node_spin j nw (n, u, w) = Inr (None, n1, u1, w1) \<and> node_safe keep peer np ns n1 u1 \<and> good w1 \<and>
             receive_fault nw n1 w1 f))
        (\<lambda>(ok, n', u', w'). node_safe keep peer np ns n' u' \<and> good w' \<and> (ok \<or> send_refused peer good nw)) m"
proof (induction "spin_weight np ns left n w" arbitrary: n u w rule: less_induct)
  case less
  note n = less.prems(1) and w = less.prems(2)
  show ?case
  proof (cases "spin_once nw (n, u, w)")
    case (Inl f)
    have "receive_fault nw n w f \<or> send_fault peer good nw f" using spin_once_safe [OF nw n w] Inl by simp
    then have "send_fault peer good nw f \<or> (\<exists>j n1 u1 w1. node_spin j nw (n, u, w) = Inr (None, n1, u1, w1) \<and>
        node_safe keep peer np ns n1 u1 \<and> good w1 \<and> receive_fault nw n1 w1 f)"
      using n w by (metis node_spin.simps(1))
    with Inl show ?thesis by (subst spin_while_work.simps) (simp del: ex_simps)
  next
    case (Inr x)
    obtain r n1 u1 w1 where x: "x = (r, n1, u1, w1)" by (cases x)
    with spin_once_safe [OF nw n w] Inr
    have 1: "node_safe keep peer np ns n1 u1" "good w1" "r = SpinError \<longrightarrow> send_refused peer good nw" by auto
    show ?thesis
    proof (cases "r = SpinSuccess")
      case True
      with Inr x have run: "spin_while_work nw (n, u, w) = spin_while_work nw (n1, u1, w1)"
        by (subst spin_while_work.simps) simp
      have later: "node_spin (Suc j) nw (n, u, w) = node_spin j nw (n1, u1, w1)" for j
        using Inr x True by simp
      from less.hyps [OF spin_once_weight [OF nw left n w] 1(1,2)] Inr x True obtain m where
        m: "spin_while_work nw (n1, u1, w1) = Some m"
          "within (\<lambda>f. send_fault peer good nw f \<or>
            (\<exists>j n2 u2 w2. node_spin j nw (n1, u1, w1) = Inr (None, n2, u2, w2) \<and> node_safe keep peer np ns n2 u2 \<and> good w2 \<and>
               receive_fault nw n2 w2 f))
          (\<lambda>(ok, n', u', w'). node_safe keep peer np ns n' u' \<and> good w' \<and> (ok \<or> send_refused peer good nw)) m" by auto
      have "within (\<lambda>f. send_fault peer good nw f \<or>
            (\<exists>j n2 u2 w2. node_spin j nw (n, u, w) = Inr (None, n2, u2, w2) \<and> node_safe keep peer np ns n2 u2 \<and> good w2 \<and>
               receive_fault nw n2 w2 f))
          (\<lambda>(ok, n', u', w'). node_safe keep peer np ns n' u' \<and> good w' \<and> (ok \<or> send_refused peer good nw)) m"
        by (rule within_mono [OF m(2)]) (metis later)+
      with run m(1) show ?thesis by simp
    next
      case False
      have "r \<noteq> SpinInvalid" using Inr x by (auto simp: spin_once_def split: if_splits elim!: rbind_InrE)
      with False Inr x 1 show ?thesis by (subst spin_while_work.simps) (cases r; simp)
    qed
  qed
qed

section \<open>A pass with callbacks only\<close>

definition publishes_nothing :: "'u callback \<Rightarrow> bool" where
  "publishes_nothing cb \<longleftrightarrow> (\<forall>m sz ps u. \<exists>u'. cb m sz (ps, u) = Inr (ps, u'))"

lemma receive_nothing:
  "node_inv n \<Longrightarrow> mb_inbox w = [] \<Longrightarrow> process_incoming_message mailbox_network n w = Inr (0, n, w)"
  by (simp add: process_incoming_message_def receive_message_def mailbox_network_def write_at_def Let_def)

lemma single_callback_pass:
  assumes inv: "node_inv n" and w: "mb_inbox w = []"
    and table: "nd_topics_by_prio n = [(p, \<lparr>ti_publishers = [], ti_subscribers = [i]\<rparr>)]"
    and ne: "su_waiting (nd_subscribers n ! i) = m # ms" and cb: "publishes_nothing (su_callback (nd_subscribers n ! i))"
  shows "\<exists>n' u'. spin_once mailbox_network (n, u, w) = Inr (SpinNoWork, n', u', w) \<and>
    su_waiting (nd_subscribers n' ! i) = ms"
proof -
  let ?s = "nd_subscribers n ! i"
  have i: "i < length (nd_subscribers n)" using inv table by (simp add: node_inv_def ti_ok_def)
  from cb obtain u' where u': "su_callback ?s m (su_message_size ?s) (nd_publishers n, u) = Inr (nd_publishers n, u')"
    unfolding publishes_nothing_def by blast
  have "subscriber_inv ?s" using node_inv_subscriber [OF inv i] by (simp add: node_subscriber_ok_def)
  from run_callback_some [OF this ne, of "(nd_publishers n, u)"] u' obtain q where
    q: "run_callback ?s (nd_publishers n, u) = Inr (True, ?s\<lparr>su_message_queue := q\<rparr>, (nd_publishers n, u'))"
      "su_waiting (?s\<lparr>su_message_queue := q\<rparr>) = ms" by auto
  show ?thesis
    using i q ne table receive_nothing [OF inv w]
    by (simp add: spin_once_def messages_queued_waiting Let_def)
qed

lemma rpc_data_packet_first:
  fixes sz :: u32
  assumes inv: "node_inv n"
    and packet: "packet = bp_data # htonl_bytes c @ htonl_bytes t @ htonl_bytes mt @ htonl_bytes sz @ payload"
    and sz: "unat sz = length payload" "length packet \<le> udp_buffer_size"
    and inbox: "mb_inbox w = (packet, sender) # rest"
    and request: "bp_control_json_to_packet_buffer request (nd_bp_counter n + 1) = Inr request_packet"
  shows "\<exists>n' w'. broker_rpc_blocking mailbox_network request n w = Inr (JNull, n', w') \<and> mb_inbox w' = rest \<and>
    nd_subscribers n' = nd_subscribers n"
proof -
  let ?n = "n\<lparr>nd_bp_counter := nd_bp_counter n + 1\<rparr>"
  let ?w = "w\<lparr>mb_sent := mb_sent w @ [(nd_broker_address n, request_packet)]\<rparr>"
  have send: "send_control mailbox_network request n w = Inr (True, ?n, ?w)"
    using request by (simp add: send_control_def next_bp_counter_def Let_def)
  have "node_inv ?n" "mb_inbox ?w = (packet, sender) # rest" using inv inbox by simp_all
  from receive_data_packet [OF this(1) packet sz this(2), of True] send show ?thesis
    by (auto simp: broker_rpc_blocking_def bp_type_defs)
qed

section \<open>Publishers with a waiting message, for concrete runs\<close>

definition waiting_publisher :: publisher where
  "waiting_publisher =
     (publisher_new ''t'' ''T'' 1 5 17)\<lparr>pu_message_queue :=
        \<lparr>mq_message_size = 18, mq_queue_capacity = 10, mq_buffers = (replicate 17 0 @ [9]) # replicate 9 (replicate 18 0),
         mq_free_buffers = [1..<10], mq_queue = [0]\<rparr>\<rparr>"

lemma waiting_publisher_ok: "node_publisher_ok waiting_publisher" "pu_waiting waiting_publisher = [[9]]"
proof -
  have "set [1..<10] \<union> {0 :: nat} = {..<10}" by auto
  then have "mq_inv (pu_message_queue waiting_publisher)"
    by (simp add: waiting_publisher_def mq_inv_def insert_commute Un_insert_right)
  then show "node_publisher_ok waiting_publisher"
    by (simp add: node_publisher_ok_def publisher_inv_def waiting_publisher_def publisher_new_def
        message_queue_capacity_def pu_packet_size_def)
  show "pu_waiting waiting_publisher = [[9]]"
    by (simp add: pu_waiting_def waiting_publisher_def publisher_new_def mq_contents_def)
qed

section \<open>Properties\<close>

text \<open>
  C4: a received message reaches every subscriber of its topic. For a data packet of a topic with
  subscribers, whatever message type it announces, each subscriber of the topic with room in its
  queue gets one message at the end of the queue, the others keep their queues; the message is the
  payload, cut to the subscriber's message size, or continued with the bytes an earlier packet left
  in the buffer when the payload is shorter.
\<close>

theorem message_delivered:
  fixes sz :: u32
  assumes "node_inv n" and "nd_topics n t = Some ti" and "ti_subscribers ti \<noteq> []" and "distinct (ti_subscribers ti)"
    and "packet = bp_data # htonl_bytes c @ htonl_bytes t @ htonl_bytes mt @ htonl_bytes sz @ payload"
    and "unat sz = length payload" and "length packet \<le> udp_buffer_size"
    and "mb_inbox w = (packet, sender) # rest"
  shows "\<exists>n'. process_incoming_message mailbox_network n w = Inr (1, n', w\<lparr>mb_inbox := rest\<rparr>) \<and> node_inv n' \<and>
    (\<forall>j<length (nd_subscribers n).
      if j \<in> set (ti_subscribers ti)
      then su_waiting (nd_subscribers n' ! j) =
        received_by (nd_subscribers n ! j) (payload @ drop (length packet) (nd_buffer n))
      else nd_subscribers n' ! j = nd_subscribers n ! j)"
  using process_data_packet [OF assms] by blast

theorem message_delivered_witness:
  "\<exists>n'. process_incoming_message mailbox_network sample_node
        \<lparr>mb_inbox = [(bp_data # htonl_bytes 1 @ htonl_bytes 4 @ htonl_bytes 9 @ htonl_bytes 3 @ [7, 8, 9], ''h:1'')], mb_sent = []\<rparr> =
      Inr (1, n', \<lparr>mb_inbox = [(bp_data # htonl_bytes 1 @ htonl_bytes 4 @ htonl_bytes 9 @ htonl_bytes 3 @ [7, 8, 9], ''h:1'')],
                    mb_sent = []\<rparr>\<lparr>mb_inbox := []\<rparr>) \<and> node_inv n' \<and>
    (\<forall>j<length (nd_subscribers sample_node).
      if j \<in> set (ti_subscribers \<lparr>ti_publishers = [], ti_subscribers = [0]\<rparr>)
      then su_waiting (nd_subscribers n' ! j) = received_by (nd_subscribers sample_node ! j)
        ([7, 8, 9] @ drop (length (bp_data # htonl_bytes 1 @ htonl_bytes 4 @ htonl_bytes 9 @ htonl_bytes 3 @ [7, 8, 9 :: byte]))
           (nd_buffer sample_node))
      else nd_subscribers n' ! j = nd_subscribers sample_node ! j)"
proof (rule message_delivered [where t = 4 and mt = 9 and c = 1 and sz = 3 and sender = "''h:1''"])
  show "node_inv sample_node" using sample_node_safe by (simp add: node_safe_def node_ok_def)
  show "nd_topics sample_node 4 = Some \<lparr>ti_publishers = [], ti_subscribers = [0]\<rparr>"
    by (simp add: sample_node_def enter_subscriber_def enter_publisher_def create_subscriber_def create_publisher_def
        node_new_def topic_get_def topic_info_empty_def Let_def)
qed (simp_all add: udp_buffer_size_def)

text \<open>
  C17: \<^verbatim>\<open>spin_while_work()\<close> ends as soon as no more packets arrive. Take a well-formed node with callbacks that return
  on messages of their size and leave the publishers well-formed (and may publish), and any network on which only
  finitely many packets can still be received: the number \<open>left\<close> falls with each packet. Whatever these packets are,
  and whether sending succeeds, fails or throws, the loop stops after finitely many iterations. It returns \<open>true\<close>, or
  \<open>false\<close> when a packet could not be sent, with the invariant; or it ends with an exception that a \<^verbatim>\<open>sendto\<close> threw or with
  that of a reception in one of its iterations.
\<close>

theorem spin_while_work_terminates:
  assumes "network_fits peer good nw" and "arrivals_bounded peer good left nw" and "node_safe keep peer np ns n u" and "good w"
  shows "\<exists>m. spin_while_work nw (n, u, w) = Some m \<and>
    (case m of
       Inr (ok, n', u', w') \<Rightarrow> node_safe keep peer np ns n' u' \<and> (ok \<or> send_refused peer good nw)
     | Inl f \<Rightarrow> send_fault peer good nw f \<or>
         (\<exists>j n1 u1 w1. node_spin j nw (n, u, w) = Inr (None, n1, u1, w1) \<and> receive_fault nw n1 w1 f))"
proof -
  from spin_while_work_ends [OF assms] obtain m where "spin_while_work nw (n, u, w) = Some m"
    "within (\<lambda>f. send_fault peer good nw f \<or>
          (\<exists>j n1 u1 w1. node_spin j nw (n, u, w) = Inr (None, n1, u1, w1) \<and> node_safe keep peer np ns n1 u1 \<and> good w1 \<and>
             receive_fault nw n1 w1 f))
        (\<lambda>(ok, n', u', w'). node_safe keep peer np ns n' u' \<and> good w' \<and> (ok \<or> send_refused peer good nw)) m" by blast
  then show ?thesis by (cases m) auto
qed

text \<open>Thirty data packets for the sample node and a control packet without a text.\<close>

lemma mailbox_bounded: "arrivals_bounded peer (\<lambda>_. True) (\<lambda>w. length (mb_inbox w)) mailbox_network"
  by (auto simp: arrivals_bounded_def mailbox_network_def split: list.splits)

theorem spin_while_work_terminates_witness:
  "\<exists>m. spin_while_work mailbox_network (sample_node, (),
      \<lparr>mb_inbox = replicate 30 (bp_data # htonl_bytes 1 @ htonl_bytes 4 @ htonl_bytes 0 @ htonl_bytes 2 @ [8, 9], ''h:1'') @
         [(bp_control # htonl_bytes 2 @ htonl_bytes 0, ''h:1'')], mb_sent = []\<rparr>) = Some m \<and>
    (case m of
       Inr (ok, n', u', w') \<Rightarrow> node_safe (\<lambda>_. True) (nd_broker_address sample_node) 1 1 n' u' \<and>
         (ok \<or> send_refused (nd_broker_address sample_node) (\<lambda>_. True) mailbox_network)
     | Inl f \<Rightarrow> send_fault (nd_broker_address sample_node) (\<lambda>_. True) mailbox_network f \<or>
         (\<exists>j n1 u1 w1. node_spin j mailbox_network (sample_node, (),
            \<lparr>mb_inbox = replicate 30 (bp_data # htonl_bytes 1 @ htonl_bytes 4 @ htonl_bytes 0 @ htonl_bytes 2 @ [8, 9], ''h:1'') @
               [(bp_control # htonl_bytes 2 @ htonl_bytes 0, ''h:1'')], mb_sent = []\<rparr>) = Inr (None, n1, u1, w1) \<and>
            receive_fault mailbox_network n1 w1 f))"
  by (rule spin_while_work_terminates [OF mailbox_fits mailbox_bounded sample_node_safe]) simp

text \<open>
  C38: callbacks do not count as work. When nothing is received and a callback that does not publish
  runs, \<^verbatim>\<open>spin_once()\<close> reports \<open>NoWork\<close>, so \<^verbatim>\<open>spin_while_work()\<close> returns with the second and all later
  messages of the subscriber still waiting.
\<close>

theorem spin_while_work_leaves_messages:
  assumes "node_inv n" and "mb_inbox w = []"
    and "nd_topics_by_prio n = [(p, \<lparr>ti_publishers = [], ti_subscribers = [i]\<rparr>)]"
    and "su_waiting (nd_subscribers n ! i) = m # ms" and "publishes_nothing (su_callback (nd_subscribers n ! i))"
  shows "\<exists>n' u'. spin_while_work mailbox_network (n, u, w) = Some (Inr (True, n', u', w)) \<and>
    su_waiting (nd_subscribers n' ! i) = ms"
proof -
  from single_callback_pass [OF assms, of u] obtain n' u' where
    "spin_once mailbox_network (n, u, w) = Inr (SpinNoWork, n', u', w)" "su_waiting (nd_subscribers n' ! i) = ms"
    by blast
  then show ?thesis by (subst spin_while_work.simps) simp
qed

text \<open>A node with one subscriber that has two messages waiting.\<close>

definition waiting_subscriber :: "unit subscriber" where
  "waiting_subscriber =
     (subscriber_new ''in'' ''T'' 1 silent_callback 0)\<lparr>su_message_queue :=
        \<lparr>mq_message_size = 1, mq_queue_capacity = 10, mq_buffers = [[4], [5]] @ replicate 8 [0],
         mq_free_buffers = [2..<10], mq_queue = [0, 1]\<rparr>\<rparr>"

lemma waiting_subscriber_ok: "node_subscriber_ok waiting_subscriber" "su_waiting waiting_subscriber = [[4], [5]]"
proof -
  have "set [2..<10] \<union> {0, 1 :: nat} = {..<10}" by auto
  then have "mq_inv (su_message_queue waiting_subscriber)"
    by (simp add: waiting_subscriber_def mq_inv_def insert_commute Un_insert_right)
  then show "node_subscriber_ok waiting_subscriber"
    by (simp add: node_subscriber_ok_def subscriber_inv_def waiting_subscriber_def subscriber_new_def
        message_queue_capacity_def udp_buffer_size_def)
  show "su_waiting waiting_subscriber = [[4], [5]]"
    by (simp add: su_waiting_def waiting_subscriber_def mq_contents_def)
qed

theorem spin_while_work_leaves_messages_witness:
  "\<exists>n' u'. spin_while_work mailbox_network
      ((node_new ''n'' ''h'' UDP 1000)\<lparr>nd_subscribers := [waiting_subscriber],
          nd_topics_by_prio := [(0, \<lparr>ti_publishers = [], ti_subscribers = [0]\<rparr>)]\<rparr>, (), \<lparr>mb_inbox = [], mb_sent = []\<rparr>) =
      Some (Inr (True, n', u', \<lparr>mb_inbox = [], mb_sent = []\<rparr>)) \<and>
    su_waiting (nd_subscribers n' ! 0) = [[5]]"
proof (rule spin_while_work_leaves_messages [where m = "[4]"])
  show "node_inv ((node_new ''n'' ''h'' UDP 1000)\<lparr>nd_subscribers := [waiting_subscriber],
          nd_topics_by_prio := [(0, \<lparr>ti_publishers = [], ti_subscribers = [0]\<rparr>)]\<rparr>)"
    using waiting_subscriber_ok(1) by (simp add: node_inv_def node_new_def ti_ok_def prio_sorted_def)
  show "publishes_nothing (su_callback (nd_subscribers ((node_new ''n'' ''h'' UDP 1000)\<lparr>nd_subscribers := [waiting_subscriber],
          nd_topics_by_prio := [(0, \<lparr>ti_publishers = [], ti_subscribers = [0]\<rparr>)]\<rparr>) ! 0))"
    by (simp add: publishes_nothing_def waiting_subscriber_def subscriber_new_def silent_callback_def)
qed (simp_all add: waiting_subscriber_ok(2))

text \<open>
  A message that arrives during a remote procedure call breaks it. When the first packet that
  arrives after the request is a data packet, the call fails with an empty result and the message
  is lost; the broker's answer, which comes next, stays in the inbox.
\<close>

theorem rpc_fails_on_data_packet:
  fixes sz :: u32
  assumes "node_inv n"
    and "packet = bp_data # htonl_bytes c @ htonl_bytes t @ htonl_bytes mt @ htonl_bytes sz @ payload"
    and "unat sz = length payload" and "length packet \<le> udp_buffer_size"
    and "mb_inbox w = (packet, sender) # rest"
    and "bp_control_json_to_packet_buffer request (nd_bp_counter n + 1) = Inr request_packet"
  shows "\<exists>n' w'. broker_rpc_blocking mailbox_network request n w = Inr (JNull, n', w') \<and> mb_inbox w' = rest \<and>
    nd_subscribers n' = nd_subscribers n"
  by (rule rpc_data_packet_first [OF assms])

theorem rpc_fails_on_data_packet_witness:
  "\<exists>n' w'. broker_rpc_blocking mailbox_network (JBool True) sample_node
      \<lparr>mb_inbox = [(bp_data # htonl_bytes 1 @ htonl_bytes 4 @ htonl_bytes 0 @ htonl_bytes 1 @ [7], ''h:1'')], mb_sent = []\<rparr> =
      Inr (JNull, n', w') \<and> mb_inbox w' = [] \<and> nd_subscribers n' = nd_subscribers sample_node"
proof (rule rpc_fails_on_data_packet [where sz = 1 and payload = "[7]"])
  show "node_inv sample_node" using sample_node_safe by (simp add: node_safe_def node_ok_def)
qed (simp_all add: udp_buffer_size_def bp_control_json_to_packet_buffer_def)

end
