(* ===== verification/Linux_Network.thy ===== *)
theory Linux_Network
  imports Broker
begin

text \<open>
  The implementation of the network interface by BSD sockets (\<^verbatim>\<open>include/crps/linux_network.h\<close>,
  \<^verbatim>\<open>src/linux_network.cpp\<close>): UDP only, with two caches between textual addresses and socket
  addresses. The system calls and the two address conversions of the C library are parameters; the
  parsing of ports by \<^verbatim>\<open>std::stoi\<close> is modelled. The main results are about addresses: a sender's
  address, written as text and parsed again for the reply, gives the sender back, and ports from
  32768 on survive their way through a signed 16-bit parameter.
\<close>

section \<open>Byte order and \<^verbatim>\<open>std::stoi\<close>\<close>

definition htons :: "u16 \<Rightarrow> u16" where
  "htons w = push_bit 8 w OR drop_bit 8 w"

definition ntohs :: "u16 \<Rightarrow> u16" where
  "ntohs w = push_bit 8 w OR drop_bit 8 w"

lemma ntohs_htons [simp]: "ntohs (htons w) = w" and htons_ntohs [simp]: "htons (ntohs w) = w"
proof -
  have "push_bit 8 (push_bit 8 w OR drop_bit 8 w) OR drop_bit 8 (push_bit 8 w OR drop_bit 8 w) = w" for w :: u16
  proof (rule bit_word_eqI)
    fix n
    assume "n < LENGTH(16)"
    then show "bit (push_bit 8 (push_bit 8 w OR drop_bit 8 w) OR drop_bit 8 (push_bit 8 w OR drop_bit 8 w)) n \<longleftrightarrow> bit w n"
      by (cases "n < 8") (auto simp: bit_simps)
  qed
  then show "ntohs (htons w) = w" "htons (ntohs w) = w" by (simp_all add: htons_def ntohs_def)
qed

definition is_space :: "char \<Rightarrow> bool" where
  "is_space c = (let n = (of_char c :: nat) in n = 32 \<or> (9 \<le> n \<and> n \<le> 13))"

text \<open>
  Leading white space, an optional sign, at least one digit; what follows is ignored. Values outside
  \<^verbatim>\<open>int\<close> throw.
\<close>

definition stoi :: "string \<Rightarrow> int res" where
  "stoi s =
     (let t = dropWhile is_space s;
          negative = (t \<noteq> [] \<and> hd t = CHR ''-'');
          u = (if t \<noteq> [] \<and> (hd t = CHR ''-'' \<or> hd t = CHR ''+'') then tl t else t);
          digits = takeWhile is_digit u;
          v = (if negative then - int (decimal_value 0 digits) else int (decimal_value 0 digits))
      in if digits = [] then Inl StdInvalidArgument
         else if v < - (2 ^ 31) \<or> 2 ^ 31 \<le> v then Inl StdOutOfRange
         else Inr v)"

section \<open>State and system calls\<close>

record sockaddr_in =
  sin_family :: u16
  sin_port :: u16
  sin_addr :: u32

definition AF_INET :: u16 where "AF_INET = 2"

record 'k kernel =
  k_socket :: "'k \<Rightarrow> int \<times> 'k"
  k_setsockopt :: "int \<Rightarrow> 'k \<Rightarrow> int \<times> 'k"
  k_bind :: "int \<Rightarrow> sockaddr_in \<Rightarrow> 'k \<Rightarrow> int \<times> 'k"
  k_connect :: "int \<Rightarrow> sockaddr_in \<Rightarrow> 'k \<Rightarrow> int \<times> 'k"
  k_sendto :: "int \<Rightarrow> sockaddr_in \<Rightarrow> byte list \<Rightarrow> 'k \<Rightarrow> int \<times> 'k"
  k_recvfrom :: "int \<Rightarrow> nat \<Rightarrow> bool \<Rightarrow> 'k \<Rightarrow> (errno + byte list \<times> sockaddr_in) \<times> 'k"
  k_inet_pton :: "u16 \<Rightarrow> string \<Rightarrow> u32 option"
  k_inet_ntop :: "u16 \<Rightarrow> u32 \<Rightarrow> string option"

record 'k linux_network =
  ln_socket :: int
  ln_protocol :: protocol
  ln_address_to_sockaddr :: "string \<rightharpoonup> sockaddr_in"
  ln_sockaddr_to_address :: "u32 \<times> u16 \<rightharpoonup> string"
  ln_kernel :: 'k

definition linux_network_new :: "'k \<Rightarrow> 'k linux_network" where
  "linux_network_new k =
     \<lparr>ln_socket = - 1, ln_protocol = ProtocolInvalid, ln_address_to_sockaddr = Map.empty,
      ln_sockaddr_to_address = Map.empty, ln_kernel = k\<rparr>"

section \<open>Addresses\<close>

text \<open>
  \<^verbatim>\<open>find(':')\<close> and the two \<^verbatim>\<open>substr\<close> calls: without a delimiter both parts are the whole text. The
  host is handed on as a C string, which ends at the first null character.
\<close>

definition address_host :: "string \<Rightarrow> string" where
  "address_host a = takeWhile (\<lambda>c. c \<noteq> CHR '':'') a"

definition address_port_text :: "string \<Rightarrow> string" where
  "address_port_text a =
     (case dropWhile (\<lambda>c. c \<noteq> CHR '':'') a of [] \<Rightarrow> a | _ # rest \<Rightarrow> rest)"

definition resolve :: "'k kernel \<Rightarrow> string \<Rightarrow> sockaddr_in option res" where
  "resolve K a =
     rbind (stoi (address_port_text a)) (\<lambda>v.
     let port = word_of_int v :: u16
     in case k_inet_pton K AF_INET (takeWhile (\<lambda>c. c \<noteq> CHR 0x00) (address_host a)) of
          None \<Rightarrow> Inr None
        | Some addr \<Rightarrow> Inr (Some \<lparr>sin_family = AF_INET, sin_port = htons port, sin_addr = addr\<rparr>))"

definition to_sockaddr :: "'k kernel \<Rightarrow> string \<Rightarrow> 'k linux_network \<Rightarrow> (sockaddr_in option \<times> 'k linux_network) res" where
  "to_sockaddr K a ln =
     (case ln_address_to_sockaddr ln a of
        Some sa \<Rightarrow> Inr (Some sa, ln)
      | None \<Rightarrow>
          rbind (resolve K a) (\<lambda>r.
          case r of
            None \<Rightarrow> Inr (None, ln)
          | Some sa \<Rightarrow>
              Inr (Some sa, ln\<lparr>ln_address_to_sockaddr := (ln_address_to_sockaddr ln)(a \<mapsto> sa)\<rparr>)))"

definition to_address :: "'k kernel \<Rightarrow> sockaddr_in \<Rightarrow> 'k linux_network \<Rightarrow> string option \<times> 'k linux_network" where
  "to_address K sa ln =
     (case ln_sockaddr_to_address ln (sin_addr sa, sin_port sa) of
        Some a \<Rightarrow> (Some a, ln)
      | None \<Rightarrow>
          (case k_inet_ntop K (sin_family sa) (sin_addr sa) of
             None \<Rightarrow> (None, ln)
           | Some host \<Rightarrow>
               let a = host @ '':'' @ to_string (uint (ntohs (sin_port sa)))
               in (Some a, ln\<lparr>ln_sockaddr_to_address :=
                                 (ln_sockaddr_to_address ln)((sin_addr sa, sin_port sa) \<mapsto> a)\<rparr>)))"

section \<open>Operations\<close>

definition ln_open :: "'k kernel \<Rightarrow> protocol \<Rightarrow> 'k linux_network \<Rightarrow> (bool \<times> 'k linux_network) res" where
  "ln_open K proto ln =
     (let ln1 = ln\<lparr>ln_protocol := proto\<rparr>
      in if proto \<noteq> UDP then Inr (False, ln1)
         else
           (case k_socket K (ln_kernel ln1) of
              (fd, k1) \<Rightarrow>
                let ln2 = ln1\<lparr>ln_socket := fd, ln_kernel := k1\<rparr>
                in if fd < 0 then Inr (False, ln2)
                   else (case k_setsockopt K fd k1 of (_, k2) \<Rightarrow> Inr (True, ln2\<lparr>ln_kernel := k2\<rparr>))))"

definition ln_bind :: "'k kernel \<Rightarrow> string \<Rightarrow> 'k linux_network \<Rightarrow> (bool \<times> 'k linux_network) res" where
  "ln_bind K a ln =
     rbind (to_sockaddr K a ln) (\<lambda>(r, ln1).
     case r of
       None \<Rightarrow> Inr (False, ln1)
     | Some sa \<Rightarrow>
         (case k_bind K (ln_socket ln1) sa (ln_kernel ln1) of
            (result, k1) \<Rightarrow> Inr (result = 0, ln1\<lparr>ln_kernel := k1\<rparr>)))"

definition ln_listen :: "'k linux_network \<Rightarrow> (bool \<times> 'k linux_network) res" where
  "ln_listen ln = Inr (ln_protocol ln \<noteq> TCP, ln)"

definition ln_accept :: "'k linux_network \<Rightarrow> (bool \<times> 'k linux_network) res" where
  "ln_accept ln = Inr (ln_protocol ln \<noteq> TCP, ln)"

definition ln_connect :: "'k kernel \<Rightarrow> string \<Rightarrow> 'k linux_network \<Rightarrow> (bool \<times> 'k linux_network) res" where
  "ln_connect K a ln =
     rbind (to_sockaddr K a ln) (\<lambda>(r, ln1).
     case r of
       None \<Rightarrow> Inr (False, ln1)
     | Some sa \<Rightarrow>
         (case k_connect K (ln_socket ln1) sa (ln_kernel ln1) of
            (result, k1) \<Rightarrow> Inr (result = 0, ln1\<lparr>ln_kernel := k1\<rparr>)))"

definition ln_sendto :: "'k kernel \<Rightarrow> string \<Rightarrow> byte list \<Rightarrow> 'k linux_network \<Rightarrow> (bool \<times> 'k linux_network) res" where
  "ln_sendto K a packet ln =
     rbind (to_sockaddr K a ln) (\<lambda>(r, ln1).
     case r of
       None \<Rightarrow> Inr (False, ln1)
     | Some sa \<Rightarrow>
         (case k_sendto K (ln_socket ln1) sa packet (ln_kernel ln1) of
            (written, k1) \<Rightarrow> Inr (0 \<le> written \<and> written = int (length packet), ln1\<lparr>ln_kernel := k1\<rparr>)))"

text \<open>
  The broker asks for the sender's address and blocks, the node does neither when it polls; a
  non-blocking call with nothing to receive falls through to the conversion of the (empty) sender
  when an address is asked for. \<open>want_sender\<close> is whether \<^verbatim>\<open>p_sender_address\<close> is not null.
\<close>

definition ln_recvfrom ::
    "'k kernel \<Rightarrow> bool \<Rightarrow> nat \<Rightarrow> bool \<Rightarrow> 'k linux_network \<Rightarrow> (recv_result \<times> 'k linux_network) res" where
  "ln_recvfrom K want_sender n block ln =
     (case k_recvfrom K (ln_socket ln) n (\<not> block) (ln_kernel ln) of
        (received, k1) \<Rightarrow>
          let ln1 = ln\<lparr>ln_kernel := k1\<rparr>;
              empty = \<lparr>sin_family = 0, sin_port = 0, sin_addr = 0\<rparr>
          in case received of
               Inl err \<Rightarrow>
                 if block \<or> (err \<noteq> EAGAIN \<and> err \<noteq> EWOULDBLOCK) then Inr (RecvFailed err [], ln1)
                 else if want_sender then
                   (case to_address K empty ln1 of (_, ln2) \<Rightarrow> Inr (RecvFailed err [], ln2))
                 else Inr (RecvFailed err [], ln1)
             | Inr (bytes, sender) \<Rightarrow>
                 if want_sender then
                   (case to_address K sender ln1 of
                      (None, ln2) \<Rightarrow> Inr (RecvFailed EOther bytes, ln2)
                    | (Some a, ln2) \<Rightarrow> Inr (Received bytes a, ln2))
                 else Inr (Received bytes '''', ln1))"

definition ln_close :: "'k linux_network \<Rightarrow> (bool \<times> 'k linux_network) res" where
  "ln_close ln = Inr (False, ln)"

definition linux_network_ops :: "'k kernel \<Rightarrow> bool \<Rightarrow> 'k linux_network network" where
  "linux_network_ops K want_sender =
     \<lparr>nw_socket = ln_open K, nw_bind = ln_bind K, nw_listen = ln_listen, nw_accept = ln_accept,
      nw_connect = ln_connect K, nw_sendto = ln_sendto K, nw_recvfrom = ln_recvfrom K want_sender,
      nw_close = ln_close\<rparr>"

section \<open>Ports as text\<close>

lemma decimal_nonempty [simp]: "decimal n \<noteq> []"
  by (simp add: decimal.simps [of n])

lemma is_digit_chars:
  assumes "is_digit c"
  shows "\<not> is_space c" "c \<noteq> CHR ''-''" "c \<noteq> CHR ''+''" "c \<noteq> CHR '':''"
  using assms by (auto simp: is_digit_def is_space_def Let_def)

lemma decimal_prefix:
  "dropWhile is_space (decimal n) = decimal n" "hd (decimal n) \<noteq> CHR ''-''" "hd (decimal n) \<noteq> CHR ''+''"
  "takeWhile is_digit (decimal n) = decimal n"
proof -
  obtain c s where d: "decimal n = c # s" by (cases "decimal n") auto
  then have c: "is_digit c" using decimal_digits [of c n] by simp
  show "dropWhile is_space (decimal n) = decimal n" "hd (decimal n) \<noteq> CHR ''-''" "hd (decimal n) \<noteq> CHR ''+''"
    using d is_digit_chars [OF c] by simp_all
  show "takeWhile is_digit (decimal n) = decimal n" using decimal_digits by (simp add: takeWhile_eq_all_conv)
qed

lemma stoi_to_string:
  assumes "- (2 ^ 31) \<le> x" and "x < 2 ^ 31"
  shows "stoi (to_string x) = Inr x"
proof (cases "x < 0")
  case True
  have "stoi (CHR ''-'' # decimal (nat (- x))) = Inr x"
    using assms True by (simp add: stoi_def Let_def is_space_def decimal_prefix decimal_value_decimal)
  with True show ?thesis by (simp add: to_string_def)
next
  case False
  have "stoi (decimal (nat x)) = Inr x"
    using assms False by (simp add: stoi_def Let_def decimal_prefix decimal_value_decimal)
  with False show ?thesis by (simp add: to_string_def)
qed

text \<open>Text of the form \<^verbatim>\<open>HOST:PORT\<close>.\<close>

lemma address_parts:
  assumes "CHR '':'' \<notin> set host"
  shows "address_host (host @ CHR '':'' # rest) = host" "address_port_text (host @ CHR '':'' # rest) = rest"
proof -
  have "takeWhile (\<lambda>c. c \<noteq> CHR '':'') host = host" "dropWhile (\<lambda>c. c \<noteq> CHR '':'') host = []"
    using assms by (auto simp: takeWhile_eq_all_conv dropWhile_eq_Nil_conv)
  then show "address_host (host @ CHR '':'' # rest) = host" "address_port_text (host @ CHR '':'' # rest) = rest"
    by (simp_all add: address_host_def address_port_text_def takeWhile_append dropWhile_append)
qed

definition plain_host :: "string \<Rightarrow> bool" where
  "plain_host host \<longleftrightarrow> CHR '':'' \<notin> set host \<and> CHR 0x00 \<notin> set host"

lemma resolve_host_port:
  assumes "plain_host host" and "k_inet_pton K AF_INET host = Some addr"
    and "- (2 ^ 31) \<le> x" and "x < 2 ^ 31"
  shows "resolve K (host @ '':'' @ to_string x) =
    Inr (Some \<lparr>sin_family = AF_INET, sin_port = htons (word_of_int x), sin_addr = addr\<rparr>)"
proof -
  have host: "takeWhile (\<lambda>c. c \<noteq> CHR 0x00) host = host"
    using assms(1) by (auto simp: plain_host_def takeWhile_eq_all_conv)
  show ?thesis
    using assms by (simp add: resolve_def plain_host_def address_parts stoi_to_string Let_def host)
qed

section \<open>The caches\<close>

text \<open>
  What the program relies on in the C library: \<^verbatim>\<open>inet_ntop\<close> writes IPv4 addresses without colons in a
  form that \<^verbatim>\<open>inet_pton\<close> reads back, and knows no other family.
\<close>

definition inet_laws :: "'k kernel \<Rightarrow> bool" where
  "inet_laws K \<longleftrightarrow>
     (\<forall>ip host. k_inet_ntop K AF_INET ip = Some host \<longrightarrow> k_inet_pton K AF_INET host = Some ip \<and> plain_host host) \<and>
     (\<forall>f ip. f \<noteq> AF_INET \<longrightarrow> k_inet_ntop K f ip = None)"

definition render :: "'k kernel \<Rightarrow> u32 \<Rightarrow> u16 \<Rightarrow> string option" where
  "render K ip port = map_option (\<lambda>host. host @ '':'' @ to_string (uint (ntohs port))) (k_inet_ntop K AF_INET ip)"

definition ln_inv :: "'k kernel \<Rightarrow> 'k linux_network \<Rightarrow> bool" where
  "ln_inv K ln \<longleftrightarrow>
     (\<forall>a sa. ln_address_to_sockaddr ln a = Some sa \<longrightarrow> resolve K a = Inr (Some sa)) \<and>
     (\<forall>ip port a. ln_sockaddr_to_address ln (ip, port) = Some a \<longrightarrow> render K ip port = Some a)"

lemma linux_network_new_inv [crps_inv]: "ln_inv K (linux_network_new k)"
  by (simp add: ln_inv_def linux_network_new_def)

lemma ln_inv_fields [simp]:
  "ln_inv K (ln\<lparr>ln_kernel := k\<rparr>) = ln_inv K ln" "ln_inv K (ln\<lparr>ln_socket := s\<rparr>) = ln_inv K ln"
  "ln_inv K (ln\<lparr>ln_protocol := p\<rparr>) = ln_inv K ln"
  by (simp_all add: ln_inv_def)

lemma to_sockaddr_inv:
  assumes "ln_inv K ln" and "to_sockaddr K a ln = Inr (r, ln1)"
  shows "ln_inv K ln1"
  using assms by (auto simp: to_sockaddr_def ln_inv_def split: option.splits if_splits elim!: rbind_InrE)

text \<open>The cache never changes the answer.\<close>

lemma to_sockaddr_resolve:
  assumes "ln_inv K ln"
  shows "to_sockaddr K a ln = Inr (r, ln1) \<Longrightarrow> resolve K a = Inr r"
    and "resolve K a = Inr (Some sa) \<Longrightarrow> \<exists>ln1. to_sockaddr K a ln = Inr (Some sa, ln1) \<and> ln_inv K ln1"
proof -
  show "to_sockaddr K a ln = Inr (r, ln1) \<Longrightarrow> resolve K a = Inr r"
  proof (cases "ln_address_to_sockaddr ln a")
    case (Some sa)
    moreover assume "to_sockaddr K a ln = Inr (r, ln1)"
    ultimately have "r = Some sa" by (simp add: to_sockaddr_def)
    with Some assms show ?thesis by (simp add: ln_inv_def)
  qed (auto simp: to_sockaddr_def split: option.splits elim!: rbind_InrE)
  assume r: "resolve K a = Inr (Some sa)"
  then have "\<exists>ln1. to_sockaddr K a ln = Inr (Some sa, ln1)"
    using assms by (auto simp: to_sockaddr_def ln_inv_def split: option.splits)
  then show "\<exists>ln1. to_sockaddr K a ln = Inr (Some sa, ln1) \<and> ln_inv K ln1"
    using to_sockaddr_inv [OF assms] by blast
qed

lemma to_address_render:
  assumes laws: "inet_laws K" and inv: "ln_inv K ln" and fam: "sin_family sa = AF_INET"
    and a: "to_address K sa ln = (Some a, ln1)"
  shows "render K (sin_addr sa) (sin_port sa) = Some a \<and> ln_inv K ln1"
  using a inv fam by (auto simp: to_address_def render_def ln_inv_def Let_def split: option.splits if_splits)

lemma render_resolve:
  assumes "inet_laws K" and "render K ip port = Some a"
  shows "resolve K a = Inr (Some \<lparr>sin_family = AF_INET, sin_port = port, sin_addr = ip\<rparr>)"
proof -
  from assms obtain host where host: "k_inet_ntop K AF_INET ip = Some host"
    "a = host @ '':'' @ to_string (uint (ntohs port))" by (auto simp: render_def)
  have "- (2 ^ 31) \<le> uint (ntohs port)" by (rule order_trans [OF _ uint_ge_0]) simp
  moreover have "uint (ntohs port) < 2 ^ 31"
    using uint_lt2p [of "ntohs port"] by simp
  moreover have "plain_host host" "k_inet_pton K AF_INET host = Some ip"
    using assms(1) host(1) by (auto simp: inet_laws_def)
  ultimately show ?thesis
    using resolve_host_port [of host K ip "uint (ntohs port)"] by (simp add: host(2))
qed

section \<open>A kernel for concrete runs\<close>

text \<open>
  Hosts are written as one decimal number; what is sent is recorded, and everything received is taken
  from a list.
\<close>

record sample_kernel_state =
  sk_inbox :: "(byte list \<times> sockaddr_in) list"
  sk_sent :: "(sockaddr_in \<times> byte list) list"

definition sample_pton :: "u16 \<Rightarrow> string \<Rightarrow> u32 option" where
  "sample_pton f s =
     (if f = AF_INET \<and> s \<noteq> [] \<and> list_all is_digit s \<and> decimal_value 0 s < 2 ^ 32
      then Some (of_nat (decimal_value 0 s)) else None)"

definition sample_kernel :: "sample_kernel_state kernel" where
  "sample_kernel =
     \<lparr>k_socket = (\<lambda>k. (3, k)), k_setsockopt = (\<lambda>fd k. (0, k)), k_bind = (\<lambda>fd sa k. (0, k)),
      k_connect = (\<lambda>fd sa k. (0, k)),
      k_sendto = (\<lambda>fd sa packet k. (int (length packet), k\<lparr>sk_sent := sk_sent k @ [(sa, packet)]\<rparr>)),
      k_recvfrom = (\<lambda>fd n dontwait k.
        case sk_inbox k of [] \<Rightarrow> (Inl EAGAIN, k)
        | (packet, sa) # rest \<Rightarrow> (Inr (take n packet, sa), k\<lparr>sk_inbox := rest\<rparr>)),
      k_inet_pton = sample_pton,
      k_inet_ntop = (\<lambda>f ip. if f = AF_INET then Some (decimal (unat ip)) else None)\<rparr>"

lemma decimal_plain: "plain_host (decimal n)"
  using decimal_digits [of "CHR '':''" n] decimal_digits [of "CHR 0x00" n]
  by (auto simp: plain_host_def is_digit_def)

lemma sample_kernel_laws: "inet_laws sample_kernel"
proof -
  have "decimal_value 0 (decimal (unat ip)) < 2 ^ 32" for ip :: u32
    using unsigned_less [of ip, where 'a = nat] by (simp add: decimal_value_decimal)
  then show ?thesis
    using decimal_digits
    by (auto simp: inet_laws_def sample_kernel_def sample_pton_def decimal_plain decimal_value_decimal list_all_iff)
qed

section \<open>Properties\<close>



text \<open>
  Every port reaches the socket. The broker's port is a signed 16-bit parameter written as a
  decimal, possibly negative, number; \<^verbatim>\<open>std::stoi\<close> and the conversion back to 16 bits recover all
  65536 ports, so the broker listens on the port it was given.
\<close>

theorem listen_port_recovered:
  assumes "plain_host listen_ip" and "k_inet_pton K AF_INET listen_ip = Some addr"
  shows "resolve K (br_listen_address (broker_new listen_ip proto port)) =
    Inr (Some \<lparr>sin_family = AF_INET, sin_port = htons port, sin_addr = addr\<rparr>)"
proof -
  have "- (2 ^ 31) \<le> sint port" "sint port < 2 ^ 31"
    using sint_greater_eq [of port] sint_less [of port] by simp_all
  from resolve_host_port [OF assms this] show ?thesis by (simp add: broker_new_def)
qed

theorem listen_port_recovered_witness:
  "resolve sample_kernel (br_listen_address (broker_new ''7'' UDP 40000)) =
    Inr (Some \<lparr>sin_family = AF_INET, sin_port = htons 40000, sin_addr = 7\<rparr>)"
  by (rule listen_port_recovered)
     (simp_all add: plain_host_def sample_kernel_def sample_pton_def is_digit_def)

end
