(* ===== verification/Node_Sockets.thy ===== *)
theory Node_Sockets
  imports Node_Correct Linux_Network
begin

text \<open>
  The node of \<^verbatim>\<open>node.cpp\<close> on the network of \<^verbatim>\<open>linux_network.cpp\<close>: the sockets satisfy what the safety of
  the node's loop asks of a network.
\<close>

section \<open>A node over sockets\<close>

text \<open>
  What the program relies on in \<^verbatim>\<open>recvfrom(2)\<close>: at most as many bytes as the buffer has. What they are is up to the
  sender.
\<close>

definition kernel_receives :: "'k kernel \<Rightarrow> bool" where
  "kernel_receives K \<longleftrightarrow>
     (\<forall>fd k dontwait s bytes sender. fst (k_recvfrom K fd k dontwait s) = Inr (bytes, sender) \<longrightarrow> length bytes \<le> k)"

lemma resolve_returns:
  assumes "CHR '':'' \<notin> set host"
  shows "\<exists>r. resolve K (host @ '':'' @ to_string (sint (port :: u16))) = Inr r"
proof -
  have "- (2 ^ 31) \<le> sint port" "sint port < 2 ^ 31"
    using sint_greater_eq [of port] sint_less [of port] by simp_all
  then have "stoi (to_string (sint port)) = Inr (sint port)" by (rule stoi_to_string)
  then show ?thesis
    using assms by (auto simp: resolve_def address_parts Let_def split: option.splits)
qed

lemma linux_sendto_returns:
  assumes peer: "\<exists>r. resolve K peer = Inr r" and inv: "ln_inv K ln"
  shows "\<exists>ok ln'. ln_sendto K peer packet ln = Inr (ok, ln') \<and> ln_inv K ln'"
proof -
  have "\<exists>r ln1. to_sockaddr K peer ln = Inr (r, ln1)"
    using peer by (auto simp: to_sockaddr_def split: option.splits)
  then obtain r ln1 where 1: "to_sockaddr K peer ln = Inr (r, ln1)" by blast
  with to_sockaddr_inv [OF inv 1] show ?thesis
    by (cases r) (auto simp: ln_sendto_def split: prod.splits)
qed

lemma linux_recvfrom_fits:
  assumes recv: "kernel_receives K" and inv: "ln_inv K ln"
  shows "\<exists>r ln'. ln_recvfrom K False k block ln = Inr (r, ln') \<and> ln_inv K ln' \<and> length (recv_bytes r) \<le> k"
proof -
  obtain received k1 where r: "k_recvfrom K (ln_socket ln) k (\<not> block) (ln_kernel ln) = (received, k1)"
    by fastforce
  show ?thesis
  proof (cases received)
    case (Inl e)
    with r inv show ?thesis by (auto simp: ln_recvfrom_def Let_def)
  next
    case (Inr bs)
    obtain bytes sender where bs: "bs = (bytes, sender)" by (cases bs)
    have "length bytes \<le> k" using recv r Inr bs unfolding kernel_receives_def by (metis fst_conv)
    with r inv Inr bs show ?thesis by (simp add: ln_recvfrom_def Let_def)
  qed
qed

lemma linux_ops: "nw_sendto (linux_network_ops K dbg) = ln_sendto K" "nw_recvfrom (linux_network_ops K dbg) = ln_recvfrom K dbg"
  by (simp_all add: linux_network_ops_def)

lemma linux_network_fits:
  assumes "\<exists>r. resolve K peer = Inr r" and "kernel_receives K"
  shows "network_fits peer (ln_inv K) (linux_network_ops K False)"
proof -
  have "ln_inv K ln'" if "ln_inv K ln" "ln_sendto K peer p ln = Inr (ok, ln')" for p ln ok ln'
    using linux_sendto_returns [OF assms(1) that(1), of p] that(2) by auto
  moreover have "ln_inv K ln' \<and> length (recv_bytes r) \<le> k"
    if "ln_inv K ln" "ln_recvfrom K False k block ln = Inr (r, ln')" for k block ln r ln'
    using linux_recvfrom_fits [OF assms(2) that(1), of k block] that(2) by auto
  ultimately show ?thesis unfolding network_fits_def linux_ops by blast
qed

text \<open>
  C15: over sockets the one way to crash a node is a control packet its decoder rejects. Take a well-formed node
  whose broker address is a host without a colon and any port, on any kernel whose \<^verbatim>\<open>recvfrom\<close> returns at most as many
  bytes as it was asked for: whatever else the system calls return, and whatever is received, any number of iterations
  ends normally with the invariants of the node and of the network's caches, or with a fault; then one of the
  iterations, started in a state where the invariants held, received a packet of control type, and the fault is
  that of decoding this very packet. No address conversion throws.
\<close>

theorem node_over_sockets_safe:
  assumes "node_safe keep (host @ '':'' @ to_string (sint (port :: u16))) np ns n u" and "CHR '':'' \<notin> set host"
    and "kernel_receives K" and "ln_inv K ln"
  shows "case node_spin k (linux_network_ops K False) (n, u, ln) of
      Inr (r, n', u', ln') \<Rightarrow> node_safe keep (host @ '':'' @ to_string (sint port)) np ns n' u' \<and> ln_inv K ln'
    | Inl f \<Rightarrow> \<exists>j<k. \<exists>n1 u1 ln1 bytes sender ln2.
        node_spin j (linux_network_ops K False) (n, u, ln) = Inr (None, n1, u1, ln1) \<and>
        node_safe keep (host @ '':'' @ to_string (sint port)) np ns n1 u1 \<and> ln_inv K ln1 \<and>
        ln_recvfrom K False udp_buffer_size False ln1 = Inr (Received bytes sender, ln2) \<and>
        control_fault bytes (nd_buffer n1) f"
proof -
  let ?nw = "linux_network_ops K False" and ?peer = "host @ '':'' @ to_string (sint port)"
  note peer = resolve_returns [OF assms(2)]
  have send: "\<not> send_fault ?peer (ln_inv K) ?nw f" for f
    using linux_sendto_returns [OF peer [of K port]] unfolding send_fault_def linux_ops by (metis Inl_Inr_False)
  have recv: "\<exists>bytes sender ln2. ln_recvfrom K False udp_buffer_size False ln1 = Inr (Received bytes sender, ln2) \<and>
      control_fault bytes (nd_buffer n1) f" if "receive_fault ?nw n1 ln1 f" "ln_inv K ln1" for n1 :: "'a node" and ln1 f
    using linux_recvfrom_fits [OF assms(3) that(2), of udp_buffer_size False] that(1) unfolding receive_fault_def linux_ops by auto
  note run = node_spin_safe_run [OF linux_network_fits [OF peer assms(3)] assms(1,4), of k]
  show ?thesis
  proof (cases "node_spin k ?nw (n, u, ln)")
    case (Inl f)
    with run send obtain j n1 u1 ln1 where "j < k" "node_spin j ?nw (n, u, ln) = Inr (None, n1, u1, ln1)"
      "node_safe keep ?peer np ns n1 u1" "ln_inv K ln1" "receive_fault ?nw n1 ln1 f" by auto
    with recv [OF this(5,4)] Inl show ?thesis by auto
  next
    case (Inr x)
    with run show ?thesis by auto
  qed
qed

text \<open>A kernel with an inbox: a data packet of the sample node's topic, and then a control packet without a text.\<close>

definition sample_arrivals :: sample_kernel_state where
  "sample_arrivals = \<lparr>sk_inbox =
     [(bp_data # htonl_bytes 1 @ htonl_bytes 4 @ htonl_bytes 0 @ htonl_bytes 2 @ [8, 9], \<lparr>sin_family = AF_INET, sin_port = 80, sin_addr = 7\<rparr>),
      (bp_control # htonl_bytes 2 @ htonl_bytes 0, \<lparr>sin_family = AF_INET, sin_port = 80, sin_addr = 7\<rparr>)], sk_sent = []\<rparr>"

lemma sample_kernel_receives: "kernel_receives sample_kernel"
  by (auto simp: kernel_receives_def sample_kernel_def split: list.splits)

theorem node_over_sockets_safe_witness:
  "case node_spin 3 (linux_network_ops sample_kernel False) (sample_node, (), linux_network_new sample_arrivals) of
      Inr (r, n', u', ln') \<Rightarrow>
        node_safe (\<lambda>_. True) (''h'' @ '':'' @ to_string (sint (1000 :: u16))) 1 1 n' u' \<and> ln_inv sample_kernel ln'
    | Inl f \<Rightarrow> \<exists>j<3. \<exists>n1 u1 ln1 bytes sender ln2.
        node_spin j (linux_network_ops sample_kernel False) (sample_node, (), linux_network_new sample_arrivals) =
          Inr (None, n1, u1, ln1) \<and>
        node_safe (\<lambda>_. True) (''h'' @ '':'' @ to_string (sint (1000 :: u16))) 1 1 n1 u1 \<and> ln_inv sample_kernel ln1 \<and>
        ln_recvfrom sample_kernel False udp_buffer_size False ln1 = Inr (Received bytes sender, ln2) \<and>
        control_fault bytes (nd_buffer n1) f"
proof (rule node_over_sockets_safe)
  have "nd_broker_address sample_node = ''h'' @ '':'' @ to_string (sint (1000 :: u16))"
    by (simp add: sample_node_def enter_subscriber_def enter_publisher_def create_subscriber_def create_publisher_def
        node_new_def Let_def)
  then show "node_safe (\<lambda>_. True) (''h'' @ '':'' @ to_string (sint (1000 :: u16))) 1 1 sample_node ()"
    using sample_node_safe by simp
  show "kernel_receives sample_kernel" by (rule sample_kernel_receives)
  show "ln_inv sample_kernel (linux_network_new sample_arrivals)" by (rule linux_network_new_inv)
qed simp

end
