(* ===== verification/Rpc_Link.thy ===== *)
theory Rpc_Link
  imports Broker_Correct Node_Correct
begin

text \<open>
  Remote procedure calls, both ends together. A node whose packets arrive in order at a running
  broker, one at a time, and whose answers come back the same way: the network of the node is the
  broker's own loop. The lemmas carry a request through the serializer, the packet layer, the loop of
  the broker, the dispatch on scope and action, the answer, and back into the node; the result is that
  a call of the node is a call of the broker's operation of the same name.
\<close>

section \<open>The length of JSON text\<close>

fun text_bound :: "json \<Rightarrow> nat" where
  "text_bound (JObject m) = 2 + sum_list (map (\<lambda>(k, v). 6 * length k + 4 + text_bound v) m)"
| "text_bound (JArray xs) = 2 + sum_list (map (\<lambda>x. text_bound x + 1) xs)"
| "text_bound (JString s) = 6 * length s + 2"
| "text_bound (JInt w) = 21"
| "text_bound (JUInt w) = 20"
| "text_bound (JBool b) = 5"
| "text_bound JNull = 4"

lemma escape_char_length: "length (escape_char c) \<le> 6"
  by (simp add: escape_char_eq hex4_def Let_def)

lemma dump_escaped_length:
  assumes "ascii s" and "dump_escaped s = Inr e"
  shows "length e \<le> 6 * length s"
proof -
  have "length (concat (map escape_char s)) \<le> 6 * length s"
  proof (induction s)
    case (Cons c s)
    then show ?case using escape_char_length [of c] by simp
  qed simp
  then show ?thesis using assms by (simp add: dump_escaped_ascii)
qed

lemma dump_number_length: "length (dump_unsigned w) \<le> 20" "length (dump_signed w) \<le> 21"
proof -
  have b: "unat (y :: u64) < 10 ^ 20" for y
    using unsigned_less [of y, where 'a = nat] by (rule order_less_le_trans) simp
  have len: "count_digits (unat (y :: u64)) \<le> 20" for y
    using count_digits_bound [OF b [of y]] by simp
  show "length (dump_unsigned w) \<le> 20" "length (dump_signed w) \<le> 21"
    using len [of w] len [of "remove_sign w"]
    by (auto simp: dump_unsigned_def dump_signed_def count_digits_correct count_digits.simps [of 0])
qed

lemma json_dump_length:
  "json_ok j \<Longrightarrow> json_dump j = Inr s \<Longrightarrow> length s \<le> text_bound j"
  "\<forall>kv\<in>set m. ascii (fst kv) \<and> json_ok (snd kv) \<Longrightarrow> dump_members m = Inr s \<Longrightarrow>
   length s \<le> sum_list (map (\<lambda>(k, v). 6 * length k + 4 + text_bound v) m)"
  "\<forall>x\<in>set xs. json_ok x \<Longrightarrow> dump_elements xs = Inr s \<Longrightarrow> length s \<le> sum_list (map (\<lambda>x. text_bound x + 1) xs)"
proof (induction j and m and xs arbitrary: s and s and s rule: json_dump_dump_members_dump_elements.induct)
  case (1 m)
  then show ?case by (auto split: if_splits elim!: rbind_InrE simp del: ball_simps)
next
  case (2 xs)
  then show ?case by (auto split: if_splits elim!: rbind_InrE)
next
  case (3 s')
  then show ?case by (auto elim!: rbind_InrE dest: dump_escaped_length)
next
  case (9 k v m)
  note IH = "9.IH" and prems = "9.prems"
  from prems(2) obtain e d where e: "dump_escaped k = Inr e" and d: "json_dump v = Inr d"
    and rest: "(if m = [] then Inr ([CHR 0x22] @ e @ [CHR 0x22, CHR '':''] @ d)
      else rbind (dump_members m) (\<lambda>s. Inr ([CHR 0x22] @ e @ [CHR 0x22, CHR '':''] @ d @ '','' @ s))) = Inr s"
    by (auto elim!: rbind_InrE)
  have ok: "ascii k" "json_ok v" "\<forall>kv\<in>set m. ascii (fst kv) \<and> json_ok (snd kv)" using prems(1) by auto
  have len: "length e \<le> 6 * length k" "length d \<le> text_bound v"
    using dump_escaped_length [OF ok(1) e] IH(1) [OF e ok(2) d] by auto
  show ?case
  proof (cases "m = []")
    case True
    with rest len show ?thesis by auto
  next
    case False
    with rest obtain t where t: "dump_members m = Inr t"
      "s = [CHR 0x22] @ e @ [CHR 0x22, CHR '':''] @ d @ '','' @ t" by (auto elim!: rbind_InrE)
    from IH(2) [OF e d False ok(3) t(1)] len show ?thesis by (simp add: t(2))
  qed
next
  case (11 x xs)
  note IH = "11.IH" and prems = "11.prems"
  from prems(2) obtain d where d: "json_dump x = Inr d"
    and rest: "(if xs = [] then Inr d else rbind (dump_elements xs) (\<lambda>s. Inr (d @ '','' @ s))) = Inr s"
    by (auto elim!: rbind_InrE)
  have ok: "json_ok x" "\<forall>y\<in>set xs. json_ok y" using prems(1) by auto
  note len = IH(1) [OF ok(1) d]
  show ?case
  proof (cases "xs = []")
    case True
    with rest len show ?thesis by auto
  next
    case False
    with rest obtain t where t: "dump_elements xs = Inr t" "s = d @ '','' @ t" by (auto elim!: rbind_InrE)
    from IH(2) [OF d False ok(2) t(1)] len show ?thesis by (simp add: t(2))
  qed
qed (auto simp: dump_number_length)

lemma control_packet_exists:
  assumes "json_ok j" and "text_bound j + 9 \<le> udp_buffer_size"
  shows "\<exists>packet. bp_control_json_to_packet_buffer j c = Inr packet \<and> length packet \<le> udp_buffer_size"
proof -
  obtain s where s: "json_dump j = Inr s" using json_roundtrip_law [OF assms(1)] by blast
  with json_dump_length(1) [OF assms(1) s] assms(2) show ?thesis
    by (simp add: bp_control_json_to_packet_buffer_def)
qed

section \<open>The link\<close>

text \<open>
  A packet the node \<open>client\<close> sends to \<open>server\<close> makes the loop of the broker run once; what the broker
  sends to \<open>client\<close> waits in the inbox of the node, what it sends elsewhere is kept in order.
\<close>

record link =
  lk_broker :: broker
  lk_buffer :: "byte list"
  lk_inbox :: "byte list list"
  lk_others :: "(string \<times> byte list) list"

definition link_serve :: "string \<Rightarrow> bool \<Rightarrow> byte list \<times> string \<Rightarrow> link \<Rightarrow> link res" where
  "link_serve client dbg received lk =
     rbind (broker_spin_once mailbox_network dbg
              (lk_broker lk, lk_buffer lk, \<lparr>mb_inbox = [received], mb_sent = []\<rparr>))
       (\<lambda>(go_on, b, buffer, w).
        Inr \<lparr>lk_broker = b, lk_buffer = buffer,
             lk_inbox = lk_inbox lk @ map snd (filter (\<lambda>p. fst p = client) (mb_sent w)),
             lk_others = lk_others lk @ filter (\<lambda>p. fst p \<noteq> client) (mb_sent w)\<rparr>)"

definition link_send :: "string \<Rightarrow> string \<Rightarrow> bool \<Rightarrow> string \<Rightarrow> byte list \<Rightarrow> link \<Rightarrow> (bool \<times> link) res" where
  "link_send server client dbg a packet lk =
     (if a \<noteq> server then Inr (True, lk)
      else rbind (link_serve client dbg (packet, client) lk) (\<lambda>lk1. Inr (True, lk1)))"

definition link_receive :: "string \<Rightarrow> nat \<Rightarrow> bool \<Rightarrow> link \<Rightarrow> (recv_result \<times> link) res" where
  "link_receive server k block lk =
     (case lk_inbox lk of
        [] \<Rightarrow> Inr (RecvFailed EAGAIN [], lk)
      | packet # rest \<Rightarrow> Inr (Received (take k packet) server, lk\<lparr>lk_inbox := rest\<rparr>))"

definition broker_link :: "string \<Rightarrow> string \<Rightarrow> bool \<Rightarrow> link network" where
  "broker_link server client dbg =
     \<lparr>nw_socket = (\<lambda>p lk. Inr (True, lk)), nw_bind = (\<lambda>a lk. Inr (True, lk)),
      nw_listen = (\<lambda>lk. Inr (True, lk)), nw_accept = (\<lambda>lk. Inr (True, lk)),
      nw_connect = (\<lambda>a lk. Inr (True, lk)), nw_sendto = link_send server client dbg,
      nw_recvfrom = link_receive server, nw_close = (\<lambda>lk. Inr (False, lk))\<rparr>"

text \<open>Between two calls: nothing is under way, and the broker expects the node's next counter.\<close>

definition link_ok :: "string \<Rightarrow> string \<Rightarrow> 'u node \<Rightarrow> link \<Rightarrow> bool" where
  "link_ok server client n lk \<longleftrightarrow>
     broker_inv (lk_broker lk) \<and> length (lk_buffer lk) = udp_buffer_size \<and> lk_inbox lk = [] \<and>
     br_client_counters (lk_broker lk) client \<in> {None, Some (nd_bp_counter n)} \<and>
     nd_broker_address n = server \<and> length (nd_buffer n) = udp_buffer_size"

text \<open>The broker after it has accepted packet \<open>c\<close> of \<open>client\<close>.\<close>

definition counted :: "string \<Rightarrow> u32 \<Rightarrow> broker \<Rightarrow> broker" where
  "counted client c b = b\<lparr>br_client_counters := (br_client_counters b)(client \<mapsto> c)\<rparr>"

lemma counted_simps [simp]:
  "br_client_counters (counted client c b) = (br_client_counters b)(client \<mapsto> c)"
  "br_nodes (counted client c b) = br_nodes b" "br_message_types (counted client c b) = br_message_types b"
  "br_topics (counted client c b) = br_topics b" "broker_inv (counted client c b) = broker_inv b"
  by (simp_all add: counted_def)

text \<open>No operation on the registries touches the counters.\<close>

lemma operations_keep_counters:
  "register_node client name b = (r1, b') \<Longrightarrow> br_client_counters b' = br_client_counters b"
  "register_message_type name msize b = (r1, b') \<Longrightarrow> br_client_counters b' = br_client_counters b"
  "register_topic name mt prio b = Inr (r2, b') \<Longrightarrow> br_client_counters b' = br_client_counters b"
  "add_publisher i t mt b = Inr (ok, b') \<Longrightarrow> br_client_counters b' = br_client_counters b"
  "add_subscriber i t mt b = Inr (ok, b') \<Longrightarrow> br_client_counters b' = br_client_counters b"
  by (auto simp: register_node_def register_message_type_def register_topic_def add_publisher_def
      add_subscriber_def Let_def split: option.splits if_splits elim!: rbind_InrE)

lemma process_keeps_counters:
  "process_control_request client request b = Inr (response, b') \<Longrightarrow> br_client_counters b' = br_client_counters b"
  by (auto simp: process_control_request_def request_defs split: if_splits prod.splits option.splits
      elim!: rbind_InrE dest!: operations_keep_counters)

section \<open>One call\<close>

lemma write_packet:
  "length packet \<le> length buf \<Longrightarrow> write_at 0 packet buf = Inr (packet @ drop (length packet) buf)"
  by (simp add: write_at_def)

lemma broker_handles_request:
  assumes inv: "broker_inv b" "length buf = udp_buffer_size"
    and c: "br_client_counters b client \<in> {None, Some (c - 1)}"
    and req: "json_ok request" "bp_control_json_to_packet_buffer request c = Inr packet" "length packet \<le> udp_buffer_size"
    and proc: "process_control_request client (json_norm request) (counted client c b) = Inr (response, b')"
    and resp: "bp_control_json_to_packet_buffer response c = Inr answer"
  shows "broker_spin_once mailbox_network dbg (b, buf, \<lparr>mb_inbox = [(packet, client)], mb_sent = []\<rparr>) =
    Inr (True, b', packet @ drop (length packet) buf, \<lparr>mb_inbox = [], mb_sent = [(client, answer)]\<rparr>)"
proof -
  have small: "length packet < 2 ^ 32" using req(3) by (simp add: udp_buffer_size_def)
  have cc: "br_client_counters b' client = Some c" "(br_client_counters b')(client \<mapsto> c) = br_client_counters b'"
    using process_keeps_counters [OF proc] by simp_all
  then have send: "send_control_response mailbox_network client response b' w =
      Inr (True, b', w\<lparr>mb_sent := mb_sent w @ [(client, answer)]\<rparr>)" for w
    using resp by (simp add: send_control_response_def mailbox_network_def Let_def)
  have handle: "handle_packet mailbox_network dbg client (packet @ drop (length packet) buf) (length packet) b w =
      Inr (True, b', w\<lparr>mb_sent := mb_sent w @ [(client, answer)]\<rparr>)" for w
    using verify_accepts [OF c] proc send
    by (simp add: handle_packet_def decode_control_packet [OF req(1,2) small] bp_type_defs counted_def)
  have recv: "nw_recvfrom mailbox_network udp_buffer_size True \<lparr>mb_inbox = [(packet, client)], mb_sent = []\<rparr> =
      Inr (Received packet client, \<lparr>mb_inbox = [], mb_sent = []\<rparr>)"
    using req(3) by (simp add: mailbox_network_def)
  show ?thesis
    using handle write_packet [of packet buf] req(3) inv(2)
    by (simp add: broker_spin_once_def recv)
qed

text \<open>
  The broker of the link is alive and expects the node's next counter; something may wait in the inbox.
  A request that the broker accepts, with its answer, and the broker afterwards.
\<close>

definition link_live :: "string \<Rightarrow> string \<Rightarrow> 'u node \<Rightarrow> link \<Rightarrow> bool" where
  "link_live server client n lk \<longleftrightarrow>
     broker_inv (lk_broker lk) \<and> length (lk_buffer lk) = udp_buffer_size \<and>
     br_client_counters (lk_broker lk) client \<in> {None, Some (nd_bp_counter n)} \<and>
     nd_broker_address n = server \<and> length (nd_buffer n) = udp_buffer_size"

lemma link_ok_live: "link_ok server client n lk \<longleftrightarrow> link_live server client n lk \<and> lk_inbox lk = []"
  by (auto simp: link_ok_def link_live_def)

definition rpc_served :: "string \<Rightarrow> u32 \<Rightarrow> broker \<Rightarrow> json \<Rightarrow> json \<Rightarrow> broker \<Rightarrow> bool" where
  "rpc_served client c b request response b' \<longleftrightarrow>
     json_ok request \<and> text_bound request + 9 \<le> udp_buffer_size \<and>
     process_control_request client (json_norm request) (counted client c b) = Inr (response, b') \<and>
     json_ok response \<and> text_bound response + 9 \<le> udp_buffer_size"

lemma rpc_request_sent:
  assumes link: "link_live server client n lk"
    and served: "rpc_served client (nd_bp_counter n + 1) (lk_broker lk) request response b'"
  shows "\<exists>packet answer buf.
    bp_control_json_to_packet_buffer request (nd_bp_counter n + 1) = Inr packet \<and>
    bp_control_json_to_packet_buffer response (nd_bp_counter n + 1) = Inr answer \<and>
    length answer \<le> udp_buffer_size \<and> answer \<noteq> [] \<and>
    link_send server client dbg server packet lk =
      Inr (True, \<lparr>lk_broker = b', lk_buffer = buf, lk_inbox = lk_inbox lk @ [answer], lk_others = lk_others lk\<rparr>) \<and>
    length buf = udp_buffer_size \<and> broker_inv b' \<and> br_client_counters b' client = Some (nd_bp_counter n + 1)"
proof -
  let ?c = "nd_bp_counter n + 1"
  have req: "json_ok request" "text_bound request + 9 \<le> udp_buffer_size"
    and proc: "process_control_request client (json_norm request) (counted client ?c (lk_broker lk)) = Inr (response, b')"
    and resp: "json_ok response" "text_bound response + 9 \<le> udp_buffer_size"
    using served by (simp_all add: rpc_served_def)
  from control_packet_exists [OF req] obtain packet where
    packet: "bp_control_json_to_packet_buffer request ?c = Inr packet" "length packet \<le> udp_buffer_size" by blast
  from control_packet_exists [OF resp] obtain answer where
    answer: "bp_control_json_to_packet_buffer response ?c = Inr answer" "length answer \<le> udp_buffer_size" by blast
  have nonempty: "answer \<noteq> []" using answer(1) by (auto simp: bp_control_json_to_packet_buffer_def elim!: rbind_InrE)
  have l: "broker_inv (lk_broker lk)" "length (lk_buffer lk) = udp_buffer_size"
    "br_client_counters (lk_broker lk) client \<in> {None, Some (?c - 1)}"
    using link by (simp_all add: link_live_def)
  have "link_send server client dbg server packet lk = Inr (True, \<lparr>lk_broker = b',
      lk_buffer = packet @ drop (length packet) (lk_buffer lk), lk_inbox = lk_inbox lk @ [answer], lk_others = lk_others lk\<rparr>)"
    using broker_handles_request [OF l req(1) packet proc answer(1), of dbg] by (simp add: link_send_def link_serve_def)
  moreover have "broker_inv b'"
    using process_control_request_step_ok [OF proc] l(1) by (simp add: broker_step_ok_def)
  moreover have "br_client_counters b' client = Some ?c" using process_keeps_counters [OF proc] by simp
  ultimately show ?thesis using packet answer nonempty l(2) by auto
qed

text \<open>The node takes the first control packet in its inbox for the answer.\<close>

lemma rpc_reads:
  assumes packet: "bp_control_json_to_packet_buffer request (nd_bp_counter n + 1) = Inr packet"
    and send: "link_send server client dbg server packet lk = Inr (True, lk1)"
    and inbox: "lk_inbox lk1 = answer # rest"
    and answer: "json_ok response" "bp_control_json_to_packet_buffer response c = Inr answer" "length answer \<le> udp_buffer_size"
    and n: "nd_broker_address n = server" "length (nd_buffer n) = udp_buffer_size"
  shows "\<exists>buf. broker_rpc_blocking (broker_link server client dbg) request n lk =
      Inr (json_norm response, n\<lparr>nd_bp_counter := nd_bp_counter n + 1, nd_buffer := buf\<rparr>, lk1\<lparr>lk_inbox := rest\<rparr>) \<and>
    length buf = udp_buffer_size"
proof -
  let ?c = "nd_bp_counter n + 1" and ?nw = "broker_link server client dbg"
  let ?buf = "answer @ drop (length answer) (nd_buffer n)"
  let ?n = "n\<lparr>nd_bp_counter := ?c, nd_buffer := ?buf\<rparr>"
  have small: "length answer < 2 ^ 32" using answer(3) by (simp add: udp_buffer_size_def)
  have nonempty: "answer \<noteq> []" using answer(2) by (auto simp: bp_control_json_to_packet_buffer_def elim!: rbind_InrE)
  have recv: "receive_message ?nw True (n\<lparr>nd_bp_counter := ?c\<rparr>) lk1 =
      Inr (ReceivedPacket (length answer) bp_control
        (decoded_zero\<lparr>dec_header := \<lparr>bph_type = bp_control, bph_counter = c\<rparr>,
           dec_control_header := \<lparr>bpc_size = of_nat (length answer - 9)\<rparr>, dec_json := json_norm response\<rparr>),
        ?n, lk1\<lparr>lk_inbox := rest\<rparr>)"
    using answer(3) n(2) inbox write_packet [of answer "nd_buffer n"]
    by (simp add: receive_message_def broker_link_def link_receive_def decode_control_packet [OF answer(1,2) small]
        bp_type_defs Let_def)
  have sent: "nw_sendto ?nw server packet lk = Inr (True, lk1)" using send by (simp add: broker_link_def)
  have "broker_rpc_blocking ?nw request n lk = Inr (json_norm response, ?n, lk1\<lparr>lk_inbox := rest\<rparr>)"
    using packet recv n(1) nonempty by (simp add: broker_rpc_blocking_def send_control_def next_bp_counter_def sent Let_def)
  with answer(3) n(2) show ?thesis by (intro exI [of _ ?buf]) simp
qed

lemma rpc_answered:
  assumes link: "link_ok server client n lk"
    and served: "rpc_served client (nd_bp_counter n + 1) (lk_broker lk) request response b'"
  shows "\<exists>buf lk'. broker_rpc_blocking (broker_link server client dbg) request n lk =
      Inr (json_norm response, n\<lparr>nd_bp_counter := nd_bp_counter n + 1, nd_buffer := buf\<rparr>, lk') \<and>
    lk_broker lk' = b' \<and> lk_others lk' = lk_others lk \<and>
    link_ok server client (n\<lparr>nd_bp_counter := nd_bp_counter n + 1, nd_buffer := buf\<rparr>) lk'"
proof -
  let ?c = "nd_bp_counter n + 1"
  have live: "link_live server client n lk" and inbox: "lk_inbox lk = []" using link by (simp_all add: link_ok_live)
  from rpc_request_sent [OF live served, of dbg] obtain packet answer lbuf where
    packet: "bp_control_json_to_packet_buffer request ?c = Inr packet"
    and answer: "bp_control_json_to_packet_buffer response ?c = Inr answer" "length answer \<le> udp_buffer_size"
    and send: "link_send server client dbg server packet lk =
      Inr (True, \<lparr>lk_broker = b', lk_buffer = lbuf, lk_inbox = [answer], lk_others = lk_others lk\<rparr>)"
    and after: "length lbuf = udp_buffer_size" "broker_inv b'" "br_client_counters b' client = Some ?c"
    by (auto simp: inbox)
  have n: "nd_broker_address n = server" "length (nd_buffer n) = udp_buffer_size" using link by (simp_all add: link_ok_def)
  have resp: "json_ok response" using served by (simp add: rpc_served_def)
  from rpc_reads [OF packet send _ resp answer n, of "[]"] obtain buf where
    "broker_rpc_blocking (broker_link server client dbg) request n lk = Inr (json_norm response,
      n\<lparr>nd_bp_counter := ?c, nd_buffer := buf\<rparr>, \<lparr>lk_broker = b', lk_buffer = lbuf, lk_inbox = [], lk_others = lk_others lk\<rparr>)"
    "length buf = udp_buffer_size" by auto
  with n(1) after show ?thesis
    by (intro exI [of _ buf] exI [of _ "\<lparr>lk_broker = b', lk_buffer = lbuf, lk_inbox = [], lk_others = lk_others lk\<rparr>"])
       (simp add: link_ok_def)
qed

text \<open>An answer that has been left in the inbox is taken for the answer to the next request, whose own answer is left.\<close>

definition left_over :: "json \<Rightarrow> byte list \<Rightarrow> bool" where
  "left_over response packet \<longleftrightarrow>
     json_ok response \<and> length packet \<le> udp_buffer_size \<and> (\<exists>c. bp_control_json_to_packet_buffer response c = Inr packet)"

lemma rpc_stale:
  assumes live: "link_live server client n lk" and inbox: "lk_inbox lk = a # as" and old: "left_over old_response a"
    and served: "rpc_served client (nd_bp_counter n + 1) (lk_broker lk) request response b'"
  shows "\<exists>buf lk' answer. broker_rpc_blocking (broker_link server client dbg) request n lk =
      Inr (json_norm old_response, n\<lparr>nd_bp_counter := nd_bp_counter n + 1, nd_buffer := buf\<rparr>, lk') \<and>
    lk_broker lk' = b' \<and> lk_others lk' = lk_others lk \<and> lk_inbox lk' = as @ [answer] \<and> left_over response answer \<and>
    link_live server client (n\<lparr>nd_bp_counter := nd_bp_counter n + 1, nd_buffer := buf\<rparr>) lk'"
proof -
  let ?c = "nd_bp_counter n + 1"
  from rpc_request_sent [OF live served, of dbg] obtain packet answer lbuf where
    packet: "bp_control_json_to_packet_buffer request ?c = Inr packet"
    and answer: "bp_control_json_to_packet_buffer response ?c = Inr answer" "length answer \<le> udp_buffer_size"
    and send: "link_send server client dbg server packet lk =
      Inr (True, \<lparr>lk_broker = b', lk_buffer = lbuf, lk_inbox = a # as @ [answer], lk_others = lk_others lk\<rparr>)"
    and after: "length lbuf = udp_buffer_size" "broker_inv b'" "br_client_counters b' client = Some ?c"
    by (auto simp: inbox)
  have n: "nd_broker_address n = server" "length (nd_buffer n) = udp_buffer_size" using live by (simp_all add: link_live_def)
  have new: "left_over response answer" using served answer unfolding left_over_def rpc_served_def by blast
  from old obtain c where c: "json_ok old_response" "bp_control_json_to_packet_buffer old_response c = Inr a"
    "length a \<le> udp_buffer_size" unfolding left_over_def by blast
  from rpc_reads [OF packet send _ c n, of "as @ [answer]"] obtain buf where
    "broker_rpc_blocking (broker_link server client dbg) request n lk = Inr (json_norm old_response,
      n\<lparr>nd_bp_counter := ?c, nd_buffer := buf\<rparr>,
      \<lparr>lk_broker = b', lk_buffer = lbuf, lk_inbox = as @ [answer], lk_others = lk_others lk\<rparr>)"
    "length buf = udp_buffer_size" by auto
  with n(1) after new show ?thesis
    by (intro exI [of _ buf] exI [of _ "\<lparr>lk_broker = b', lk_buffer = lbuf, lk_inbox = as @ [answer], lk_others = lk_others lk\<rparr>"]
        exI [of _ answer]) (simp add: link_live_def)
qed

text \<open>
  With a data packet waiting in front of the answer, the broker still does what it was asked for, but
  the node takes the data packet for the answer and gives up.
\<close>

lemma receive_data_first:
  assumes "take 1 p = [bp_data]" and "length (nd_buffer n) = udp_buffer_size" and "lk_inbox lk = p # ps"
  shows "\<exists>outcome buf. receive_message (broker_link server client dbg) True n lk =
      Inr (outcome, n\<lparr>nd_buffer := buf\<rparr>, lk\<lparr>lk_inbox := ps\<rparr>) \<and> length buf = udp_buffer_size \<and>
    (\<forall>len ty d. outcome = ReceivedPacket len ty d \<longrightarrow> ty \<noteq> bp_control)"
proof -
  let ?p = "take udp_buffer_size p"
  let ?buf = "?p @ drop (length ?p) (nd_buffer n)"
  have len: "length ?buf = udp_buffer_size" using assms(2) by simp
  have first: "?buf ! 0 = bp_data" "at ?buf 0 = Inr bp_data"
    using assms(1) by (cases p; simp add: udp_buffer_size_def at_def)+
  from decode_not_control [of ?buf "length ?p"] len first(1) obtain ty d where
    d: "decode_packet_buffer ?buf (length ?p) = Inr (ty, d)"
    by (auto simp: udp_buffer_size_def bp_type_defs)
  have "ty \<noteq> bp_control"
    using d first(2) by (auto simp: decode_packet_buffer_def decode_data_def bp_type_defs Let_def split: if_splits elim!: rbind_InrE)
  have store: "write_at 0 ?p (nd_buffer n) = Inr ?buf" using write_packet [of ?p "nd_buffer n"] assms(2) by simp
  have next_packet: "nw_recvfrom (broker_link server client dbg) udp_buffer_size True lk =
      Inr (Received ?p server, lk\<lparr>lk_inbox := ps\<rparr>)"
    using assms(3) by (simp add: broker_link_def link_receive_def)
  have "receive_message (broker_link server client dbg) True n lk =
      Inr (if ty = bp_invalid then ReceiveError else ReceivedPacket (length ?p) ty d, n\<lparr>nd_buffer := ?buf\<rparr>, lk\<lparr>lk_inbox := ps\<rparr>)"
    unfolding receive_message_def next_packet by (simp only: rbind_Inr prod.case recv_result.case store Let_def d if_distrib)
       simp
  with \<open>ty \<noteq> bp_control\<close> len show ?thesis by (intro exI conjI) (assumption, simp_all split: if_splits)
qed

lemma rpc_preempted:
  assumes live: "link_live server client n lk" and inbox: "lk_inbox lk = p # ps" "take 1 p = [bp_data]"
    and served: "rpc_served client (nd_bp_counter n + 1) (lk_broker lk) request response b'"
  shows "\<exists>buf lk'. broker_rpc_blocking (broker_link server client dbg) request n lk =
      Inr (JNull, n\<lparr>nd_bp_counter := nd_bp_counter n + 1, nd_buffer := buf\<rparr>, lk') \<and>
    lk_broker lk' = b' \<and> lk_others lk' = lk_others lk \<and> (\<exists>answer. lk_inbox lk' = ps @ [answer] \<and> left_over response answer) \<and>
    link_live server client (n\<lparr>nd_bp_counter := nd_bp_counter n + 1, nd_buffer := buf\<rparr>) lk'"
proof -
  let ?c = "nd_bp_counter n + 1" and ?nw = "broker_link server client dbg"
  from rpc_request_sent [OF live served, of dbg] obtain packet answer lbuf where
    packet: "bp_control_json_to_packet_buffer request ?c = Inr packet"
    and answer: "bp_control_json_to_packet_buffer response ?c = Inr answer" "length answer \<le> udp_buffer_size"
    and send: "link_send server client dbg server packet lk =
      Inr (True, \<lparr>lk_broker = b', lk_buffer = lbuf, lk_inbox = p # ps @ [answer], lk_others = lk_others lk\<rparr>)"
    and after: "length lbuf = udp_buffer_size" "broker_inv b'" "br_client_counters b' client = Some ?c"
    by (auto simp: inbox)
  have l: "nd_broker_address n = server" "length (nd_buffer n) = udp_buffer_size" using live by (simp_all add: link_live_def)
  let ?n = "n\<lparr>nd_bp_counter := ?c\<rparr>"
  let ?lk = "\<lparr>lk_broker = b', lk_buffer = lbuf, lk_inbox = p # ps @ [answer], lk_others = lk_others lk\<rparr>"
  have len: "length (nd_buffer ?n) = udp_buffer_size" and first: "lk_inbox ?lk = p # ps @ [answer]" using l(2) by simp_all
  from receive_data_first [OF inbox(2) len first, of server client dbg] obtain outcome buf where
    recv: "receive_message ?nw True ?n ?lk = Inr (outcome, ?n\<lparr>nd_buffer := buf\<rparr>, ?lk\<lparr>lk_inbox := ps @ [answer]\<rparr>)"
      "length buf = udp_buffer_size" "\<And>len ty d. outcome = ReceivedPacket len ty d \<Longrightarrow> ty \<noteq> bp_control"
    by blast
  have sent: "send_control ?nw request n lk = Inr (True, ?n, ?lk)"
    using packet send l(1) by (simp add: send_control_def next_bp_counter_def Let_def) (simp add: broker_link_def)
  have "broker_rpc_blocking ?nw request n lk = Inr (JNull, ?n\<lparr>nd_buffer := buf\<rparr>, ?lk\<lparr>lk_inbox := ps @ [answer]\<rparr>)"
    using recv(1,3) by (cases outcome) (simp_all add: broker_rpc_blocking_def sent)
  moreover have "link_live server client (?n\<lparr>nd_buffer := buf\<rparr>) (?lk\<lparr>lk_inbox := ps @ [answer]\<rparr>)"
    using l after recv(2) by (simp add: link_live_def)
  moreover have "left_over response answer" using served answer unfolding left_over_def rpc_served_def by blast
  ultimately show ?thesis
    by (intro exI [of _ buf] exI [of _ "?lk\<lparr>lk_inbox := ps @ [answer]\<rparr>"]) simp
qed

end
