(* ===== verification/Rpc_Calls.thy ===== *)
theory Rpc_Calls
  imports Rpc_Link
begin

text \<open>
  Each remote procedure of the node, over the link to a running broker: the JSON request the node
  builds, what the broker makes of it, the answer, and what the node reads from it. The call returns
  what the operation of the broker of the same name returns.
\<close>

section \<open>The requests of the node, as the broker reads them\<close>

lemma request_shapes:
  "build_request ''node'' ''register'' c [(''name'', name)] =
     Inr (JObject [(''node'', JObject [(''action'', JString ''register''), (''params'', JObject [(''name'', name)])]),
       (''rpc_id'', json_of_unsigned c), (''scope'', JString ''node'')])"
  "build_request ''message'' ''register'' c [(''name'', name), (''size'', msize)] =
     Inr (JObject [(''message'', JObject [(''action'', JString ''register''),
         (''params'', JObject [(''name'', name), (''size'', msize)])]),
       (''rpc_id'', json_of_unsigned c), (''scope'', JString ''message'')])"
  "build_request ''topic'' ''register'' c [(''name'', name), (''message_type_id'', mt), (''priority'', prio)] =
     Inr (JObject [(''rpc_id'', json_of_unsigned c), (''scope'', JString ''topic''),
       (''topic'', JObject [(''action'', JString ''register''),
         (''params'', JObject [(''message_type_id'', mt), (''name'', name), (''priority'', prio)])])])"
  "build_request ''topic'' action c [(''node_id'', i), (''topic_id'', t), (''message_type_id'', mt)] =
     Inr (JObject [(''rpc_id'', json_of_unsigned c), (''scope'', JString ''topic''),
       (''topic'', JObject [(''action'', JString action),
         (''params'', JObject [(''message_type_id'', mt), (''node_id'', i), (''topic_id'', t)])])])"
  by (simp_all add: build_request_def request_literal_def)

lemma json_norm_unsigned [simp]: "json_norm (json_of_unsigned w) = json_of_unsigned w"
  by (simp add: json_of_unsigned_def)

lemma json_to_word_norm [simp]: "json_to_word (json_norm j) = json_to_word j"
  by (cases j) (simp_all add: json_to_word_def)

lemma json_to_bool_norm [simp]: "json_to_bool (json_norm j) = json_to_bool j"
  by (cases j) (simp_all add: json_to_bool_def)

lemma json_ok_numbers [simp]: "json_ok (json_of_unsigned w)" "json_ok (json_of_signed v)"
  by (simp_all add: json_of_unsigned_def json_of_signed_def)

lemma text_bound_numbers [simp]: "text_bound (json_of_unsigned w) = 20" "text_bound (json_of_signed v) = 21"
  by (simp_all add: json_of_unsigned_def json_of_signed_def)

lemma rpc_success_object:
  "map_of m ''success'' = Some (JBool v) \<Longrightarrow> rpc_success (JObject m) = Inr v"
  by (cases m) (auto simp: rpc_success_def json_empty_def)

definition short :: "string \<Rightarrow> bool" where
  "short s \<longleftrightarrow> ascii s \<and> length s \<le> 10000"

section \<open>The answers of the broker\<close>

definition failure_answer :: "u32 \<Rightarrow> string \<Rightarrow> json" where
  "failure_answer rpc_id message =
     JObject [(''error_code'', json_of_signed (0 :: u32)), (''error_message'', JString message),
              (''rpc_id'', json_of_signed rpc_id), (''success'', JBool False)]"

lemma answer_failure_rpc:
  "json_at request ''rpc_id'' = Inr (json_of_unsigned c) \<Longrightarrow>
   answer_failure request message = Inr (failure_answer c message)"
  by (simp add: answer_failure_def rpc_failure_response_def failure_answer_def)

lemma failure_answer_read:
  "rpc_success (json_norm (failure_answer c message)) = Inr False"
  "ascii message \<Longrightarrow> json_ok (failure_answer c message)"
  "length message \<le> 100 \<Longrightarrow> text_bound (failure_answer c message) + 9 \<le> udp_buffer_size"
  by (simp_all add: failure_answer_def rpc_success_def json_empty_def obj_sorted_def udp_buffer_size_def)

lemma node_request_processed:
  assumes "build_request ''node'' ''register'' c [(''name'', JString name)] = Inr request"
  shows "json_ok request \<longleftrightarrow> ascii name"
    and "text_bound request \<le> 6 * length name + 600"
    and "process_control_request client (json_norm request) b =
      (case register_node client name b of
         (None, b1) \<Rightarrow> Inr (failure_answer c ''Failed to register node'', b1)
       | (Some i, b1) \<Rightarrow> Inr (JObject [(''node_id'', json_of_unsigned i), (''rpc_id'', json_of_unsigned c),
                                        (''success'', JBool True)], b1))"
  using assms
  by (auto simp: request_shapes obj_sorted_def process_control_request_def request_register_node_def
      param_string_def answer_success_def answer_failure_rpc split: prod.splits option.splits)

lemma message_type_request_processed:
  assumes "build_request ''message'' ''register'' c [(''name'', JString name), (''size'', json_of_unsigned (msize :: u32))] =
    Inr request"
  shows "json_ok request \<longleftrightarrow> ascii name"
    and "text_bound request \<le> 6 * length name + 600"
    and "process_control_request client (json_norm request) b =
      (case register_message_type name msize b of
         (None, b1) \<Rightarrow> Inr (failure_answer c ''Failed to register message type'', b1)
       | (Some i, b1) \<Rightarrow> Inr (JObject [(''message_type_id'', json_of_unsigned i), (''rpc_id'', json_of_unsigned c),
                                        (''success'', JBool True)], b1))"
  using assms
  by (auto simp: request_shapes obj_sorted_def process_control_request_def request_register_message_type_def
      param_string_def param_word_def answer_success_def answer_failure_rpc split: prod.splits option.splits)

lemma topic_request_processed:
  assumes "build_request ''topic'' ''register'' c
      [(''name'', JString name), (''message_type_id'', json_of_unsigned (mt :: u32)), (''priority'', json_of_signed (prio :: i8))] =
    Inr request"
  shows "json_ok request \<longleftrightarrow> ascii name"
    and "text_bound request \<le> 6 * length name + 600"
    and "process_control_request client (json_norm request) b =
      rbind (register_topic name mt prio b) (\<lambda>(r, b1).
      case r of
        None \<Rightarrow> Inr (failure_answer c ''Failed to register topic'', b1)
      | Some (i, actual) \<Rightarrow>
          Inr (JObject [(''rpc_id'', json_of_unsigned c), (''success'', JBool True),
                        (''topic_id'', json_of_unsigned i), (''topic_priority'', json_of_signed actual)], b1))"
  using assms
  by (auto simp: request_shapes obj_sorted_def process_control_request_def request_register_topic_def
      param_string_def param_word_def answer_success_def answer_failure_rpc split_def
      intro!: rbind_cong split: prod.splits option.splits)

lemma pubsub_request_processed:
  assumes "build_request ''topic'' action c
      [(''node_id'', json_of_unsigned (i :: u32)), (''topic_id'', json_of_unsigned (t :: u32)),
       (''message_type_id'', json_of_unsigned (mt :: u32))] = Inr request"
  shows "json_ok request \<longleftrightarrow> ascii action"
    and "text_bound request \<le> 6 * length action + 600"
    and "action = ''add_publisher'' \<Longrightarrow> process_control_request client (json_norm request) b =
      rbind (add_publisher i t mt b) (\<lambda>(ok, b1).
      Inr (if ok then JObject [(''rpc_id'', json_of_unsigned c), (''success'', JBool True)]
           else failure_answer c ''Failed to add publisher'', b1))"
    and "action = ''add_subscriber'' \<Longrightarrow> process_control_request client (json_norm request) b =
      rbind (add_subscriber i t mt b) (\<lambda>(ok, b1).
      Inr (if ok then JObject [(''rpc_id'', json_of_unsigned c), (''success'', JBool True)]
           else failure_answer c ''Failed to add subscriber'', b1))"
  using assms
  by (auto simp: request_shapes obj_sorted_def process_control_request_def request_add_publisher_def
      request_add_subscriber_def param_word_def answer_success_def answer_failure_rpc
      intro!: rbind_cong split: prod.splits)

text \<open>
  The broker serves each of the four requests, whatever its operation answers; what the node reads from
  the answer is the result of that operation.
\<close>

lemma serves_register_node:
  assumes name: "short name" and broker: "register_node client name (counted client c b) = (r, b')"
  shows "\<exists>request response. build_request ''node'' ''register'' i [(''name'', JString name)] = Inr request \<and>
    rpc_served client c b request response b' \<and> rpc_success (json_norm response) = Inr (r \<noteq> None) \<and>
    (\<forall>j. r = Some j \<longrightarrow> rpc_number (json_norm response) ''node_id'' = Inr j)"
proof -
  obtain request where request: "build_request ''node'' ''register'' i [(''name'', JString name)] = Inr request"
    by (simp add: request_shapes)
  note rq = node_request_processed [OF request]
  define response where "response = (case r of None \<Rightarrow> failure_answer i ''Failed to register node''
     | Some j \<Rightarrow> JObject [(''node_id'', json_of_unsigned j), (''rpc_id'', json_of_unsigned i), (''success'', JBool True)])"
  have "rpc_served client c b request response b'"
    using rq name broker
    by (cases r) (auto simp: rpc_served_def response_def short_def udp_buffer_size_def failure_answer_def obj_sorted_def)
  moreover have "rpc_success (json_norm response) = Inr (r \<noteq> None)"
    by (cases r) (simp_all add: response_def failure_answer_def rpc_success_object)
  moreover have "r = Some j \<Longrightarrow> rpc_number (json_norm response) ''node_id'' = Inr j" for j
    by (simp add: response_def rpc_number_def)
  ultimately show ?thesis using request by blast
qed

lemma serves_register_message_type:
  assumes name: "short name" and broker: "register_message_type name msize (counted client c b) = (r, b')"
  shows "\<exists>request response. build_request ''message'' ''register'' i
      [(''name'', JString name), (''size'', json_of_unsigned msize)] = Inr request \<and>
    rpc_served client c b request response b' \<and> rpc_success (json_norm response) = Inr (r \<noteq> None) \<and>
    (\<forall>j. r = Some j \<longrightarrow> rpc_number (json_norm response) ''message_type_id'' = Inr j)"
proof -
  obtain request where request: "build_request ''message'' ''register'' i
      [(''name'', JString name), (''size'', json_of_unsigned msize)] = Inr request"
    by (simp add: request_shapes)
  note rq = message_type_request_processed [OF request]
  define response where "response = (case r of None \<Rightarrow> failure_answer i ''Failed to register message type''
     | Some j \<Rightarrow> JObject [(''message_type_id'', json_of_unsigned j), (''rpc_id'', json_of_unsigned i), (''success'', JBool True)])"
  have "rpc_served client c b request response b'"
    using rq name broker
    by (cases r) (auto simp: rpc_served_def response_def short_def udp_buffer_size_def failure_answer_def obj_sorted_def)
  moreover have "rpc_success (json_norm response) = Inr (r \<noteq> None)"
    by (cases r) (simp_all add: response_def failure_answer_def rpc_success_object)
  moreover have "r = Some j \<Longrightarrow> rpc_number (json_norm response) ''message_type_id'' = Inr j" for j
    by (simp add: response_def rpc_number_def)
  ultimately show ?thesis using request by blast
qed

lemma serves_register_topic:
  assumes name: "short name" and broker: "register_topic name mt prio (counted client c b) = Inr (r, b')"
  shows "\<exists>request response. build_request ''topic'' ''register'' i
      [(''name'', JString name), (''message_type_id'', json_of_unsigned mt), (''priority'', json_of_signed prio)] = Inr request \<and>
    rpc_served client c b request response b' \<and> rpc_success (json_norm response) = Inr (r \<noteq> None) \<and>
    (\<forall>t p. r = Some (t, p) \<longrightarrow> rpc_number (json_norm response) ''topic_id'' = Inr t \<and>
      rpc_number (json_norm response) ''topic_priority'' = Inr p)"
proof -
  obtain request where request: "build_request ''topic'' ''register'' i
      [(''name'', JString name), (''message_type_id'', json_of_unsigned mt), (''priority'', json_of_signed prio)] = Inr request"
    by (simp add: request_shapes)
  note rq = topic_request_processed [OF request]
  define response where "response = (case r of None \<Rightarrow> failure_answer i ''Failed to register topic''
     | Some (t, actual) \<Rightarrow> JObject [(''rpc_id'', json_of_unsigned i), (''success'', JBool True),
                        (''topic_id'', json_of_unsigned t), (''topic_priority'', json_of_signed actual)])"
  have "rpc_served client c b request response b'"
    using rq name broker
    by (cases r) (auto simp: rpc_served_def response_def short_def udp_buffer_size_def failure_answer_def obj_sorted_def)
  moreover have "rpc_success (json_norm response) = Inr (r \<noteq> None)"
    by (cases r) (auto simp: response_def failure_answer_def rpc_success_object)
  moreover have "r = Some (t, p) \<Longrightarrow> rpc_number (json_norm response) ''topic_id'' = Inr t \<and>
      rpc_number (json_norm response) ''topic_priority'' = Inr p" for t p
    by (simp add: response_def rpc_number_def)
  ultimately show ?thesis using request by blast
qed

lemma serves_add_pubsub:
  assumes broker: "(action, add) = (''add_publisher'', add_publisher) \<or> (action, add) = (''add_subscriber'', add_subscriber)"
      "add j t mt (counted client c b) = Inr (ok, b')"
  shows "\<exists>request response. build_request ''topic'' action i
      [(''node_id'', json_of_unsigned (j :: u32)), (''topic_id'', json_of_unsigned (t :: u32)),
       (''message_type_id'', json_of_unsigned (mt :: u32))] = Inr request \<and>
    rpc_served client c b request response b' \<and> rpc_success (json_norm response) = Inr ok"
proof -
  obtain request where request: "build_request ''topic'' action i
      [(''node_id'', json_of_unsigned j), (''topic_id'', json_of_unsigned t), (''message_type_id'', json_of_unsigned mt)] =
      Inr request"
    by (simp add: request_shapes)
  note rq = pubsub_request_processed [OF request]
  define message where "message = (if action = ''add_publisher'' then ''Failed to add publisher'' else ''Failed to add subscriber'')"
  have message: "ascii message" "length message \<le> 100" by (simp_all add: message_def)
  define response where "response = (if ok then JObject [(''rpc_id'', json_of_unsigned i), (''success'', JBool True)]
     else failure_answer i message)"
  have req: "json_ok request" "text_bound request + 9 \<le> udp_buffer_size"
    using rq(1,2) broker(1) by (auto simp: udp_buffer_size_def)
  have resp: "json_ok response" "text_bound response + 9 \<le> udp_buffer_size"
    using message by (cases ok; simp add: response_def failure_answer_def obj_sorted_def udp_buffer_size_def)+
  have "process_control_request client (json_norm request) (counted client c b) = Inr (response, b')"
    using broker by (elim disjE; simp add: rq(3,4) response_def message_def)
  with req resp have "rpc_served client c b request response b'" by (simp add: rpc_served_def)
  moreover have "rpc_success (json_norm response) = Inr ok"
    by (cases ok) (simp_all add: response_def failure_answer_def rpc_success_object)
  ultimately show ?thesis using request by blast
qed

section \<open>The calls\<close>

text \<open>
  What a call does to the node: the counter advances, the answer is left in the buffer, and nothing
  else but possibly the ID changes.
\<close>

definition after_call :: "u32 \<Rightarrow> byte list \<Rightarrow> 'u node \<Rightarrow> 'u node" where
  "after_call i buf n = n\<lparr>nd_node_id := i, nd_bp_counter := nd_bp_counter n + 1, nd_buffer := buf\<rparr>"

lemma after_call_same:
  "n\<lparr>nd_bp_counter := nd_bp_counter n + 1, nd_buffer := buf\<rparr> = after_call (nd_node_id n) buf n"
  "after_call i buf n\<lparr>nd_node_id := j\<rparr> = after_call j buf n"
  "link_ok server client (after_call i buf n) lk = link_ok server client (after_call j buf n) lk"
  "link_live server client (after_call i buf n) lk = link_live server client (after_call j buf n) lk"
  by (simp_all add: after_call_def link_ok_def link_live_def)

lemmas rpc_answered' = rpc_answered [unfolded after_call_same(1)]
lemmas rpc_preempted' = rpc_preempted [unfolded after_call_same(1)]

lemma node_register_node_linked:
  assumes link: "link_ok server client n lk" and name: "short (nd_name n)"
    and broker: "register_node client (nd_name n) (counted client (nd_bp_counter n + 1) (lk_broker lk)) = (r, b')"
  shows "\<exists>buf lk'. node_register_node (broker_link server client dbg) n lk =
      Inr (r \<noteq> None, after_call (case r of None \<Rightarrow> nd_node_id n | Some i \<Rightarrow> i) buf n, lk') \<and>
    lk_broker lk' = b' \<and> lk_others lk' = lk_others lk \<and> link_ok server client (after_call (nd_node_id n) buf n) lk'"
proof -
  from serves_register_node [OF name broker, of "nd_bp_counter n"] obtain request response where
    request: "build_request ''node'' ''register'' (nd_bp_counter n) [(''name'', JString (nd_name n))] = Inr request"
    "rpc_served client (nd_bp_counter n + 1) (lk_broker lk) request response b'"
    "rpc_success (json_norm response) = Inr (r \<noteq> None)"
    "\<forall>j. r = Some j \<longrightarrow> rpc_number (json_norm response) ''node_id'' = Inr j" by blast
  from rpc_answered' [OF link request(2), of dbg] request(1,3,4) show ?thesis
    by (cases r) (fastforce simp: node_register_node_def node_rpc_id_def after_call_same(2))+
qed

lemma node_register_message_type_linked:
  assumes link: "link_ok server client n lk" and name: "short name"
    and broker: "register_message_type name msize (counted client (nd_bp_counter n + 1) (lk_broker lk)) = (r, b')"
  shows "\<exists>buf lk'. node_register_message_type (broker_link server client dbg) name msize n lk =
      Inr (r, after_call (nd_node_id n) buf n, lk') \<and>
    lk_broker lk' = b' \<and> lk_others lk' = lk_others lk \<and> link_ok server client (after_call (nd_node_id n) buf n) lk'"
proof -
  from serves_register_message_type [OF name broker, of "nd_bp_counter n"] obtain request response where
    request: "build_request ''message'' ''register'' (nd_bp_counter n) [(''name'', JString name), (''size'', json_of_unsigned msize)] = Inr request"
    "rpc_served client (nd_bp_counter n + 1) (lk_broker lk) request response b'"
    "rpc_success (json_norm response) = Inr (r \<noteq> None)"
    "\<forall>j. r = Some j \<longrightarrow> rpc_number (json_norm response) ''message_type_id'' = Inr j" by blast
  from rpc_answered' [OF link request(2), of dbg] request(1,3,4) show ?thesis
    by (cases r) (fastforce simp: node_register_message_type_def node_rpc_id_def)+
qed

lemma node_register_topic_linked:
  assumes link: "link_ok server client n lk" and name: "short name"
    and broker: "register_topic name mt prio (counted client (nd_bp_counter n + 1) (lk_broker lk)) = Inr (r, b')"
  shows "\<exists>buf lk'. node_register_topic (broker_link server client dbg) name mt prio want_actual n lk =
      Inr (map_option (\<lambda>(t, actual). (t, if want_actual then actual else prio)) r, after_call (nd_node_id n) buf n, lk') \<and>
    lk_broker lk' = b' \<and> lk_others lk' = lk_others lk \<and> link_ok server client (after_call (nd_node_id n) buf n) lk'"
proof -
  from serves_register_topic [OF name broker, of "nd_bp_counter n"] obtain request response where
    request: "build_request ''topic'' ''register'' (nd_bp_counter n)
      [(''name'', JString name), (''message_type_id'', json_of_unsigned mt), (''priority'', json_of_signed prio)] = Inr request"
    "rpc_served client (nd_bp_counter n + 1) (lk_broker lk) request response b'"
    "rpc_success (json_norm response) = Inr (r \<noteq> None)"
    "\<forall>t p. r = Some (t, p) \<longrightarrow> rpc_number (json_norm response) ''topic_id'' = Inr t \<and>
      rpc_number (json_norm response) ''topic_priority'' = Inr p" by blast
  from rpc_answered' [OF link request(2), of dbg] request(1,3,4) show ?thesis
    by (cases r) (fastforce simp: node_register_topic_def node_rpc_id_def)+
qed

lemma node_add_pubsub_linked:
  assumes link: "link_ok server client n lk"
    and broker: "(action, add) = (''add_publisher'', add_publisher) \<or> (action, add) = (''add_subscriber'', add_subscriber)"
      "add (nd_node_id n) t mt (counted client (nd_bp_counter n + 1) (lk_broker lk)) = Inr (ok, b')"
  shows "\<exists>buf lk'. node_add_pubsub (broker_link server client dbg) action t mt n lk =
      Inr (ok, after_call (nd_node_id n) buf n, lk') \<and>
    lk_broker lk' = b' \<and> lk_others lk' = lk_others lk \<and> link_ok server client (after_call (nd_node_id n) buf n) lk'"
proof -
  from serves_add_pubsub [OF broker, of "nd_bp_counter n"] obtain request response where
    request: "build_request ''topic'' action (nd_bp_counter n)
      [(''node_id'', json_of_unsigned (nd_node_id n)), (''topic_id'', json_of_unsigned t),
       (''message_type_id'', json_of_unsigned mt)] = Inr request"
    "rpc_served client (nd_bp_counter n + 1) (lk_broker lk) request response b'"
    "rpc_success (json_norm response) = Inr ok" by blast
  from rpc_answered' [OF link request(2), of dbg] request(1,3) show ?thesis
    by (fastforce simp: node_add_pubsub_def node_rpc_id_def)
qed

text \<open>
  With a data packet in front of the answer, the operation is carried out all the same, and the node
  is told that it failed.
\<close>

lemma rpc_success_null [simp]: "rpc_success JNull = Inr False"
  by (simp add: rpc_success_def json_empty_def)

lemma calls_preempted:
  assumes live: "link_live server client n lk" and inbox: "lk_inbox lk = p # ps" "take 1 p = [bp_data]"
  shows "short (nd_name n) \<Longrightarrow>
      register_node client (nd_name n) (counted client (nd_bp_counter n + 1) (lk_broker lk)) = (r1, b') \<Longrightarrow>
      \<exists>buf lk'. node_register_node (broker_link server client dbg) n lk = Inr (False, after_call (nd_node_id n) buf n, lk') \<and>
        lk_broker lk' = b' \<and> lk_others lk' = lk_others lk \<and> link_live server client (after_call (nd_node_id n) buf n) lk'"
    and "short name \<Longrightarrow>
      register_message_type name msize (counted client (nd_bp_counter n + 1) (lk_broker lk)) = (r2, b') \<Longrightarrow>
      \<exists>buf lk'. node_register_message_type (broker_link server client dbg) name msize n lk =
          Inr (None, after_call (nd_node_id n) buf n, lk') \<and>
        lk_broker lk' = b' \<and> lk_others lk' = lk_others lk \<and> link_live server client (after_call (nd_node_id n) buf n) lk'"
    and "short name \<Longrightarrow>
      register_topic name mt prio (counted client (nd_bp_counter n + 1) (lk_broker lk)) = Inr (r3, b') \<Longrightarrow>
      \<exists>buf lk'. node_register_topic (broker_link server client dbg) name mt prio want n lk =
          Inr (None, after_call (nd_node_id n) buf n, lk') \<and>
        lk_broker lk' = b' \<and> lk_others lk' = lk_others lk \<and> link_live server client (after_call (nd_node_id n) buf n) lk'"
    and "(action, add) = (''add_publisher'', add_publisher) \<or> (action, add) = (''add_subscriber'', add_subscriber) \<Longrightarrow>
      add (nd_node_id n) t mt (counted client (nd_bp_counter n + 1) (lk_broker lk)) = Inr (ok, b') \<Longrightarrow>
      \<exists>buf lk'. node_add_pubsub (broker_link server client dbg) action t mt n lk =
          Inr (False, after_call (nd_node_id n) buf n, lk') \<and>
        lk_broker lk' = b' \<and> lk_others lk' = lk_others lk \<and> link_live server client (after_call (nd_node_id n) buf n) lk'"
proof -
  note null = rpc_preempted' [OF live inbox]
  show "\<exists>buf lk'. node_register_node (broker_link server client dbg) n lk = Inr (False, after_call (nd_node_id n) buf n, lk') \<and>
      lk_broker lk' = b' \<and> lk_others lk' = lk_others lk \<and> link_live server client (after_call (nd_node_id n) buf n) lk'"
    if "short (nd_name n)" "register_node client (nd_name n) (counted client (nd_bp_counter n + 1) (lk_broker lk)) = (r1, b')"
    using serves_register_node [OF that, of "nd_bp_counter n"] null [where dbg = dbg]
    by (fastforce simp: node_register_node_def node_rpc_id_def)
  show "\<exists>buf lk'. node_register_message_type (broker_link server client dbg) name msize n lk =
        Inr (None, after_call (nd_node_id n) buf n, lk') \<and>
      lk_broker lk' = b' \<and> lk_others lk' = lk_others lk \<and> link_live server client (after_call (nd_node_id n) buf n) lk'"
    if "short name" "register_message_type name msize (counted client (nd_bp_counter n + 1) (lk_broker lk)) = (r2, b')"
    using serves_register_message_type [OF that, of "nd_bp_counter n"] null [where dbg = dbg]
    by (fastforce simp: node_register_message_type_def node_rpc_id_def)
  show "\<exists>buf lk'. node_register_topic (broker_link server client dbg) name mt prio want n lk =
        Inr (None, after_call (nd_node_id n) buf n, lk') \<and>
      lk_broker lk' = b' \<and> lk_others lk' = lk_others lk \<and> link_live server client (after_call (nd_node_id n) buf n) lk'"
    if "short name" "register_topic name mt prio (counted client (nd_bp_counter n + 1) (lk_broker lk)) = Inr (r3, b')"
    using serves_register_topic [OF that, of "nd_bp_counter n"] null [where dbg = dbg]
    by (fastforce simp: node_register_topic_def node_rpc_id_def)
  show "\<exists>buf lk'. node_add_pubsub (broker_link server client dbg) action t mt n lk =
        Inr (False, after_call (nd_node_id n) buf n, lk') \<and>
      lk_broker lk' = b' \<and> lk_others lk' = lk_others lk \<and> link_live server client (after_call (nd_node_id n) buf n) lk'"
    if "(action, add) = (''add_publisher'', add_publisher) \<or> (action, add) = (''add_subscriber'', add_subscriber)"
      "add (nd_node_id n) t mt (counted client (nd_bp_counter n + 1) (lk_broker lk)) = Inr (ok, b')"
    using serves_add_pubsub [OF that, of "nd_bp_counter n"] null [where dbg = dbg]
    by (fastforce simp: node_add_pubsub_def node_rpc_id_def)
qed

end
