(* ===== verification/Agreement.thy ===== *)
theory Agreement
  imports Rpc_Calls
begin

text \<open>
  What it means that a node and the broker agree. First what each operation of the broker promises to the
  one who calls it, then what the broker knows of a publisher or subscriber (the IDs the node stores
  name the topic and the message type that were asked for, and the broker has the node under the topic)
  and that this lasts whatever else happens at the broker; then the tables of the node, and
  the agreement of the whole node (\<open>node_agrees\<close>).
\<close>

section \<open>What the operations of the broker promise\<close>

text \<open>Space for \<open>k\<close> more entries in each registry; IDs have 32 bits.\<close>

definition room :: "nat \<Rightarrow> broker \<Rightarrow> bool" where
  "room k b \<longleftrightarrow> length (br_nodes b) + k \<le> 2 ^ 32 \<and> length (br_message_types b) + k \<le> 2 ^ 32 \<and>
     length (br_topics b) + k \<le> 2 ^ 32"

lemma room_counted [simp]: "room k (counted client c b) = room k b"
  by (simp add: room_def)

lemma room_less: "room k b \<Longrightarrow> j \<le> k \<Longrightarrow> room j b"
  by (auto simp: room_def)

lemma operations_use_room:
  "register_node client name b = (r1, b') \<Longrightarrow> room (Suc k) b \<Longrightarrow> room k b'"
  "register_message_type name msize b = (r1, b') \<Longrightarrow> room (Suc k) b \<Longrightarrow> room k b'"
  "register_topic name mt prio b = Inr (r2, b') \<Longrightarrow> room (Suc k) b \<Longrightarrow> room k b'"
  "add_publisher i t mt b = Inr (ok, b') \<Longrightarrow> room k b \<Longrightarrow> room k b'"
  "add_subscriber i t mt b = Inr (ok, b') \<Longrightarrow> room k b \<Longrightarrow> room k b'"
  by (auto simp: register_node_def register_message_type_def register_topic_def add_publisher_def
      add_subscriber_def room_def Let_def split: option.splits if_splits elim!: rbind_InrE)

lemma register_node_granted:
  assumes "register_node client name b = (Some i, b')" and "room 0 b'"
  shows "unat i < length (br_nodes b') \<and> br_nodes b' ! unat i = \<lparr>ni_name = name, ni_address = client\<rparr>"
  using assms unat_of_nat_lt [of "length (br_nodes b)", where 'a = 32]
  by (auto simp: register_node_def room_def Let_def split: option.splits)

lemma register_message_type_granted:
  assumes "register_message_type name msize b = (Some i, b')" and "room 0 b'"
  shows "unat i < length (br_message_types b') \<and> br_message_types b' ! unat i = \<lparr>mti_name = name, mti_size = msize\<rparr>"
proof (cases "find_index (\<lambda>mti. mti_name mti = name) (br_message_types b)")
  case None
  with assms unat_of_nat_lt [of "length (br_message_types b)", where 'a = 32] show ?thesis
    unfolding register_message_type_def None by (auto simp: room_def Let_def)
next
  case (Some k)
  from find_index_Some [OF Some] have k: "k < length (br_message_types b)" "mti_name (br_message_types b ! k) = name" by auto
  from assms(1) have r: "b' = b" "i = of_nat k" "mti_size (br_message_types b ! k) = msize"
    unfolding register_message_type_def Some by (auto split: if_splits)
  have "unat (of_nat k :: u32) = k" using k(1) assms(2) r(1) by (intro unat_of_nat_lt) (simp add: room_def)
  with k r show ?thesis by simp
qed

lemma register_topic_total:
  assumes "broker_inv b" and "unat mt < length (br_message_types b)"
  shows "\<exists>r b'. register_topic name mt prio b = Inr (r, b')"
proof (cases "find_index (\<lambda>t. t_name t = name) (br_topics b)")
  case None
  from register_topic_new [OF this, of mt prio] assms(2) show ?thesis by auto
next
  case (Some k)
  from register_topic_known [OF this assms(1), of mt prio] assms(2) show ?thesis by auto
qed

lemma validate_total:
  assumes "broker_inv b"
  shows "\<exists>ok. validate_topic_parameters i t mt b = Inr ok"
proof (cases "unat t < length (br_topics b)")
  case True
  with topic_ok_nth [OF assms this] show ?thesis
    by (auto simp: validate_topic_parameters_def topic_ok_def Let_def)
qed (auto simp: validate_topic_parameters_def intro: exI [of _ False])

lemma add_total:
  assumes "broker_inv b"
  shows "\<exists>ok b'. add_publisher i t mt b = Inr (ok, b')" "\<exists>ok b'. add_subscriber i t mt b = Inr (ok, b')"
  using validate_total [OF assms, of i t mt]
  by (auto simp: add_publisher_def add_subscriber_def Let_def)

lemma add_effect:
  "add_publisher i t mt b = Inr (ok, b') \<Longrightarrow> ok \<Longrightarrow> i \<in> set (t_publishers (br_topics b' ! unat t))"
  "add_subscriber i t mt b = Inr (ok, b') \<Longrightarrow> ok \<Longrightarrow> i \<in> set (t_subscribers (br_topics b' ! unat t))"
  by (auto simp: add_publisher_def add_subscriber_def Let_def split: if_splits elim!: rbind_InrE
      dest!: validate_topic_parameters_true)

section \<open>Agreement of a node with the broker\<close>

definition endpoint_known :: "broker \<Rightarrow> string \<Rightarrow> string \<Rightarrow> u32 \<Rightarrow> u32 \<Rightarrow> u32 \<Rightarrow> bool" where
  "endpoint_known b topic_name type_name msize mt t \<longleftrightarrow>
     unat mt < length (br_message_types b) \<and>
     br_message_types b ! unat mt = \<lparr>mti_name = type_name, mti_size = msize\<rparr> \<and>
     unat t < length (br_topics b) \<and> t_name (br_topics b ! unat t) = topic_name \<and>
     t_message_type_id (br_topics b ! unat t) = mt"

definition publisher_known :: "broker \<Rightarrow> u32 \<Rightarrow> publisher \<Rightarrow> bool" where
  "publisher_known b i p \<longleftrightarrow>
     endpoint_known b (pu_topic_name p) (pu_message_type_name p) (pu_message_size p)
       (pu_message_type_id p) (pu_topic_id p) \<and>
     i \<in> set (t_publishers (br_topics b ! unat (pu_topic_id p)))"

definition subscriber_known :: "broker \<Rightarrow> u32 \<Rightarrow> 'u subscriber \<Rightarrow> bool" where
  "subscriber_known b i s \<longleftrightarrow>
     endpoint_known b (su_topic_name s) (su_message_type_name s) (su_message_size s)
       (su_message_type_id s) (su_topic_id s) \<and>
     su_topic_priority s = t_priority (br_topics b ! unat (su_topic_id s)) \<and>
     i \<in> set (t_subscribers (br_topics b ! unat (su_topic_id s)))"

text \<open>Whatever else happens at the broker, agreement lasts.\<close>

lemma evolves_entries:
  assumes "broker_evolves b b'"
  shows "k < length (br_nodes b) \<Longrightarrow> k < length (br_nodes b') \<and> br_nodes b' ! k = br_nodes b ! k"
    and "k < length (br_message_types b) \<Longrightarrow> k < length (br_message_types b') \<and> br_message_types b' ! k = br_message_types b ! k"
    and "k < length (br_topics b) \<Longrightarrow> k < length (br_topics b') \<and> topic_evolves (br_topics b ! k) (br_topics b' ! k)"
  using assms by (auto simp: broker_evolves_def prefix_def nth_append)

lemma topic_evolves_sets:
  "topic_evolves t t' \<Longrightarrow> i \<in> set (t_publishers t) \<Longrightarrow> i \<in> set (t_publishers t')"
  "topic_evolves t t' \<Longrightarrow> i \<in> set (t_subscribers t) \<Longrightarrow> i \<in> set (t_subscribers t')"
  by (auto simp: topic_evolves_def prefix_def)

lemma endpoint_evolves:
  assumes "broker_evolves b b'" and "endpoint_known b tn mn sz mt t"
  shows "endpoint_known b' tn mn sz mt t \<and> topic_evolves (br_topics b ! unat t) (br_topics b' ! unat t)"
  using evolves_entries(2,3) [OF assms(1)] assms(2) by (auto simp: endpoint_known_def topic_evolves_def)

lemma known_evolves:
  assumes "broker_evolves b b'"
  shows "publisher_known b i p \<Longrightarrow> publisher_known b' i p"
    and "subscriber_known b i s \<Longrightarrow> subscriber_known b' i s"
  using endpoint_evolves [OF assms] topic_evolves_sets
  by (fastforce simp: publisher_known_def subscriber_known_def topic_evolves_def dest: set_mono_prefix)+

text \<open>The tables of the node.\<close>

definition subscribers_on :: "'u node \<Rightarrow> u32 \<Rightarrow> nat list" where
  "subscribers_on n t = ti_subscribers (topic_get t (nd_topics n))"

lemma entered_tables [simp]:
  "subscribers_on (enter_publisher i t p n) u = subscribers_on n u"
  "publishers_at (enter_publisher i t p n) q = publishers_at n q @ (if q = p then [i] else [])"
  "subscribers_on (enter_subscriber i t p n) u = subscribers_on n u @ (if u = t then [i] else [])"
  "publishers_at (enter_subscriber i t p n) q = publishers_at n q"
  "callbacks_at (enter_publisher i t p n) q = callbacks_at n q"
  "callbacks_at (enter_subscriber i t p n) q = callbacks_at n q @ (if q = p then [i] else [])"
  by (simp_all add: subscribers_on_def publishers_at_def callbacks_at_def enter_publisher_def enter_subscriber_def Let_def
      topic_get_def prio_get_def)

lemma tables_unchanged [simp]:
  "subscribers_on (after_call i buf n) u = subscribers_on n u"
  "publishers_at (after_call i buf n) q = publishers_at n q"
  "subscribers_on (change_publisher k f n) u = subscribers_on n u"
  "publishers_at (change_publisher k f n) q = publishers_at n q"
  "subscribers_on (change_subscriber k g n) u = subscribers_on n u"
  "publishers_at (change_subscriber k g n) q = publishers_at n q"
  "callbacks_at (after_call i buf n) q = callbacks_at n q" "callbacks_at (change_publisher k f n) q = callbacks_at n q"
  "callbacks_at (change_subscriber k g n) q = callbacks_at n q"
  by (simp_all add: subscribers_on_def publishers_at_def callbacks_at_def after_call_def change_publisher_def change_subscriber_def)

lemma other_fields [simp]:
  "nd_node_id (after_call i buf n) = i" "nd_publishers (after_call i buf n) = nd_publishers n"
  "nd_subscribers (after_call i buf n) = nd_subscribers n" "nd_name (after_call i buf n) = nd_name n"
  "nd_node_id (change_publisher k f n) = nd_node_id n" "nd_node_id (change_subscriber k g n) = nd_node_id n"
  "nd_node_id (enter_publisher j t p n) = nd_node_id n" "nd_node_id (enter_subscriber j t p n) = nd_node_id n"
  "nd_publishers (change_publisher k f n) = (nd_publishers n)[k := f (nd_publishers n ! k)]"
  "nd_subscribers (change_subscriber k g n) = (nd_subscribers n)[k := g (nd_subscribers n ! k)]"
  by (simp_all add: after_call_def change_publisher_def change_subscriber_def enter_publisher_def
      enter_subscriber_def Let_def)

lemma evolves_counted: "broker_step_ok (counted client c b) b' \<Longrightarrow> broker_evolves b b'"
  using broker_evolves_trans [of b "counted client c b" b'] by (simp add: broker_step_ok_def counted_def)

section \<open>One registration\<close>

definition identified_publisher :: "publisher \<Rightarrow> publisher \<Rightarrow> bool" where
  "identified_publisher p p' \<longleftrightarrow> (\<exists>mt t. p' = p\<lparr>pu_message_type_id := mt, pu_topic_id := t\<rparr>)"

lemma identified_publisher_simps [simp]:
  "identified_publisher p p" "identified_publisher p (p\<lparr>pu_message_type_id := mt\<rparr>)"
  "identified_publisher p (p\<lparr>pu_message_type_id := mt, pu_topic_id := t\<rparr>)"
proof -
  have "p = p\<lparr>pu_message_type_id := pu_message_type_id p, pu_topic_id := pu_topic_id p\<rparr>" by simp
  then show "identified_publisher p p" unfolding identified_publisher_def by blast
  have "p\<lparr>pu_message_type_id := mt\<rparr> = p\<lparr>pu_message_type_id := mt, pu_topic_id := pu_topic_id p\<rparr>" by simp
  then show "identified_publisher p (p\<lparr>pu_message_type_id := mt\<rparr>)" unfolding identified_publisher_def by blast
qed (auto simp: identified_publisher_def)

text \<open>
  What a registration of publisher \<open>i\<close> leaves behind, in terms of the broker \<open>b\<close> afterwards: only its two
  IDs change among the publishers; when it succeeds, the broker knows the publisher, and the node finds
  it under its priority.
\<close>

definition publisher_outcome :: "broker \<Rightarrow> nat \<Rightarrow> 'u node \<Rightarrow> bool \<Rightarrow> 'u node \<Rightarrow> bool" where
  "publisher_outcome b i n ok n' \<longleftrightarrow>
     nd_node_id n' = nd_node_id n \<and>
     nd_subscribers n' = nd_subscribers n \<and> subscribers_on n' = subscribers_on n \<and>
     nd_publishers n' = (nd_publishers n)[i := nd_publishers n' ! i] \<and>
     identified_publisher (nd_publishers n ! i) (nd_publishers n' ! i) \<and>
     (ok \<longrightarrow> publisher_known b (nd_node_id n) (nd_publishers n' ! i) \<and>
       publishers_at n' = (\<lambda>q. publishers_at n q @ (if q = pu_topic_priority (nd_publishers n ! i) then [i] else [])))"

definition identified_subscriber :: "'u subscriber \<Rightarrow> 'u subscriber \<Rightarrow> bool" where
  "identified_subscriber s s' \<longleftrightarrow>
     (\<exists>mt t q. s' = s\<lparr>su_message_type_id := mt, su_topic_id := t, su_topic_priority := q\<rparr>)"

lemma identified_subscriber_simps [simp]:
  "identified_subscriber s s" "identified_subscriber s (s\<lparr>su_message_type_id := mt\<rparr>)"
  "identified_subscriber s (s\<lparr>su_message_type_id := mt, su_topic_id := t, su_topic_priority := q\<rparr>)"
proof -
  have "s = s\<lparr>su_message_type_id := su_message_type_id s, su_topic_id := su_topic_id s,
      su_topic_priority := su_topic_priority s\<rparr>" by simp
  then show "identified_subscriber s s" unfolding identified_subscriber_def by blast
  have "s\<lparr>su_message_type_id := mt\<rparr> = s\<lparr>su_message_type_id := mt, su_topic_id := su_topic_id s,
      su_topic_priority := su_topic_priority s\<rparr>" by simp
  then show "identified_subscriber s (s\<lparr>su_message_type_id := mt\<rparr>)" unfolding identified_subscriber_def by blast
qed (auto simp: identified_subscriber_def)

text \<open>
  The same for subscriber \<open>i\<close>, which also takes over the priority the topic has at the broker and is
  entered under its topic ID, and under that priority.
\<close>

definition subscriber_outcome :: "broker \<Rightarrow> nat \<Rightarrow> 'u node \<Rightarrow> bool \<Rightarrow> 'u node \<Rightarrow> bool" where
  "subscriber_outcome b i n ok n' \<longleftrightarrow>
     nd_node_id n' = nd_node_id n \<and>
     nd_publishers n' = nd_publishers n \<and> publishers_at n' = publishers_at n \<and>
     nd_subscribers n' = (nd_subscribers n)[i := nd_subscribers n' ! i] \<and>
     identified_subscriber (nd_subscribers n ! i) (nd_subscribers n' ! i) \<and>
     (ok \<longrightarrow> subscriber_known b (nd_node_id n) (nd_subscribers n' ! i) \<and>
       subscribers_on n' = (\<lambda>t. subscribers_on n t @ (if t = su_topic_id (nd_subscribers n' ! i) then [i] else [])) \<and>
       callbacks_at n' = (\<lambda>q. callbacks_at n q @ (if q = su_topic_priority (nd_subscribers n' ! i) then [i] else [])))"

text \<open>
  What \<^verbatim>\<open>connect()\<close> may change of a node over any network: the IDs of the node and of its publishers and
  subscribers, the priorities of the subscribers, the tables, the counter and the buffer.
\<close>

definition registers :: "'u node \<Rightarrow> 'u node \<Rightarrow> bool" where
  "registers n n' \<longleftrightarrow> nd_broker_address n' = nd_broker_address n \<and>
     list_all2 identified_publisher (nd_publishers n) (nd_publishers n') \<and>
     list_all2 identified_subscriber (nd_subscribers n) (nd_subscribers n')"

lemma identified_trans:
  "identified_publisher p p' \<Longrightarrow> identified_publisher p' p'' \<Longrightarrow> identified_publisher p p''"
  "identified_subscriber s s' \<Longrightarrow> identified_subscriber s' s'' \<Longrightarrow> identified_subscriber s s''"
proof -
  assume "identified_publisher p p'" and "identified_publisher p' p''"
  then obtain mt t mt' t' where "p' = p\<lparr>pu_message_type_id := mt, pu_topic_id := t\<rparr>"
    "p'' = p'\<lparr>pu_message_type_id := mt', pu_topic_id := t'\<rparr>" unfolding identified_publisher_def by blast
  then have "p'' = p\<lparr>pu_message_type_id := mt', pu_topic_id := t'\<rparr>" by simp
  then show "identified_publisher p p''" by simp
next
  assume "identified_subscriber s s'" and "identified_subscriber s' s''"
  then obtain mt t q mt' t' q' where "s' = s\<lparr>su_message_type_id := mt, su_topic_id := t, su_topic_priority := q\<rparr>"
    "s'' = s'\<lparr>su_message_type_id := mt', su_topic_id := t', su_topic_priority := q'\<rparr>" unfolding identified_subscriber_def by blast
  then have "s'' = s\<lparr>su_message_type_id := mt', su_topic_id := t', su_topic_priority := q'\<rparr>" by simp
  then show "identified_subscriber s s''" by simp
qed

lemma identified_later [simp]:
  "identified_publisher p (p\<lparr>pu_topic_id := t\<rparr>)"
  "identified_subscriber s (s\<lparr>su_topic_id := t, su_topic_priority := q\<rparr>)"
proof -
  have "p\<lparr>pu_topic_id := t\<rparr> = p\<lparr>pu_message_type_id := pu_message_type_id p, pu_topic_id := t\<rparr>" by simp
  then show "identified_publisher p (p\<lparr>pu_topic_id := t\<rparr>)" unfolding identified_publisher_def by blast
  have "s\<lparr>su_topic_id := t, su_topic_priority := q\<rparr> =
      s\<lparr>su_message_type_id := su_message_type_id s, su_topic_id := t, su_topic_priority := q\<rparr>" by simp
  then show "identified_subscriber s (s\<lparr>su_topic_id := t, su_topic_priority := q\<rparr>)"
    unfolding identified_subscriber_def by blast
qed

lemma registers_refl [simp]: "registers n n"
  by (simp add: registers_def list.rel_refl)

lemma registers_trans:
  assumes "registers n n'" and "registers n' n''"
  shows "registers n n''"
proof -
  have "list_all2 identified_publisher (nd_publishers n) (nd_publishers n'')"
    by (rule list_all2_trans [of identified_publisher identified_publisher])
       (use assms identified_trans(1) in \<open>auto simp: registers_def\<close>)
  moreover have "list_all2 identified_subscriber (nd_subscribers n) (nd_subscribers n'')"
    by (rule list_all2_trans [of identified_subscriber identified_subscriber])
       (use assms identified_trans(2) in \<open>auto simp: registers_def\<close>)
  ultimately show ?thesis using assms by (simp add: registers_def)
qed

lemma registers_rpc: "rpc_changes n n' \<Longrightarrow> registers n n'"
  by (simp add: registers_def rpc_changes_fields list.rel_refl)

lemma registers_change:
  assumes "registers n n1"
  shows "(\<And>p. identified_publisher p (f p)) \<Longrightarrow> registers n (change_publisher i f n1)"
    and "(\<And>s. identified_subscriber s (g s)) \<Longrightarrow> registers n (change_subscriber i g n1)"
    and "registers n (enter_publisher i t p n1)" and "registers n (enter_subscriber i t p n1)"
proof -
  have "identified_publisher (ps ! j) (ps[i := f (ps ! i)] ! j)" if "\<And>p. identified_publisher p (f p)" for ps j
    using that by (cases "i < length ps") (simp_all add: nth_list_update list_update_beyond)
  note step = this
  show "registers n (change_publisher i f n1)" if "\<And>p. identified_publisher p (f p)"
    by (rule registers_trans [OF assms]) (use step that in \<open>simp add: registers_def change_publisher_def list_all2_conv_all_nth\<close>)
  have "identified_subscriber (ss ! j) (ss[i := g (ss ! i)] ! j)" if "\<And>s. identified_subscriber s (g s)" for ss j
    using that by (cases "i < length ss") (simp_all add: nth_list_update list_update_beyond)
  note step = this
  show "registers n (change_subscriber i g n1)" if "\<And>s. identified_subscriber s (g s)"
    by (rule registers_trans [OF assms]) (use step that in \<open>simp add: registers_def change_subscriber_def list_all2_conv_all_nth\<close>)
qed (use assms in \<open>simp_all add: registers_def enter_publisher_def enter_subscriber_def Let_def\<close>)

text \<open>\<open>leads n m\<close>: when \<open>m\<close> returns, the node it returns has come from \<open>n\<close> by such changes.\<close>

definition leads :: "'u node \<Rightarrow> ('r \<times> 'u node \<times> 'w) res \<Rightarrow> bool" where
  "leads n m \<longleftrightarrow> (\<forall>r n' w'. m = Inr (r, n', w') \<longrightarrow> registers n n')"

lemma leads_return: "registers n n' \<Longrightarrow> leads n (Inr (r, n', w))"
  by (simp add: leads_def)

lemma leads_bind:
  "leads n m \<Longrightarrow> (\<And>r n1 w1. registers n n1 \<Longrightarrow> leads n (f (r, n1, w1))) \<Longrightarrow> leads n (rbind m f)"
  by (fastforce simp: leads_def rbind_eq_Inr_iff)

lemma leads_value: "(\<And>x. m = Inr x \<Longrightarrow> leads n (f x)) \<Longrightarrow> leads n (rbind m f)"
  by (auto simp: leads_def rbind_eq_Inr_iff)

lemma leads_at: "(\<And>x. leads n (f x)) \<Longrightarrow> leads n (rbind (at xs i) f)"
  by (rule leads_value)

lemma leads_option:
  "leads n a \<Longrightarrow> (\<And>x. leads n (f x)) \<Longrightarrow> leads n (case r of None \<Rightarrow> a | Some x \<Rightarrow> f x)"
  by (simp split: option.split)

lemma leads_if: "leads n a \<Longrightarrow> leads n b \<Longrightarrow> leads n (if c then a else b)"
  by simp

lemma leads_calls:
  assumes "registers n n1"
  shows "leads n (node_register_node nw n1 w)" "leads n (node_register_message_type nw t sz n1 w)"
    "leads n (node_register_topic nw t mt prio b n1 w)" "leads n (node_add_pubsub nw a i j n1 w)"
  by (auto simp: leads_def dest!: rpc_calls_change intro: registers_trans [OF assms registers_rpc])

lemmas leads_intros = leads_at leads_bind leads_return leads_option leads_if leads_calls registers_change

lemma register_publisher_leads: "registers n n1 \<Longrightarrow> leads n (register_publisher nw i n1 w)"
  unfolding register_publisher_def Let_def split_def fst_conv snd_conv
  by (intro leads_at) (auto intro!: leads_intros)

lemma register_subscriber_leads: "registers n n1 \<Longrightarrow> leads n (register_subscriber nw i n1 w)"
  unfolding register_subscriber_def Let_def split_def fst_conv snd_conv
  by (intro leads_at) (auto intro!: leads_intros)

lemma register_each_leads:
  assumes "\<And>i n1 w. registers n n1 \<Longrightarrow> leads n (reg i n1 w)"
  shows "registers n n1 \<Longrightarrow> leads n (register_each reg is n1 w)"
proof (induction "is" arbitrary: n1 w)
  case Nil
  then show ?case by (simp add: leads_return)
next
  case (Cons i "is")
  then show ?case by (auto simp: split_def intro!: leads_bind assms leads_return)
qed

lemma node_connect_registers:
  assumes "node_connect nw n w = Inr (ok, n', w')"
  shows "registers n n'"
proof -
  note each = register_each_leads [OF register_publisher_leads] register_each_leads [OF register_subscriber_leads]
  have "leads n (node_connect nw n w)"
    unfolding node_connect_def split_def
    by (rule leads_value, simp, intro conjI impI leads_return registers_refl leads_value)
       (auto intro!: leads_bind leads_calls leads_return each)
  with assms show ?thesis by (simp add: leads_def)
qed

section \<open>All registrations\<close>

definition publisher_short :: "publisher \<Rightarrow> bool" where
  "publisher_short p \<longleftrightarrow> short (pu_topic_name p) \<and> short (pu_message_type_name p)"

definition subscriber_short :: "'u subscriber \<Rightarrow> bool" where
  "subscriber_short s \<longleftrightarrow> short (su_topic_name s) \<and> short (su_message_type_name s)"

lemma identified_short:
  "identified_publisher p p' \<Longrightarrow> publisher_short p' = publisher_short p"
  "identified_subscriber s s' \<Longrightarrow> subscriber_short s' = subscriber_short s"
  by (auto simp: identified_publisher_def identified_subscriber_def publisher_short_def subscriber_short_def)

lemma identified_priority: "identified_publisher p p' \<Longrightarrow> pu_topic_priority p' = pu_topic_priority p"
  by (auto simp: identified_publisher_def)

text \<open>The first \<open>m\<close> publishers, or subscribers, are registered.\<close>

definition publishers_done :: "broker \<Rightarrow> nat \<Rightarrow> 'u node \<Rightarrow> bool" where
  "publishers_done b m n \<longleftrightarrow>
     (\<forall>i<m. publisher_known b (nd_node_id n) (nd_publishers n ! i) \<and>
       i \<in> set (publishers_at n (pu_topic_priority (nd_publishers n ! i))))"

definition subscribers_done :: "broker \<Rightarrow> nat \<Rightarrow> 'u node \<Rightarrow> bool" where
  "subscribers_done b m n \<longleftrightarrow>
     (\<forall>i<m. subscriber_known b (nd_node_id n) (nd_subscribers n ! i) \<and>
       i \<in> set (subscribers_on n (su_topic_id (nd_subscribers n ! i))) \<and>
       i \<in> set (callbacks_at n (su_topic_priority (nd_subscribers n ! i)))) \<and>
     (\<forall>t. distinct (subscribers_on n t) \<and>
       (\<forall>i\<in>set (subscribers_on n t). i < m \<and> su_topic_id (nd_subscribers n ! i) = t))"

lemma publishers_done_evolves:
  "publishers_done b m n \<Longrightarrow> broker_evolves b b' \<Longrightarrow> nd_node_id n' = nd_node_id n \<Longrightarrow>
   nd_publishers n' = nd_publishers n \<Longrightarrow> publishers_at n' = publishers_at n \<Longrightarrow> publishers_done b' m n'"
  by (simp add: publishers_done_def known_evolves)

lemma publishers_done_step:
  assumes "publisher_outcome b' m n True n'" and "publishers_done b m n" and "broker_evolves b b'"
    and "m < length (nd_publishers n)"
  shows "publishers_done b' (Suc m) n'"
proof -
  have old: "nd_publishers n' ! i = nd_publishers n ! i" if "i < m" for i
    using assms(1) that unfolding publisher_outcome_def by (metis less_irrefl nth_list_update_neq)
  have "publisher_known b' (nd_node_id n') (nd_publishers n' ! i) \<and>
      i \<in> set (publishers_at n' (pu_topic_priority (nd_publishers n' ! i)))" if "i < Suc m" for i
  proof (cases "i = m")
    case True
    with assms(1) identified_priority show ?thesis by (auto simp: publisher_outcome_def)
  next
    case False
    with that have i: "i < m" by simp
    with assms(2) have "publisher_known b (nd_node_id n) (nd_publishers n ! i)"
      "i \<in> set (publishers_at n (pu_topic_priority (nd_publishers n ! i)))" by (simp_all add: publishers_done_def)
    with assms(1) old [OF i] known_evolves(1) [OF assms(3)] show ?thesis by (auto simp: publisher_outcome_def)
  qed
  then show ?thesis by (simp add: publishers_done_def)
qed

lemma subscribers_done_step:
  assumes "subscriber_outcome b' m n True n'" and "subscribers_done b m n" and "broker_evolves b b'"
    and "m < length (nd_subscribers n)"
  shows "subscribers_done b' (Suc m) n'"
proof -
  have old: "nd_subscribers n' ! i = nd_subscribers n ! i" if "i < m" for i
    using assms(1) that unfolding subscriber_outcome_def by (metis less_irrefl nth_list_update_neq)
  have "subscriber_known b' (nd_node_id n') (nd_subscribers n' ! i) \<and>
      i \<in> set (subscribers_on n' (su_topic_id (nd_subscribers n' ! i))) \<and>
      i \<in> set (callbacks_at n' (su_topic_priority (nd_subscribers n' ! i)))" if "i < Suc m" for i
  proof (cases "i = m")
    case True
    with assms(1) show ?thesis by (auto simp: subscriber_outcome_def)
  next
    case False
    with that have i: "i < m" by simp
    with assms(2) have "subscriber_known b (nd_node_id n) (nd_subscribers n ! i)"
      "i \<in> set (subscribers_on n (su_topic_id (nd_subscribers n ! i)))"
      "i \<in> set (callbacks_at n (su_topic_priority (nd_subscribers n ! i)))" by (simp_all add: subscribers_done_def)
    with assms(1) old [OF i] known_evolves(2) [OF assms(3)] show ?thesis by (auto simp: subscriber_outcome_def)
  qed
  moreover have "distinct (subscribers_on n' t) \<and>
      (\<forall>i\<in>set (subscribers_on n' t). i < Suc m \<and> su_topic_id (nd_subscribers n' ! i) = t)" for t
  proof -
    have "distinct (subscribers_on n t)"
      "\<forall>i\<in>set (subscribers_on n t). i < m \<and> su_topic_id (nd_subscribers n' ! i) = t"
      using assms(2) old by (auto simp: subscribers_done_def)
    moreover have "subscribers_on n' t = subscribers_on n t @ (if t = su_topic_id (nd_subscribers n' ! m) then [m] else [])"
      using assms(1) by (simp add: subscriber_outcome_def)
    ultimately show ?thesis by auto
  qed
  ultimately show ?thesis by (simp add: subscribers_done_def)
qed

definition node_agrees :: "broker \<Rightarrow> string \<Rightarrow> 'u node \<Rightarrow> bool" where
  "node_agrees b client n \<longleftrightarrow>
     unat (nd_node_id n) < length (br_nodes b) \<and> ni_address (br_nodes b ! unat (nd_node_id n)) = client \<and>
     publishers_done b (length (nd_publishers n)) n \<and> subscribers_done b (length (nd_subscribers n)) n"

text \<open>A node as its constructor and \<^verbatim>\<open>create_publisher\<close>, \<^verbatim>\<open>create_subscriber\<close> leave it, with names of usual length.\<close>

definition connectable :: "'u node \<Rightarrow> bool" where
  "connectable n \<longleftrightarrow>
     short (nd_name n) \<and> (\<forall>p\<in>set (nd_publishers n). publisher_short p) \<and>
     (\<forall>s\<in>set (nd_subscribers n). subscriber_short s) \<and> nd_topics n = Map.empty \<and> nd_topics_by_prio n = []"

lemma connectable_tables: "connectable n \<Longrightarrow> subscribers_on n t = []"
  by (simp add: connectable_def subscribers_on_def topic_get_def topic_info_empty_def)

end
