(* ===== verification/Registration.thy ===== *)
theory Registration
  imports Agreement
begin

text \<open>
  The contract between \<^verbatim>\<open>Node::connect()\<close> and whatever stands between the node and the broker's four
  operations (locale \<open>registration_service\<close>), and \<^verbatim>\<open>connect()\<close> as its client: one registration through
  its three calls, the two loops, the whole function. The lemmas are proved once from the contract;
  \<open>Connect\<close> and \<open>Busy_Link\<close> provide it.
\<close>

section \<open>The contract\<close>

text \<open>What the link sees of a node.\<close>

definition same_link_view :: "'u node \<Rightarrow> 'u node \<Rightarrow> bool" where
  "same_link_view n n' \<longleftrightarrow> nd_bp_counter n' = nd_bp_counter n \<and> nd_broker_address n' = nd_broker_address n \<and>
     length (nd_buffer n') = length (nd_buffer n)"

lemma same_link_view_simps [simp]:
  "same_link_view n (change_publisher i f n)" "same_link_view n (change_subscriber i g n)"
  "same_link_view n (enter_publisher i t q n)" "same_link_view n (enter_subscriber i t q n)"
  by (simp_all add: same_link_view_def change_publisher_def change_subscriber_def enter_publisher_def
      enter_subscriber_def Let_def)

text \<open>
  A network over states \<open>w\<close> behind which a broker \<open>broker_of w\<close> runs. A call can be made when \<open>ready\<close>;
  \<open>space k\<close> says that \<open>k\<close> more entries fit into each registry of the broker, and \<open>step\<close> relates states before and after.
  A call always returns and establishes \<open>after\<close>; when it reports success, the broker has done what was asked for, and
  the next call can follow.
\<close>

locale registration_service =
  fixes nw :: "'w network" and client :: string and broker_of :: "'w \<Rightarrow> broker"
    and ready :: "'u node \<Rightarrow> 'w \<Rightarrow> bool" and after :: "'u node \<Rightarrow> 'w \<Rightarrow> bool"
    and step :: "'w \<Rightarrow> 'w \<Rightarrow> bool" and space :: "nat \<Rightarrow> 'w \<Rightarrow> bool"
  assumes opens: "nw_socket nw prot w = Inr (True, w)" "nw_connect nw address w = Inr (True, w)"
    and ready_view: "same_link_view n n' \<Longrightarrow> ready n w \<Longrightarrow> ready n' w"
    and after_view: "same_link_view n n' \<Longrightarrow> after n w \<Longrightarrow> after n' w"
    and ready_after: "ready n w \<Longrightarrow> after n w"
    and step_refl: "step w w"
    and step_trans: "step w1 w2 \<Longrightarrow> step w2 w3 \<Longrightarrow> step w1 w3"
    and step_evolves: "step w w' \<Longrightarrow> broker_evolves (broker_of w) (broker_of w')"
    and space_less: "space k w \<Longrightarrow> j \<le> k \<Longrightarrow> space j w"
    and calls_register_node: "ready n w \<Longrightarrow> short (nd_name n) \<Longrightarrow> space (Suc k) w \<Longrightarrow>
      \<exists>ok i buf w'. node_register_node nw n w = Inr (ok, after_call i buf n, w') \<and> step w w' \<and>
        after (after_call i buf n) w' \<and>
        (ok \<longrightarrow> ready (after_call i buf n) w' \<and> space k w' \<and> unat i < length (br_nodes (broker_of w')) \<and>
          br_nodes (broker_of w') ! unat i = \<lparr>ni_name = nd_name n, ni_address = client\<rparr>)"
    and calls_register_message_type: "ready n w \<Longrightarrow> short name \<Longrightarrow> space (Suc k) w \<Longrightarrow>
      \<exists>r buf w'. node_register_message_type nw name msize n w = Inr (r, after_call (nd_node_id n) buf n, w') \<and> step w w' \<and>
        after (after_call (nd_node_id n) buf n) w' \<and>
        (\<forall>mt. r = Some mt \<longrightarrow> ready (after_call (nd_node_id n) buf n) w' \<and> space k w' \<and>
          unat mt < length (br_message_types (broker_of w')) \<and>
          br_message_types (broker_of w') ! unat mt = \<lparr>mti_name = name, mti_size = msize\<rparr>)"
    and calls_register_topic: "ready n w \<Longrightarrow> short name \<Longrightarrow> space (Suc k) w \<Longrightarrow>
      unat mt < length (br_message_types (broker_of w)) \<Longrightarrow>
      br_message_types (broker_of w) ! unat mt = \<lparr>mti_name = type_name, mti_size = msize\<rparr> \<Longrightarrow>
      \<exists>r buf w'. node_register_topic nw name mt prio want n w = Inr (r, after_call (nd_node_id n) buf n, w') \<and> step w w' \<and>
        after (after_call (nd_node_id n) buf n) w' \<and>
        (\<forall>t q. r = Some (t, q) \<longrightarrow> ready (after_call (nd_node_id n) buf n) w' \<and> space k w' \<and>
          endpoint_known (broker_of w') name type_name msize mt t \<and>
          q = (if want then t_priority (br_topics (broker_of w') ! unat t) else prio))"
    and calls_add_pubsub: "ready n w \<Longrightarrow> space k w \<Longrightarrow>
      (action, members) = (''add_publisher'', t_publishers) \<or> (action, members) = (''add_subscriber'', t_subscribers) \<Longrightarrow>
      \<exists>ok buf w'. node_add_pubsub nw action t mt n w = Inr (ok, after_call (nd_node_id n) buf n, w') \<and> step w w' \<and>
        after (after_call (nd_node_id n) buf n) w' \<and>
        (ok \<longrightarrow> ready (after_call (nd_node_id n) buf n) w' \<and> space k w' \<and>
          nd_node_id n \<in> set (members (br_topics (broker_of w') ! unat t)))"
begin

section \<open>One registration\<close>

text \<open>Where a part of \<^verbatim>\<open>connect()\<close> that started in \<open>w\<close> stands after it.\<close>

definition progress :: "nat \<Rightarrow> 'w \<Rightarrow> bool \<Rightarrow> 'u node \<Rightarrow> 'w \<Rightarrow> bool" where
  "progress k w ok n' w' \<longleftrightarrow> step w w' \<and> after n' w' \<and> (ok \<longrightarrow> ready n' w' \<and> space k w')"

lemma progress_first: "step w w1 \<Longrightarrow> progress k w1 ok n' w' \<Longrightarrow> progress k w ok n' w'"
  by (auto simp: progress_def intro: step_trans)

lemma progress_evolves: "progress k w ok n' w' \<Longrightarrow> broker_evolves (broker_of w) (broker_of w')"
  by (simp add: progress_def step_evolves)

lemma register_publisher_served:
  assumes ready: "ready n w" and i: "i < length (nd_publishers n)"
    and p: "nd_publishers n ! i = p" and names: "short (pu_topic_name p)" "short (pu_message_type_name p)"
    and space: "space (Suc (Suc k)) w"
  shows "\<exists>ok n' w'. register_publisher nw i n w = Inr (ok, n', w') \<and> progress k w ok n' w' \<and>
    publisher_outcome (broker_of w') i n ok n'"
proof -
  let ?id = "nd_node_id n"
  from calls_register_message_type [OF ready names(2) space, where msize = "pu_message_size p"] obtain r1 buf1 w1 where
    c1: "node_register_message_type nw (pu_message_type_name p) (pu_message_size p) n w = Inr (r1, after_call ?id buf1 n, w1)"
      "step w w1" "after (after_call ?id buf1 n) w1"
    and t1: "\<And>mt. r1 = Some mt \<Longrightarrow> ready (after_call ?id buf1 n) w1 \<and> space (Suc k) w1 \<and>
      unat mt < length (br_message_types (broker_of w1)) \<and>
      br_message_types (broker_of w1) ! unat mt = \<lparr>mti_name = pu_message_type_name p, mti_size = pu_message_size p\<rparr>" by blast
  show ?thesis
  proof (cases r1)
    case None
    then have "register_publisher nw i n w = Inr (False, after_call ?id buf1 n, w1)"
      using c1(1) i p by (simp add: register_publisher_def)
    moreover have "publisher_outcome (broker_of w1) i n False (after_call ?id buf1 n)"
      by (simp add: publisher_outcome_def fun_eq_iff)
    ultimately show ?thesis using c1(2,3) by (auto simp: progress_def)
  next
    case (Some mt)
    define n2 where "n2 = change_publisher i (\<lambda>p. p\<lparr>pu_message_type_id := mt\<rparr>) (after_call ?id buf1 n)"
    from t1 [OF Some] have r2: "ready n2 w1" "space (Suc k) w1"
      and tmt: "unat mt < length (br_message_types (broker_of w1))"
        "br_message_types (broker_of w1) ! unat mt = \<lparr>mti_name = pu_message_type_name p, mti_size = pu_message_size p\<rparr>"
      unfolding n2_def by (auto elim: ready_view [rotated])
    from calls_register_topic [OF r2(1) names(1) r2(2) tmt, where prio = "pu_topic_priority p" and want = False]
    obtain r2 buf2 w2 where
      c2: "node_register_topic nw (pu_topic_name p) mt (pu_topic_priority p) False n2 w1 = Inr (r2, after_call (nd_node_id n2) buf2 n2, w2)"
        "step w1 w2" "after (after_call (nd_node_id n2) buf2 n2) w2"
      and t2: "\<And>t q. r2 = Some (t, q) \<Longrightarrow> ready (after_call (nd_node_id n2) buf2 n2) w2 \<and> space k w2 \<and>
        endpoint_known (broker_of w2) (pu_topic_name p) (pu_message_type_name p) (pu_message_size p) mt t" by blast
    note s2 = step_trans [OF c1(2) c2(2)]
    have start: "register_publisher nw i n w =
        (case r2 of None \<Rightarrow> Inr (False, after_call (nd_node_id n2) buf2 n2, w2)
         | Some (t, _) \<Rightarrow>
             let n4 = change_publisher i (\<lambda>p. p\<lparr>pu_topic_id := t\<rparr>) (after_call (nd_node_id n2) buf2 n2)
             in rbind (node_add_pubsub nw ''add_publisher'' t mt n4 w2) (\<lambda>(ok, n5, w3).
                if \<not> ok then Inr (False, n5, w3)
                else Inr (True, enter_publisher i t (pu_topic_priority p) n5, w3)))"
      using c1(1) c2(1) i p Some by (simp add: register_publisher_def n2_def [symmetric] Let_def)
    show ?thesis
    proof (cases r2)
      case None
      have "publisher_outcome (broker_of w2) i n False (after_call (nd_node_id n2) buf2 n2)"
        using i by (simp add: publisher_outcome_def fun_eq_iff n2_def)
      with start None s2 c2(3) show ?thesis by (auto simp: progress_def)
    next
      case (Some tq)
      then obtain t q where tq: "r2 = Some (t, q)" by (cases tq) auto
      define n4 where "n4 = change_publisher i (\<lambda>p. p\<lparr>pu_topic_id := t\<rparr>) (after_call (nd_node_id n2) buf2 n2)"
      from t2 [OF tq] have r4: "ready n4 w2" "space k w2"
        and known: "endpoint_known (broker_of w2) (pu_topic_name p) (pu_message_type_name p) (pu_message_size p) mt t"
        unfolding n4_def by (auto elim: ready_view [rotated])
      have id4: "nd_node_id n4 = ?id" by (simp add: n4_def n2_def)
      have n4: "nd_publishers n4 = (nd_publishers n)[i := p\<lparr>pu_message_type_id := mt, pu_topic_id := t\<rparr>]"
        "subscribers_on n4 = subscribers_on n" "publishers_at n4 = publishers_at n" "nd_subscribers n4 = nd_subscribers n"
        using i p by (simp_all add: n4_def n2_def fun_eq_iff)
      from calls_add_pubsub [OF r4, of "''add_publisher''" t_publishers t mt] obtain ok buf3 w3 where
        c3: "node_add_pubsub nw ''add_publisher'' t mt n4 w2 = Inr (ok, after_call ?id buf3 n4, w3)"
          "step w2 w3" "after (after_call ?id buf3 n4) w3"
        and t3: "ok \<Longrightarrow> ready (after_call ?id buf3 n4) w3 \<and> space k w3 \<and> ?id \<in> set (t_publishers (br_topics (broker_of w3) ! unat t))"
        by (auto simp: id4)
      let ?n5 = "after_call ?id buf3 n4"
      let ?n6 = "if ok then enter_publisher i t (pu_topic_priority p) ?n5 else ?n5"
      have run: "register_publisher nw i n w = Inr (ok, ?n6, w3)"
        using start c3(1) by (cases ok) (simp_all add: tq n4_def [symmetric])
      have "publisher_known (broker_of w3) ?id (p\<lparr>pu_message_type_id := mt, pu_topic_id := t\<rparr>)" if ok
        using endpoint_evolves [OF step_evolves [OF c3(2)] known] t3 [OF that] by (simp add: publisher_known_def)
      then have "publisher_outcome (broker_of w3) i n ok ?n6"
        using i p n4 by (cases ok) (simp_all add: publisher_outcome_def fun_eq_iff)
      moreover have "progress k w ok ?n6 w3"
        using step_trans [OF s2 c3(2)] c3(3) t3 ready_view [of ?n5 "enter_publisher i t (pu_topic_priority p) ?n5" w3] ready_after
        by (cases ok) (simp_all add: progress_def)
      ultimately show ?thesis using run by blast
    qed
  qed
qed

lemma register_subscriber_served:
  assumes ready: "ready n w" and i: "i < length (nd_subscribers n)"
    and p: "nd_subscribers n ! i = p" and names: "short (su_topic_name p)" "short (su_message_type_name p)"
    and space: "space (Suc (Suc k)) w"
  shows "\<exists>ok n' w'. register_subscriber nw i n w = Inr (ok, n', w') \<and> progress k w ok n' w' \<and>
    subscriber_outcome (broker_of w') i n ok n'"
proof -
  let ?id = "nd_node_id n"
  from calls_register_message_type [OF ready names(2) space, where msize = "su_message_size p"] obtain r1 buf1 w1 where
    c1: "node_register_message_type nw (su_message_type_name p) (su_message_size p) n w = Inr (r1, after_call ?id buf1 n, w1)"
      "step w w1" "after (after_call ?id buf1 n) w1"
    and t1: "\<And>mt. r1 = Some mt \<Longrightarrow> ready (after_call ?id buf1 n) w1 \<and> space (Suc k) w1 \<and>
      unat mt < length (br_message_types (broker_of w1)) \<and>
      br_message_types (broker_of w1) ! unat mt = \<lparr>mti_name = su_message_type_name p, mti_size = su_message_size p\<rparr>" by blast
  show ?thesis
  proof (cases r1)
    case None
    then have "register_subscriber nw i n w = Inr (False, after_call ?id buf1 n, w1)"
      using c1(1) i p by (simp add: register_subscriber_def)
    moreover have "subscriber_outcome (broker_of w1) i n False (after_call ?id buf1 n)"
      by (simp add: subscriber_outcome_def fun_eq_iff)
    ultimately show ?thesis using c1(2,3) by (auto simp: progress_def)
  next
    case (Some mt)
    define n2 where "n2 = change_subscriber i (\<lambda>s. s\<lparr>su_message_type_id := mt\<rparr>) (after_call ?id buf1 n)"
    from t1 [OF Some] have r2: "ready n2 w1" "space (Suc k) w1"
      and tmt: "unat mt < length (br_message_types (broker_of w1))"
        "br_message_types (broker_of w1) ! unat mt = \<lparr>mti_name = su_message_type_name p, mti_size = su_message_size p\<rparr>"
      unfolding n2_def by (auto elim: ready_view [rotated])
    from calls_register_topic [OF r2(1) names(1) r2(2) tmt, where prio = "su_topic_priority p" and want = True]
    obtain r2 buf2 w2 where
      c2: "node_register_topic nw (su_topic_name p) mt (su_topic_priority p) True n2 w1 = Inr (r2, after_call (nd_node_id n2) buf2 n2, w2)"
        "step w1 w2" "after (after_call (nd_node_id n2) buf2 n2) w2"
      and t2: "\<And>t q. r2 = Some (t, q) \<Longrightarrow> ready (after_call (nd_node_id n2) buf2 n2) w2 \<and> space k w2 \<and>
        endpoint_known (broker_of w2) (su_topic_name p) (su_message_type_name p) (su_message_size p) mt t \<and>
        q = t_priority (br_topics (broker_of w2) ! unat t)" by fastforce
    note s2 = step_trans [OF c1(2) c2(2)]
    have start: "register_subscriber nw i n w =
        (case r2 of None \<Rightarrow> Inr (False, after_call (nd_node_id n2) buf2 n2, w2)
         | Some (t, q) \<Rightarrow>
             let n4 = change_subscriber i (\<lambda>s. s\<lparr>su_topic_id := t, su_topic_priority := q\<rparr>) (after_call (nd_node_id n2) buf2 n2)
             in rbind (node_add_pubsub nw ''add_subscriber'' t mt n4 w2) (\<lambda>(ok, n5, w3).
                if \<not> ok then Inr (False, n5, w3)
                else Inr (True, enter_subscriber i t q n5, w3)))"
      using c1(1) c2(1) i p Some by (simp add: register_subscriber_def n2_def [symmetric] Let_def)
    show ?thesis
    proof (cases r2)
      case None
      have "subscriber_outcome (broker_of w2) i n False (after_call (nd_node_id n2) buf2 n2)"
        using i by (simp add: subscriber_outcome_def fun_eq_iff n2_def)
      with start None s2 c2(3) show ?thesis by (auto simp: progress_def)
    next
      case (Some tq)
      then obtain t q where tq: "r2 = Some (t, q)" by (cases tq) auto
      define n4 where "n4 = change_subscriber i (\<lambda>s. s\<lparr>su_topic_id := t, su_topic_priority := q\<rparr>) (after_call (nd_node_id n2) buf2 n2)"
      from t2 [OF tq] have r4: "ready n4 w2" "space k w2"
        and known: "endpoint_known (broker_of w2) (su_topic_name p) (su_message_type_name p) (su_message_size p) mt t"
          "q = t_priority (br_topics (broker_of w2) ! unat t)"
        unfolding n4_def by (auto elim: ready_view [rotated])
      have id4: "nd_node_id n4 = ?id" by (simp add: n4_def n2_def)
      have n4: "nd_subscribers n4 = (nd_subscribers n)[i := p\<lparr>su_message_type_id := mt, su_topic_id := t, su_topic_priority := q\<rparr>]"
        "publishers_at n4 = publishers_at n" "subscribers_on n4 = subscribers_on n" "callbacks_at n4 = callbacks_at n" "nd_publishers n4 = nd_publishers n"
        using i p by (simp_all add: n4_def n2_def fun_eq_iff)
      from calls_add_pubsub [OF r4, of "''add_subscriber''" t_subscribers t mt] obtain ok buf3 w3 where
        c3: "node_add_pubsub nw ''add_subscriber'' t mt n4 w2 = Inr (ok, after_call ?id buf3 n4, w3)"
          "step w2 w3" "after (after_call ?id buf3 n4) w3"
        and t3: "ok \<Longrightarrow> ready (after_call ?id buf3 n4) w3 \<and> space k w3 \<and> ?id \<in> set (t_subscribers (br_topics (broker_of w3) ! unat t))"
        by (auto simp: id4)
      let ?n5 = "after_call ?id buf3 n4"
      let ?n6 = "if ok then enter_subscriber i t q ?n5 else ?n5"
      have run: "register_subscriber nw i n w = Inr (ok, ?n6, w3)"
        using start c3(1) by (cases ok) (simp_all add: tq n4_def [symmetric])
      have "subscriber_known (broker_of w3) ?id (p\<lparr>su_message_type_id := mt, su_topic_id := t, su_topic_priority := q\<rparr>)" if ok
        using endpoint_evolves [OF step_evolves [OF c3(2)] known(1)] t3 [OF that] known(2)
        by (simp add: subscriber_known_def topic_evolves_def)
      then have "subscriber_outcome (broker_of w3) i n ok ?n6"
        using i p n4 by (cases ok) (simp_all add: subscriber_outcome_def fun_eq_iff)
      moreover have "progress k w ok ?n6 w3"
        using step_trans [OF s2 c3(2)] c3(3) t3 ready_view [of ?n5 "enter_subscriber i t q ?n5" w3] ready_after
        by (cases ok) (simp_all add: progress_def)
      ultimately show ?thesis using run by blast
    qed
  qed
qed

section \<open>The loops of \<^verbatim>\<open>connect()\<close>\<close>

text \<open>Both loops, from position \<open>m\<close> on.\<close>

lemma register_publishers_served:
  assumes "ready n w" and "length (nd_publishers n) = m + d"
    and "\<forall>p\<in>set (nd_publishers n). publisher_short p" and "space (2 * d + k) w"
    and "publishers_done (broker_of w) m n"
  shows "\<exists>ok n' w'. register_each (register_publisher nw) [m..<m + d] n w = Inr (ok, n', w') \<and>
    progress k w ok n' w' \<and> nd_node_id n' = nd_node_id n \<and>
    nd_subscribers n' = nd_subscribers n \<and> subscribers_on n' = subscribers_on n \<and>
    length (nd_publishers n') = m + d \<and> (ok \<longrightarrow> publishers_done (broker_of w') (m + d) n')"
  using assms
proof (induction d arbitrary: m n w)
  case 0
  then show ?case by (auto simp: progress_def step_refl ready_after)
next
  case (Suc d)
  note IH = Suc.IH and prems = Suc.prems
  let ?reg = "register_publisher nw"
  have m: "m < length (nd_publishers n)" using prems(2) by simp
  then have "publisher_short (nd_publishers n ! m)" using prems(3) by simp
  then have short: "short (pu_topic_name (nd_publishers n ! m))" "short (pu_message_type_name (nd_publishers n ! m))"
    by (simp_all add: publisher_short_def)
  have space: "space (Suc (Suc (2 * d + k))) w" using prems(4) by simp
  from register_publisher_served [OF prems(1) m refl short space] obtain ok n1 w1 where
    1: "?reg m n w = Inr (ok, n1, w1)" "progress (2 * d + k) w ok n1 w1" "publisher_outcome (broker_of w1) m n ok n1" by blast
  from 1(3) have p1: "nd_node_id n1 = nd_node_id n" "nd_subscribers n1 = nd_subscribers n" "subscribers_on n1 = subscribers_on n"
    "nd_publishers n1 = (nd_publishers n)[m := nd_publishers n1 ! m]"
    "identified_publisher (nd_publishers n ! m) (nd_publishers n1 ! m)"
    by (simp_all add: publisher_outcome_def)
  have len: "length (nd_publishers n1) = Suc m + d" using p1(4) prems(2) by (metis length_list_update add_Suc_shift)
  have list: "[m..<m + Suc d] = m # [Suc m..<Suc m + d]" by (simp add: upt_conv_Cons)
  show ?case
  proof (cases ok)
    case False
    with 1 len p1 show ?thesis unfolding list by (auto simp: progress_def)
  next
    case True
    have sh: "\<forall>p\<in>set (nd_publishers n1). publisher_short p"
    proof
      fix p
      assume "p \<in> set (nd_publishers n1)"
      then have "p = nd_publishers n1 ! m \<or> p \<in> set (nd_publishers n)"
        using p1(4) set_update_subset_insert [of "nd_publishers n" m "nd_publishers n1 ! m"] by auto
      with prems(3) identified_short(1) [OF p1(5)] m show "publisher_short p" by auto
    qed
    have "publishers_done (broker_of w1) (Suc m) n1"
      using publishers_done_step [OF _ prems(5) progress_evolves [OF 1(2)] m] 1(3) True by simp
    moreover have "ready n1 w1" "space (2 * d + k) w1" "step w w1" using 1(2) True by (simp_all add: progress_def)
    ultimately obtain ok2 n2 w2 where
      2: "register_each ?reg [Suc m..<Suc m + d] n1 w1 = Inr (ok2, n2, w2)" "progress k w ok2 n2 w2"
      "nd_node_id n2 = nd_node_id n1" "nd_subscribers n2 = nd_subscribers n1"
      "subscribers_on n2 = subscribers_on n1" "length (nd_publishers n2) = Suc m + d"
      "ok2 \<longrightarrow> publishers_done (broker_of w2) (Suc m + d) n2"
      using IH [of n1 w1 "Suc m"] len sh progress_first by blast
    have "register_each ?reg [m..<m + Suc d] n w = Inr (ok2, n2, w2)"
      unfolding list using 1(1) True 2(1) by simp
    then show ?thesis using 2 p1 by simp
  qed
qed

lemma register_subscribers_served:
  assumes "ready n w" and "length (nd_subscribers n) = m + d"
    and "\<forall>p\<in>set (nd_subscribers n). subscriber_short p" and "space (2 * d + k) w"
    and "subscribers_done (broker_of w) m n"
  shows "\<exists>ok n' w'. register_each (register_subscriber nw) [m..<m + d] n w = Inr (ok, n', w') \<and>
    progress k w ok n' w' \<and> nd_node_id n' = nd_node_id n \<and>
    nd_publishers n' = nd_publishers n \<and> publishers_at n' = publishers_at n \<and>
    length (nd_subscribers n') = m + d \<and> (ok \<longrightarrow> subscribers_done (broker_of w') (m + d) n')"
  using assms
proof (induction d arbitrary: m n w)
  case 0
  then show ?case by (auto simp: progress_def step_refl ready_after)
next
  case (Suc d)
  note IH = Suc.IH and prems = Suc.prems
  let ?reg = "register_subscriber nw"
  have m: "m < length (nd_subscribers n)" using prems(2) by simp
  then have "subscriber_short (nd_subscribers n ! m)" using prems(3) by simp
  then have short: "short (su_topic_name (nd_subscribers n ! m))" "short (su_message_type_name (nd_subscribers n ! m))"
    by (simp_all add: subscriber_short_def)
  have space: "space (Suc (Suc (2 * d + k))) w" using prems(4) by simp
  from register_subscriber_served [OF prems(1) m refl short space] obtain ok n1 w1 where
    1: "?reg m n w = Inr (ok, n1, w1)" "progress (2 * d + k) w ok n1 w1" "subscriber_outcome (broker_of w1) m n ok n1" by blast
  from 1(3) have p1: "nd_node_id n1 = nd_node_id n" "nd_publishers n1 = nd_publishers n" "publishers_at n1 = publishers_at n"
    "nd_subscribers n1 = (nd_subscribers n)[m := nd_subscribers n1 ! m]"
    "identified_subscriber (nd_subscribers n ! m) (nd_subscribers n1 ! m)"
    by (simp_all add: subscriber_outcome_def)
  have len: "length (nd_subscribers n1) = Suc m + d" using p1(4) prems(2) by (metis length_list_update add_Suc_shift)
  have list: "[m..<m + Suc d] = m # [Suc m..<Suc m + d]" by (simp add: upt_conv_Cons)
  show ?case
  proof (cases ok)
    case False
    with 1 len p1 show ?thesis unfolding list by (auto simp: progress_def)
  next
    case True
    have sh: "\<forall>p\<in>set (nd_subscribers n1). subscriber_short p"
    proof
      fix p
      assume "p \<in> set (nd_subscribers n1)"
      then have "p = nd_subscribers n1 ! m \<or> p \<in> set (nd_subscribers n)"
        using p1(4) set_update_subset_insert [of "nd_subscribers n" m "nd_subscribers n1 ! m"] by auto
      with prems(3) identified_short(2) [OF p1(5)] m show "subscriber_short p" by auto
    qed
    have "subscribers_done (broker_of w1) (Suc m) n1"
      using subscribers_done_step [OF _ prems(5) progress_evolves [OF 1(2)] m] 1(3) True by simp
    moreover have "ready n1 w1" "space (2 * d + k) w1" "step w w1" using 1(2) True by (simp_all add: progress_def)
    ultimately obtain ok2 n2 w2 where
      2: "register_each ?reg [Suc m..<Suc m + d] n1 w1 = Inr (ok2, n2, w2)" "progress k w ok2 n2 w2"
      "nd_node_id n2 = nd_node_id n1" "nd_publishers n2 = nd_publishers n1"
      "publishers_at n2 = publishers_at n1" "length (nd_subscribers n2) = Suc m + d"
      "ok2 \<longrightarrow> subscribers_done (broker_of w2) (Suc m + d) n2"
      using IH [of n1 w1 "Suc m"] len sh progress_first by blast
    have "register_each ?reg [m..<m + Suc d] n w = Inr (ok2, n2, w2)"
      unfolding list using 1(1) True 2(1) by simp
    then show ?thesis using 2 p1 by simp
  qed
qed

section \<open>\<^verbatim>\<open>connect()\<close>\<close>

lemma node_connect_served:
  assumes ready: "ready n w" and n: "connectable n"
    and space: "space (Suc (2 * length (nd_publishers n) + 2 * length (nd_subscribers n))) w"
  shows "\<exists>ok n' w'. node_connect nw n w = Inr (ok, n', w') \<and> progress 0 w ok n' w' \<and>
    (ok \<longrightarrow> node_agrees (broker_of w') client n')"
proof -
  let ?np = "length (nd_publishers n)" and ?ns = "length (nd_subscribers n)"
  have start: "node_connect nw n w =
      rbind (node_register_node nw n w) (\<lambda>(ok, n1, w3).
      if \<not> ok then Inr (False, n1, w3)
      else rbind (register_each (register_publisher nw) [0..<length (nd_publishers n1)] n1 w3) (\<lambda>(ok, n2, w4).
      if \<not> ok then Inr (False, n2, w4)
      else register_each (register_subscriber nw) [0..<length (nd_subscribers n2)] n2 w4))"
    by (simp add: node_connect_def opens)
  from calls_register_node [OF ready _ space] n obtain ok1 i buf w1 where
    1: "node_register_node nw n w = Inr (ok1, after_call i buf n, w1)" "step w w1" "after (after_call i buf n) w1"
    and t1: "ok1 \<Longrightarrow> ready (after_call i buf n) w1 \<and> space (2 * ?np + 2 * ?ns) w1 \<and>
      unat i < length (br_nodes (broker_of w1)) \<and> br_nodes (broker_of w1) ! unat i = \<lparr>ni_name = nd_name n, ni_address = client\<rparr>"
    by (auto simp: connectable_def)
  let ?n1 = "after_call i buf n"
  show ?thesis
  proof (cases ok1)
    case False
    with 1 start show ?thesis by (auto simp: progress_def)
  next
    case ok1: True
    from t1 [OF this] have r1: "ready ?n1 w1" "space (2 * ?np + 2 * ?ns) w1"
      and known: "unat i < length (br_nodes (broker_of w1))"
        "br_nodes (broker_of w1) ! unat i = \<lparr>ni_name = nd_name n, ni_address = client\<rparr>" by auto
    have "publishers_done (broker_of w1) 0 ?n1" by (simp add: publishers_done_def)
    from register_publishers_served [OF r1(1), of 0 ?np, OF _ _ r1(2) this] n obtain ok2 n2 w2 where
      2: "register_each (register_publisher nw) [0..<?np] ?n1 w1 = Inr (ok2, n2, w2)" "progress (2 * ?ns) w1 ok2 n2 w2"
      "nd_node_id n2 = i" "nd_subscribers n2 = nd_subscribers n" "subscribers_on n2 = subscribers_on ?n1"
      "length (nd_publishers n2) = ?np" "ok2 \<longrightarrow> publishers_done (broker_of w2) ?np n2"
      by (auto simp: connectable_def)
    note p2 = progress_first [OF 1(2) 2(2)]
    show ?thesis
    proof (cases ok2)
      case False
      with 1 2 ok1 p2 start show ?thesis by (auto simp: progress_def)
    next
      case ok2: True
      have sd: "subscribers_done (broker_of w2) 0 n2"
        using connectable_tables [OF n] 2(5) by (simp add: subscribers_done_def)
      have r2: "ready n2 w2" "space (2 * ?ns + 0) w2" using 2(2) ok2 by (simp_all add: progress_def)
      from register_subscribers_served [OF r2(1), of 0 ?ns, OF _ _ r2(2) sd] n 2(4) obtain ok3 n3 w3 where
        3: "register_each (register_subscriber nw) [0..<?ns] n2 w2 = Inr (ok3, n3, w3)" "progress 0 w2 ok3 n3 w3"
        "nd_node_id n3 = i" "nd_publishers n3 = nd_publishers n2" "publishers_at n3 = publishers_at n2"
        "length (nd_subscribers n3) = ?ns" "ok3 \<longrightarrow> subscribers_done (broker_of w3) ?ns n3"
        by (auto simp: connectable_def 2(3))
      have "node_connect nw n w = Inr (ok3, n3, w3)" using start 1(1) ok1 2(1,4) ok2 3(1) by simp
      moreover have "node_agrees (broker_of w3) client n3" if ok3
      proof -
        have "publishers_done (broker_of w3) ?np n3"
          using publishers_done_evolves [OF _ progress_evolves [OF 3(2)], of ?np n2 n3] 2(3,7) 3(3-5) ok2 by simp
        moreover have "broker_evolves (broker_of w1) (broker_of w3)"
          using broker_evolves_trans [OF progress_evolves [OF 2(2)] progress_evolves [OF 3(2)]] .
        from evolves_entries(1) [OF this known(1)] have "unat i < length (br_nodes (broker_of w3)) \<and>
            br_nodes (broker_of w3) ! unat i = \<lparr>ni_name = nd_name n, ni_address = client\<rparr>"
          using known(2) by simp
        ultimately show ?thesis using 3 that 2(6) by (simp add: node_agrees_def)
      qed
      moreover have "step w w2" using p2 by (simp add: progress_def)
      ultimately show ?thesis using progress_first [OF _ 3(2)] by blast
    qed
  qed
qed

end

end
