(* ===== verification/Connect.thy ===== *)
theory Connect
  imports Registration
begin

text \<open>
  \<^verbatim>\<open>Node::connect()\<close> against a running broker that serves nobody else meanwhile: the link of \<open>Rpc_Link\<close> provides the
  contract of \<open>Registration\<close>. The outcome is that node and broker agree; for a node with a single publisher or
  subscriber, the conditions under which \<^verbatim>\<open>connect()\<close> succeeds and the broker it leaves.
\<close>

section \<open>The calls, with what they mean for node and broker\<close>

definition link_step :: "link \<Rightarrow> link \<Rightarrow> bool" where
  "link_step lk lk' \<longleftrightarrow> broker_evolves (lk_broker lk) (lk_broker lk') \<and> lk_others lk' = lk_others lk"

lemma link_ok_inv: "link_ok server client n lk \<Longrightarrow> broker_inv (lk_broker lk)"
  by (simp add: link_ok_def)

lemma link_ok_view: "same_link_view n n' \<Longrightarrow> link_ok server client n lk \<Longrightarrow> link_ok server client n' lk"
  by (auto simp: same_link_view_def link_ok_def)

lemma link_ok_changes [simp]:
  "link_ok server client (change_publisher k f n) lk = link_ok server client n lk"
  "link_ok server client (change_subscriber k g n) lk = link_ok server client n lk"
  "link_ok server client (enter_publisher j t p n) lk = link_ok server client n lk"
  "link_ok server client (enter_subscriber j t p n) lk = link_ok server client n lk"
  by (simp_all add: link_ok_def change_publisher_def change_subscriber_def enter_publisher_def
      enter_subscriber_def Let_def)

lemma call_register_node:
  assumes link: "link_ok server client n lk" and "short (nd_name n)" and room: "room (Suc k) (lk_broker lk)"
  shows "\<exists>ok i buf lk'. node_register_node (broker_link server client dbg) n lk = Inr (ok, after_call i buf n, lk') \<and>
    link_ok server client (after_call i buf n) lk' \<and> link_step lk lk' \<and> room k (lk_broker lk') \<and>
    (ok \<longrightarrow> unat i < length (br_nodes (lk_broker lk')) \<and>
      br_nodes (lk_broker lk') ! unat i = \<lparr>ni_name = nd_name n, ni_address = client\<rparr>)"
proof -
  obtain r b' where r: "register_node client (nd_name n) (counted client (nd_bp_counter n + 1) (lk_broker lk)) = (r, b')"
    by fastforce
  have k: "room k b'" using operations_use_room(1) [OF r] room by simp
  have e: "broker_evolves (lk_broker lk) b'" by (rule evolves_counted [OF register_node_step_ok [OF r]])
  from node_register_node_linked [OF assms(1,2) r, of dbg] obtain buf lk' where
    c: "node_register_node (broker_link server client dbg) n lk =
      Inr (r \<noteq> None, after_call (case r of None \<Rightarrow> nd_node_id n | Some i \<Rightarrow> i) buf n, lk')"
    "lk_broker lk' = b'" "lk_others lk' = lk_others lk" "link_ok server client (after_call (nd_node_id n) buf n) lk'" by blast
  show ?thesis
  proof (cases r)
    case None
    with c k e show ?thesis by (auto simp: link_step_def)
  next
    case (Some i)
    with c k e register_node_granted [of client "nd_name n" _ i b'] r room_less [OF k, of 0]
    show ?thesis
      by (intro exI [of _ True] exI [of _ i] exI [of _ buf] exI [of _ lk'])
         (auto simp: link_step_def after_call_same(3) [of _ _ i buf n _ "nd_node_id n"])
  qed
qed

lemma call_register_message_type:
  assumes link: "link_ok server client n lk" and "short name" and room: "room (Suc k) (lk_broker lk)"
  shows "\<exists>r buf lk'. node_register_message_type (broker_link server client dbg) name msize n lk =
      Inr (r, after_call (nd_node_id n) buf n, lk') \<and>
    link_ok server client (after_call (nd_node_id n) buf n) lk' \<and> link_step lk lk' \<and> room k (lk_broker lk') \<and>
    (\<forall>mt. r = Some mt \<longrightarrow> unat mt < length (br_message_types (lk_broker lk')) \<and>
      br_message_types (lk_broker lk') ! unat mt = \<lparr>mti_name = name, mti_size = msize\<rparr>)"
proof -
  obtain r b' where r: "register_message_type name msize (counted client (nd_bp_counter n + 1) (lk_broker lk)) = (r, b')"
    by fastforce
  have k: "room k b'" using operations_use_room(2) [OF r] room by simp
  have e: "broker_evolves (lk_broker lk) b'" by (rule evolves_counted [OF register_message_type_step_ok [OF r]])
  from node_register_message_type_linked [OF assms(1,2) r, of dbg] obtain buf lk' where
    "node_register_message_type (broker_link server client dbg) name msize n lk = Inr (r, after_call (nd_node_id n) buf n, lk')"
    "lk_broker lk' = b'" "lk_others lk' = lk_others lk" "link_ok server client (after_call (nd_node_id n) buf n) lk'" by blast
  moreover have "r = Some mt \<Longrightarrow> unat mt < length (br_message_types b') \<and> br_message_types b' ! unat mt = \<lparr>mti_name = name, mti_size = msize\<rparr>" for mt
    using register_message_type_granted r room_less [OF k, of 0] by blast
  ultimately show ?thesis
    using k e by (intro exI [of _ r] exI [of _ buf] exI [of _ lk']) (simp add: link_step_def)
qed

lemma call_register_topic:
  assumes link: "link_ok server client n lk" and "short name" and room: "room (Suc k) (lk_broker lk)"
    and mt: "unat mt < length (br_message_types (lk_broker lk))"
    and type: "br_message_types (lk_broker lk) ! unat mt = \<lparr>mti_name = type_name, mti_size = msize\<rparr>"
  shows "\<exists>r buf lk'. node_register_topic (broker_link server client dbg) name mt prio want n lk =
      Inr (r, after_call (nd_node_id n) buf n, lk') \<and>
    link_ok server client (after_call (nd_node_id n) buf n) lk' \<and> link_step lk lk' \<and> room k (lk_broker lk') \<and>
    (\<forall>t q. r = Some (t, q) \<longrightarrow> endpoint_known (lk_broker lk') name type_name msize mt t \<and>
      q = (if want then t_priority (br_topics (lk_broker lk') ! unat t) else prio))"
proof -
  let ?b = "counted client (nd_bp_counter n + 1) (lk_broker lk)"
  have inv: "broker_inv ?b" using link_ok_inv [OF link] by simp
  from register_topic_total [OF inv, of mt name prio] mt obtain r b' where r: "register_topic name mt prio ?b = Inr (r, b')"
    by auto
  have k: "room k b'" using operations_use_room(3) [OF r] room by simp
  have e: "broker_evolves (lk_broker lk) b'" by (rule evolves_counted [OF register_topic_step_ok [OF r]])
  from node_register_topic_linked [OF assms(1,2) r, of dbg want] obtain buf lk' where
    "node_register_topic (broker_link server client dbg) name mt prio want n lk =
      Inr (map_option (\<lambda>(t, actual). (t, if want then actual else prio)) r, after_call (nd_node_id n) buf n, lk')"
    "lk_broker lk' = b'" "lk_others lk' = lk_others lk" "link_ok server client (after_call (nd_node_id n) buf n) lk'" by blast
  moreover have "endpoint_known b' name type_name msize mt t \<and> actual = t_priority (br_topics b' ! unat t)"
    if "r = Some (t, actual)" for t actual
    using register_topic_granted [OF inv, of name mt prio t actual b'] r that k evolves_entries(2) [OF e mt] type
    by (simp add: endpoint_known_def room_def)
  ultimately show ?thesis
    using k e
    by (intro exI [of _ "map_option (\<lambda>(t, actual). (t, if want then actual else prio)) r"] exI [of _ buf] exI [of _ lk'])
       (auto simp: link_step_def)
qed

lemma call_add_pubsub:
  assumes link: "link_ok server client n lk" and room: "room k (lk_broker lk)"
    and action: "(action, members) = (''add_publisher'', t_publishers) \<or> (action, members) = (''add_subscriber'', t_subscribers)"
  shows "\<exists>ok buf lk'. node_add_pubsub (broker_link server client dbg) action t mt n lk =
      Inr (ok, after_call (nd_node_id n) buf n, lk') \<and>
    link_ok server client (after_call (nd_node_id n) buf n) lk' \<and> link_step lk lk' \<and> room k (lk_broker lk') \<and>
    (ok \<longrightarrow> nd_node_id n \<in> set (members (br_topics (lk_broker lk') ! unat t)))"
proof -
  let ?b = "counted client (nd_bp_counter n + 1) (lk_broker lk)" and ?i = "nd_node_id n"
  have inv: "broker_inv ?b" using link_ok_inv [OF link] by simp
  obtain add ok b' where add: "(action, add) = (''add_publisher'', add_publisher) \<or> (action, add) = (''add_subscriber'', add_subscriber)"
    "add ?i t mt ?b = Inr (ok, b')" "room k b'" "broker_step_ok ?b b'" "ok \<Longrightarrow> ?i \<in> set (members (br_topics b' ! unat t))"
    using action
  proof
    assume a: "(action, members) = (''add_publisher'', t_publishers)"
    obtain ok b' where r: "add_publisher ?i t mt ?b = Inr (ok, b')" using add_total(1) [OF inv] by blast
    with a room operations_use_room(4) [OF r, of k] add_publisher_step_ok [OF r] add_effect(1) [OF r]
    show thesis by (intro that [of add_publisher ok b']) auto
  next
    assume a: "(action, members) = (''add_subscriber'', t_subscribers)"
    obtain ok b' where r: "add_subscriber ?i t mt ?b = Inr (ok, b')" using add_total(2) [OF inv] by blast
    with a room operations_use_room(5) [OF r, of k] add_subscriber_step_ok [OF r] add_effect(2) [OF r]
    show thesis by (intro that [of add_subscriber ok b']) auto
  qed
  from node_add_pubsub_linked [OF link add(1,2), of dbg] evolves_counted [OF add(4)] add(3,5) show ?thesis
    by (auto simp: link_step_def)
qed

section \<open>The link provides the contract\<close>

lemma link_opens:
  "nw_socket (broker_link server client dbg) p lk = Inr (True, lk)"
  "nw_connect (broker_link server client dbg) a lk = Inr (True, lk)"
  by (simp_all add: broker_link_def)

lemma link_step_trans: "link_step lk lk1 \<Longrightarrow> link_step lk1 lk2 \<Longrightarrow> link_step lk lk2"
  by (auto simp: link_step_def intro: broker_evolves_trans)

interpretation quiet: registration_service "broker_link server client dbg" client lk_broker
  "link_ok server client" "link_ok server client" link_step "\<lambda>k lk. room k (lk_broker lk)"
  for server client :: string and dbg :: bool
proof (unfold_locales, goal_cases)
  case 9
  from call_register_node [OF 9(1-3)] show ?case by blast
next
  case 10
  from call_register_message_type [OF 10(1-3)] show ?case by blast
next
  case 11
  from call_register_topic [OF 11(1-5)] show ?case by blast
next
  case 12
  from call_add_pubsub [OF 12(1-3)] show ?case by blast
qed (auto simp: link_opens link_ok_view link_step_def room_less intro: link_step_trans broker_evolves_trans)

lemma node_connect_linked:
  assumes "link_ok server client n lk" and "connectable n"
    and "room (Suc (2 * length (nd_publishers n) + 2 * length (nd_subscribers n))) (lk_broker lk)"
  shows "\<exists>ok n' lk'. node_connect (broker_link server client dbg) n lk = Inr (ok, n', lk') \<and>
    link_ok server client n' lk' \<and> link_step lk lk' \<and> (ok \<longrightarrow> node_agrees (lk_broker lk') client n')"
  using quiet.node_connect_served [OF assms, of dbg] by (auto simp: quiet.progress_def)

section \<open>Nodes with a single endpoint\<close>

text \<open>
  A node with a single endpoint connects when the broker's operations accept what it asks for, one after
  the other; the broker ends as the last of them leaves it.
\<close>

lemma one_publisher_connects:
  assumes link: "link_ok server client n lk" and one: "nd_publishers n = [p]" "nd_subscribers n = []"
    and names: "short (nd_name n)" "publisher_short p"
    and b1: "register_node client (nd_name n) (counted client (nd_bp_counter n + 1) (lk_broker lk)) = (Some i, b1)"
    and b2: "register_message_type (pu_message_type_name p) (pu_message_size p) (counted client (nd_bp_counter n + 2) b1) = (Some mt, b2)"
    and b3: "register_topic (pu_topic_name p) mt (pu_topic_priority p) (counted client (nd_bp_counter n + 3) b2) = Inr (Some (t, pr), b3)"
    and b4: "add_publisher i t mt (counted client (nd_bp_counter n + 4) b3) = Inr (True, b4)"
  shows "\<exists>n' lk'. node_connect (broker_link server client dbg) n lk = Inr (True, n', lk') \<and> lk_broker lk' = b4 \<and>
    (\<exists>p'. nd_publishers n' = [p'] \<and> pu_topic_name p' = pu_topic_name p) \<and>
    (nd_topics_by_prio n = [] \<longrightarrow>
      nd_topics_by_prio n' = [(pu_topic_priority p, \<lparr>ti_publishers = [0], ti_subscribers = []\<rparr>)])"
proof -
  let ?nw = "broker_link server client dbg"
  from node_register_node_linked [OF link names(1) b1, of dbg] obtain buf1 lk1 where
    1: "node_register_node ?nw n lk = Inr (True, after_call i buf1 n, lk1)" "lk_broker lk1 = b1"
    "link_ok server client (after_call i buf1 n) lk1"
    using after_call_same(3) by fastforce
  let ?n1 = "after_call i buf1 n"
  have c1: "nd_bp_counter ?n1 + 1 = nd_bp_counter n + 2" "nd_publishers ?n1 = [p]" "nd_subscribers ?n1 = []" "nd_node_id ?n1 = i"
    using one by (simp_all add: after_call_def)
  have tn: "short (pu_message_type_name p)" "short (pu_topic_name p)" using names(2) by (simp_all add: publisher_short_def)
  note b2' = b2 [folded c1(1) 1(2)]
  from node_register_message_type_linked [OF 1(3) tn(1) b2', of dbg] obtain buf2 lk2 where
    2: "node_register_message_type ?nw (pu_message_type_name p) (pu_message_size p) ?n1 lk1 =
      Inr (Some mt, after_call i buf2 ?n1, lk2)" "lk_broker lk2 = b2" "link_ok server client (after_call i buf2 ?n1) lk2"
    by (auto simp: c1)
  let ?n2 = "change_publisher 0 (\<lambda>p. p\<lparr>pu_message_type_id := mt\<rparr>) (after_call i buf2 ?n1)"
  have c2: "nd_bp_counter ?n2 + 1 = nd_bp_counter n + 3" "nd_node_id ?n2 = i"
    by (simp_all add: after_call_def change_publisher_def)
  have l2: "link_ok server client ?n2 lk2" using 2(3) by simp
  note b3' = b3 [folded c2(1) 2(2)]
  from node_register_topic_linked [OF l2 tn(2) b3', of dbg False] obtain buf3 lk3 where
    3: "node_register_topic ?nw (pu_topic_name p) mt (pu_topic_priority p) False ?n2 lk2 =
      Inr (Some (t, pu_topic_priority p), after_call i buf3 ?n2, lk3)" "lk_broker lk3 = b3"
    "link_ok server client (after_call i buf3 ?n2) lk3"
    unfolding c2(2) by auto
  let ?n4 = "change_publisher 0 (\<lambda>p. p\<lparr>pu_topic_id := t\<rparr>) (after_call i buf3 ?n2)"
  have c4: "nd_bp_counter ?n4 + 1 = nd_bp_counter n + 4" "nd_node_id ?n4 = i"
    by (simp_all add: after_call_def change_publisher_def)
  have l4: "link_ok server client ?n4 lk3" using 3(3) by simp
  have b4': "add_publisher (nd_node_id ?n4) t mt (counted client (nd_bp_counter ?n4 + 1) (lk_broker lk3)) = Inr (True, b4)"
    using b4 by (simp only: c4 3(2))
  from node_add_pubsub_linked [OF l4, of "''add_publisher''" add_publisher t mt True b4 dbg] b4' obtain buf4 lk4 where
    4: "node_add_pubsub ?nw ''add_publisher'' t mt ?n4 lk3 = Inr (True, after_call (nd_node_id ?n4) buf4 ?n4, lk4)"
    "lk_broker lk4 = b4"
    by auto
  let ?n5 = "enter_publisher 0 t (pu_topic_priority p) (after_call (nd_node_id ?n4) buf4 ?n4)"
  have "register_publisher ?nw 0 ?n1 lk1 = Inr (True, ?n5, lk4)"
    using 2(1) 3(1) 4(1) by (simp add: register_publisher_def one Let_def)
  moreover have "\<exists>p'. nd_publishers ?n5 = [p'] \<and> pu_topic_name p' = pu_topic_name p"
    using one by (simp add: after_call_def change_publisher_def)
  moreover have "nd_topics_by_prio n = [] \<longrightarrow>
      nd_topics_by_prio ?n5 = [(pu_topic_priority p, \<lparr>ti_publishers = [0], ti_subscribers = []\<rparr>)]"
    by (simp add: after_call_def change_publisher_def enter_publisher_def prio_get_def topic_info_empty_def Let_def)
  moreover have "nd_subscribers ?n5 = []"
    using one by (simp add: after_call_def change_publisher_def)
  ultimately show ?thesis using 1(1) link_opens [of server client dbg] 4(2) one by (simp add: node_connect_def)
qed

lemma one_subscriber_connects:
  assumes link: "link_ok server client n lk" and one: "nd_publishers n = []" "nd_subscribers n = [s]"
    and names: "short (nd_name n)" "subscriber_short s"
    and b1: "register_node client (nd_name n) (counted client (nd_bp_counter n + 1) (lk_broker lk)) = (Some i, b1)"
    and b2: "register_message_type (su_message_type_name s) (su_message_size s) (counted client (nd_bp_counter n + 2) b1) = (Some mt, b2)"
    and b3: "register_topic (su_topic_name s) mt (su_topic_priority s) (counted client (nd_bp_counter n + 3) b2) = Inr (Some (t, pr), b3)"
    and b4: "add_subscriber i t mt (counted client (nd_bp_counter n + 4) b3) = Inr (True, b4)"
  shows "\<exists>n' lk'. node_connect (broker_link server client dbg) n lk = Inr (True, n', lk') \<and> lk_broker lk' = b4 \<and>
    (\<exists>s'. nd_subscribers n' = [s'] \<and> su_topic_name s' = su_topic_name s) \<and>
    (nd_topics_by_prio n = [] \<longrightarrow> nd_topics_by_prio n' = [(pr, \<lparr>ti_publishers = [], ti_subscribers = [0]\<rparr>)])"
proof -
  let ?nw = "broker_link server client dbg"
  from node_register_node_linked [OF link names(1) b1, of dbg] obtain buf1 lk1 where
    1: "node_register_node ?nw n lk = Inr (True, after_call i buf1 n, lk1)" "lk_broker lk1 = b1"
    "link_ok server client (after_call i buf1 n) lk1"
    using after_call_same(3) by fastforce
  let ?n1 = "after_call i buf1 n"
  have c1: "nd_bp_counter ?n1 + 1 = nd_bp_counter n + 2" "nd_publishers ?n1 = []" "nd_subscribers ?n1 = [s]" "nd_node_id ?n1 = i"
    using one by (simp_all add: after_call_def)
  have tn: "short (su_message_type_name s)" "short (su_topic_name s)" using names(2) by (simp_all add: subscriber_short_def)
  note b2' = b2 [folded c1(1) 1(2)]
  from node_register_message_type_linked [OF 1(3) tn(1) b2', of dbg] obtain buf2 lk2 where
    2: "node_register_message_type ?nw (su_message_type_name s) (su_message_size s) ?n1 lk1 =
      Inr (Some mt, after_call i buf2 ?n1, lk2)" "lk_broker lk2 = b2" "link_ok server client (after_call i buf2 ?n1) lk2"
    by (auto simp: c1)
  let ?n2 = "change_subscriber 0 (\<lambda>s. s\<lparr>su_message_type_id := mt\<rparr>) (after_call i buf2 ?n1)"
  have c2: "nd_bp_counter ?n2 + 1 = nd_bp_counter n + 3" "nd_node_id ?n2 = i"
    by (simp_all add: after_call_def change_subscriber_def)
  have l2: "link_ok server client ?n2 lk2" using 2(3) by simp
  note b3' = b3 [folded c2(1) 2(2)]
  from node_register_topic_linked [OF l2 tn(2) b3', of dbg True] obtain buf3 lk3 where
    3: "node_register_topic ?nw (su_topic_name s) mt (su_topic_priority s) True ?n2 lk2 =
      Inr (Some (t, pr), after_call i buf3 ?n2, lk3)" "lk_broker lk3 = b3"
    "link_ok server client (after_call i buf3 ?n2) lk3"
    unfolding c2(2) by auto
  let ?n4 = "change_subscriber 0 (\<lambda>s. s\<lparr>su_topic_id := t, su_topic_priority := pr\<rparr>) (after_call i buf3 ?n2)"
  have c4: "nd_bp_counter ?n4 + 1 = nd_bp_counter n + 4" "nd_node_id ?n4 = i"
    by (simp_all add: after_call_def change_subscriber_def)
  have l4: "link_ok server client ?n4 lk3" using 3(3) by simp
  have b4': "add_subscriber (nd_node_id ?n4) t mt (counted client (nd_bp_counter ?n4 + 1) (lk_broker lk3)) = Inr (True, b4)"
    using b4 by (simp only: c4 3(2))
  from node_add_pubsub_linked [OF l4, of "''add_subscriber''" add_subscriber t mt True b4 dbg] b4' obtain buf4 lk4 where
    4: "node_add_pubsub ?nw ''add_subscriber'' t mt ?n4 lk3 = Inr (True, after_call (nd_node_id ?n4) buf4 ?n4, lk4)"
    "lk_broker lk4 = b4"
    by auto
  let ?n5 = "enter_subscriber 0 t pr (after_call (nd_node_id ?n4) buf4 ?n4)"
  have "register_subscriber ?nw 0 ?n1 lk1 = Inr (True, ?n5, lk4)"
    using 2(1) 3(1) 4(1) by (simp add: register_subscriber_def one Let_def)
  moreover have "\<exists>s'. nd_subscribers ?n5 = [s'] \<and> su_topic_name s' = su_topic_name s"
    using one by (simp add: after_call_def change_subscriber_def)
  moreover have "nd_topics_by_prio n = [] \<longrightarrow> nd_topics_by_prio ?n5 = [(pr, \<lparr>ti_publishers = [], ti_subscribers = [0]\<rparr>)]"
    by (simp add: after_call_def change_subscriber_def enter_subscriber_def prio_get_def topic_info_empty_def Let_def)
  ultimately show ?thesis using 1(1) link_opens [of server client dbg] 4(2) one by (simp add: node_connect_def)
qed

end
