(* ===== verification/Busy_Link.thy ===== *)
theory Busy_Link
  imports Connect
begin

text \<open>
  \<^verbatim>\<open>Node::connect()\<close> against a broker that serves other clients at the same time. Between the calls of
  the node, the broker handles whatever packets of others come first: registrations, messages, packets that
  are refused. The theory first says what handling a packet of somebody else leaves alone, then
  shows that the busy broker provides the contract of \<open>Registration\<close> as well.
\<close>

section \<open>Handling a packet of another client\<close>

lemma decode_type:
  assumes "decode_packet_buffer (bytes @ rest) (length bytes) = Inr (ty, d)" and "ty \<noteq> bp_invalid"
  shows "take 1 bytes = [ty]"
proof -
  have "bp_header_size \<le> length bytes"
    using assms by (auto simp: decode_packet_buffer_def split: if_splits)
  then have ne: "bytes \<noteq> []" by (auto simp: bp_header_size_def)
  then have first: "at (bytes @ rest) 0 = Inr (hd bytes)" by (cases bytes) simp_all
  have "ty = hd bytes"
    using assms first
    by (auto simp: decode_packet_buffer_def decode_control_def decode_data_def Let_def split: if_splits elim!: rbind_InrE)
  with ne show ?thesis by (cases bytes) simp_all
qed

lemma verify_others:
  assumes "verify_and_update_client_counter s c b = (ok, b1)"
  shows "br_client_counters b1 = br_client_counters b \<or> br_client_counters b1 = (br_client_counters b)(s \<mapsto> c)"
    and "room k b1 = room k b"
  using assms by (auto simp: verify_and_update_client_counter_def room_def split: option.splits if_splits)

lemma operations_room_left:
  "register_node client name b = (r1, b') \<Longrightarrow> room (Suc k) b \<longrightarrow> room k b'"
  "register_message_type name msize b = (r1, b') \<Longrightarrow> room (Suc k) b \<longrightarrow> room k b'"
  "register_topic name mt prio b = Inr (r2, b') \<Longrightarrow> room (Suc k) b \<longrightarrow> room k b'"
  "add_publisher i t mt b = Inr (ok, b') \<Longrightarrow> room (Suc k) b \<longrightarrow> room k b'"
  "add_subscriber i t mt b = Inr (ok, b') \<Longrightarrow> room (Suc k) b \<longrightarrow> room k b'"
  using operations_use_room [where k = k] room_less [of "Suc k" b k] by simp_all

lemma process_uses_room:
  "process_control_request s request b = Inr (response, b') \<Longrightarrow> room (Suc k) b \<Longrightarrow> room k b'"
  using room_less [of "Suc k" b k]
  by (auto simp: process_control_request_def request_defs split: if_splits prod.splits option.splits
      elim!: rbind_InrE dest!: operations_room_left [where k = k])

lemma send_control_response_mailbox:
  assumes "send_control_response mailbox_network s response b w = Inr (ok, b', w')"
  shows "ok" and "\<exists>answer. w' = w\<lparr>mb_sent := mb_sent w @ [(s, answer)]\<rparr> \<and> take 1 answer = [bp_control]"
    and "\<exists>c. br_client_counters b' = (br_client_counters b)(s \<mapsto> c)" and "room k b' = room k b"
  using assms by (auto simp: send_control_response_def mailbox_network_def room_def bp_control_json_to_packet_buffer_def Let_def
      elim!: rbind_InrE)

lemma send_to_subscribers_mailbox:
  "send_to_subscribers mailbox_network nodes is packet w = Inr w' \<Longrightarrow>
   \<exists>as. w' = w\<lparr>mb_sent := mb_sent w @ map (\<lambda>a. (a, packet)) as\<rparr>"
proof (induction "is" arbitrary: w)
  case Nil
  then show ?case by (intro exI [of _ "[]"]) simp
next
  case (Cons i "is")
  then obtain a where "send_to_subscribers mailbox_network nodes is packet (w\<lparr>mb_sent := mb_sent w @ [(a, packet)]\<rparr>) = Inr w'"
    by (auto simp: broker_send_data_def mailbox_network_def elim!: rbind_InrE)
  from Cons.IH [OF this] obtain as where "w' = w\<lparr>mb_sent := mb_sent w @ map (\<lambda>a. (a, packet)) (a # as)\<rparr>" by auto
  then show ?case by blast
qed

lemma forward_data_mailbox:
  assumes "forward_data mailbox_network dbg h buf k b w = Inr w'"
  shows "\<exists>as. w' = w\<lparr>mb_sent := mb_sent w @ map (\<lambda>a. (a, take k buf)) as\<rparr>"
proof -
  have "\<exists>as. w = w\<lparr>mb_sent := mb_sent w @ map (\<lambda>a. (a, take k buf)) as\<rparr>" by (intro exI [of _ "[]"]) simp
  with assms show ?thesis
    by (auto simp: forward_data_def Let_def read_at_def slice_def split: if_splits elim!: rbind_InrE
        dest!: send_to_subscribers_mailbox)
qed

text \<open>What the broker may send on account of packet \<open>p\<close> of client \<open>s\<close>: copies of a data packet, or an answer to \<open>s\<close>.\<close>

definition caused :: "byte list \<times> string \<Rightarrow> string \<times> byte list \<Rightarrow> bool" where
  "caused received sent \<longleftrightarrow>
     take 1 (fst received) = [bp_data] \<and> snd sent = take udp_buffer_size (fst received) \<or>
     take 1 (fst received) = [bp_control] \<and> fst sent = snd received \<and> take 1 (snd sent) = [bp_control]"

lemma handle_others_packet:
  assumes handle: "handle_packet mailbox_network dbg s (bytes @ rest) (length bytes) b w = Inr (go_on, b', w')"
    and w: "mb_sent w = []" "mb_inbox w = []"
  shows "go_on" and "client \<noteq> s \<Longrightarrow> br_client_counters b' client = br_client_counters b client"
    and "room (Suc k) b \<Longrightarrow> room k b'"
    and "\<forall>sent\<in>set (mb_sent w'). take 1 bytes = [bp_data] \<and> snd sent = bytes \<or> take 1 bytes = [bp_control] \<and> fst sent = s \<and> take 1 (snd sent) = [bp_control]"
proof -
  obtain ty d where d: "decode_packet_buffer (bytes @ rest) (length bytes) = Inr (ty, d)"
    using handle by (auto simp: handle_packet_def elim!: rbind_InrE)
  obtain ok b1 where v: "verify_and_update_client_counter s (bph_counter (dec_header d)) b = (ok, b1)" by fastforce
  note counters = verify_others(1) [OF v] and room = verify_others(2) [OF v]
  consider (quiet) "go_on" "b' = b1" "w' = w"
    | (control) response b2 where "ty = bp_control" "process_control_request s (dec_json d) b1 = Inr (response, b2)"
        "send_control_response mailbox_network s response b2 w = Inr (go_on, b', w')"
    | (data) "ty = bp_data" "go_on" "b' = b1" "forward_data mailbox_network dbg (dec_data_header d) (bytes @ rest) (length bytes) b1 w = Inr w'"
    using handle by (auto simp: handle_packet_def d v split: if_splits elim!: rbind_InrE)
  then have "go_on \<and> (client \<noteq> s \<longrightarrow> br_client_counters b' client = br_client_counters b client) \<and>
      (room (Suc k) b \<longrightarrow> room k b') \<and>
      (\<forall>sent\<in>set (mb_sent w'). take 1 bytes = [bp_data] \<and> snd sent = bytes \<or> take 1 bytes = [bp_control] \<and> fst sent = s \<and> take 1 (snd sent) = [bp_control])"
  proof cases
    case quiet
    have "room (Suc k) b \<longrightarrow> room k b1" using room [of k] room_less [of "Suc k" b k] by simp
    with quiet counters w show ?thesis by (elim disjE) simp_all
  next
    case control
    have "take 1 bytes = [bp_control]" using decode_type [OF d] control(1) by (simp add: bp_type_defs)
    moreover have "br_client_counters b' client = br_client_counters b client" if "client \<noteq> s"
      using counters process_keeps_counters [OF control(2)] send_control_response_mailbox(3) [OF control(3)] that by auto
    ultimately show ?thesis
      using send_control_response_mailbox [OF control(3)] process_uses_room [OF control(2), of k] room w by auto
  next
    case data
    have "take 1 bytes = [bp_data]" using decode_type [OF d] data(1) by (simp add: bp_type_defs)
    moreover have "room (Suc k) b \<longrightarrow> room k b1" using room [of k] room_less [of "Suc k" b k] by simp
    moreover from forward_data_mailbox [OF data(4)] obtain as where "mb_sent w' = map (\<lambda>a. (a, bytes)) as" using w by auto
    ultimately show ?thesis using data(2,3) counters by (elim disjE) (simp_all add: image_iff)
  qed
  then show "go_on" and "client \<noteq> s \<Longrightarrow> br_client_counters b' client = br_client_counters b client"
    and "room (Suc k) b \<Longrightarrow> room k b'"
    and "\<forall>sent\<in>set (mb_sent w'). take 1 bytes = [bp_data] \<and> snd sent = bytes \<or> take 1 bytes = [bp_control] \<and> fst sent = s \<and> take 1 (snd sent) = [bp_control]"
    by auto
qed

lemma spin_once_others_packet:
  assumes spin: "broker_spin_once mailbox_network dbg (b, buf, \<lparr>mb_inbox = [(p, s)], mb_sent = []\<rparr>) = Inr (go_on, b', buf', w')"
  shows "go_on" and "client \<noteq> s \<Longrightarrow> br_client_counters b' client = br_client_counters b client"
    and "room (Suc k) b \<Longrightarrow> room k b'" and "\<forall>sent\<in>set (mb_sent w'). caused (p, s) sent"
proof -
  let ?bytes = "take udp_buffer_size p" and ?w = "\<lparr>mb_inbox = [], mb_sent = []\<rparr> :: mailbox"
  have first: "take 1 ?bytes = take 1 p" by (simp add: udp_buffer_size_def min_def)
  from spin obtain rest where
    h: "handle_packet mailbox_network dbg s (?bytes @ rest) (length ?bytes) b ?w = Inr (go_on, b', w')"
    by (auto simp: broker_spin_once_def mailbox_network_def write_at_def split: if_splits elim!: rbind_InrE)
  note facts = handle_others_packet [OF h]
  show "go_on" using facts(1) by simp
  show "br_client_counters b' client = br_client_counters b client" if "client \<noteq> s" using facts(2) that by simp
  show "room k b'" if "room (Suc k) b" using facts(3) that by simp
  show "\<forall>sent\<in>set (mb_sent w'). caused (p, s) sent" using facts(4) unfolding caused_def first by simp
qed

section \<open>The busy link\<close>

text \<open>
  Before a packet of the node reaches the broker, the broker handles the next batch of pending packets
  of others; the rest is the link of \<open>Rpc_Link\<close>.
\<close>

fun link_serve_all :: "string \<Rightarrow> bool \<Rightarrow> (byte list \<times> string) list \<Rightarrow> link \<Rightarrow> link res" where
  "link_serve_all client dbg [] lk = Inr lk"
| "link_serve_all client dbg (received # rs) lk =
     rbind (link_serve client dbg received lk) (link_serve_all client dbg rs)"

record exchange =
  ex_link :: link
  ex_pending :: "(byte list \<times> string) list list"

definition exchange_serve :: "string \<Rightarrow> bool \<Rightarrow> exchange \<Rightarrow> exchange res" where
  "exchange_serve client dbg ex =
     (case ex_pending ex of
        [] \<Rightarrow> Inr ex
      | batch # rest \<Rightarrow>
          rbind (link_serve_all client dbg batch (ex_link ex)) (\<lambda>lk. Inr \<lparr>ex_link = lk, ex_pending = rest\<rparr>))"

definition on_link :: "(link \<Rightarrow> ('a \<times> link) res) \<Rightarrow> exchange \<Rightarrow> ('a \<times> exchange) res" where
  "on_link f ex = rbind (f (ex_link ex)) (\<lambda>(r, lk). Inr (r, ex\<lparr>ex_link := lk\<rparr>))"

definition busy_link :: "string \<Rightarrow> string \<Rightarrow> bool \<Rightarrow> exchange network" where
  "busy_link server client dbg =
     \<lparr>nw_socket = (\<lambda>p ex. Inr (True, ex)), nw_bind = (\<lambda>a ex. Inr (True, ex)),
      nw_listen = (\<lambda>ex. Inr (True, ex)), nw_accept = (\<lambda>ex. Inr (True, ex)),
      nw_connect = (\<lambda>a ex. Inr (True, ex)),
      nw_sendto = (\<lambda>a packet ex.
        rbind (if a = server then exchange_serve client dbg ex else Inr ex) (on_link (link_send server client dbg a packet))),
      nw_recvfrom = (\<lambda>k block. on_link (link_receive server k block)), nw_close = (\<lambda>ex. Inr (False, ex))\<rparr>"

text \<open>A call over the busy link is a call over the quiet one, once the batch has been handled.\<close>

lemma busy_rpc:
  assumes "nd_broker_address n = server" and "exchange_serve client dbg ex = Inr \<lparr>ex_link = lk, ex_pending = rest\<rparr>"
    and "broker_rpc_blocking (broker_link server client dbg) request n lk = Inr (result, n', lk')"
  shows "broker_rpc_blocking (busy_link server client dbg) request n ex = Inr (result, n', \<lparr>ex_link = lk', ex_pending = rest\<rparr>)"
proof -
  let ?qn = "broker_link server client dbg" and ?bn = "busy_link server client dbg"
  have sends: "send_control ?bn request n ex =
      rbind (send_control ?qn request n lk) (\<lambda>(ok, n1, lk1). Inr (ok, n1, \<lparr>ex_link = lk1, ex_pending = rest\<rparr>))"
    using assms(1,2)
    by (cases "bp_control_json_to_packet_buffer request (nd_bp_counter n + 1)")
       (simp_all add: send_control_def next_bp_counter_def busy_link_def broker_link_def on_link_def Let_def split_def rbind_assoc)
  have receives: "receive_message ?bn True n1 \<lparr>ex_link = lk1, ex_pending = rest\<rparr> =
      rbind (receive_message ?qn True n1 lk1) (\<lambda>(r, n2, lk2). Inr (r, n2, \<lparr>ex_link = lk2, ex_pending = rest\<rparr>))" for n1 lk1
    by (auto simp: receive_message_def busy_link_def broker_link_def on_link_def link_receive_def Let_def rbind_assoc
        intro!: rbind_cong split: list.splits)
  from assms(3) obtain ok n1 lk1 where s: "send_control ?qn request n lk = Inr (ok, n1, lk1)"
    by (auto simp: broker_rpc_blocking_def elim!: rbind_InrE)
  show ?thesis
  proof (cases ok)
    case False
    with assms(3) s show ?thesis by (simp add: broker_rpc_blocking_def sends)
  next
    case True
    with assms(3) s obtain r n2 lk2 where "receive_message ?qn True n1 lk1 = Inr (r, n2, lk2)"
      by (auto simp: broker_rpc_blocking_def elim!: rbind_InrE)
    with assms(3) s True show ?thesis
      by (auto simp: broker_rpc_blocking_def sends receives split: receive_outcome.splits if_splits)
  qed
qed

lemma busy_calls:
  assumes "nd_broker_address n = server" and "exchange_serve client dbg ex = Inr \<lparr>ex_link = lk, ex_pending = rest\<rparr>"
  shows "node_register_node (broker_link server client dbg) n lk = Inr (ok, n', lk') \<Longrightarrow>
      node_register_node (busy_link server client dbg) n ex = Inr (ok, n', \<lparr>ex_link = lk', ex_pending = rest\<rparr>)"
    and "node_register_message_type (broker_link server client dbg) name msize n lk = Inr (r1, n', lk') \<Longrightarrow>
      node_register_message_type (busy_link server client dbg) name msize n ex = Inr (r1, n', \<lparr>ex_link = lk', ex_pending = rest\<rparr>)"
    and "node_register_topic (broker_link server client dbg) name mt prio want n lk = Inr (r2, n', lk') \<Longrightarrow>
      node_register_topic (busy_link server client dbg) name mt prio want n ex = Inr (r2, n', \<lparr>ex_link = lk', ex_pending = rest\<rparr>)"
    and "node_add_pubsub (broker_link server client dbg) action t mt n lk = Inr (ok, n', lk') \<Longrightarrow>
      node_add_pubsub (busy_link server client dbg) action t mt n ex = Inr (ok, n', \<lparr>ex_link = lk', ex_pending = rest\<rparr>)"
  by (auto simp: node_register_node_def node_register_message_type_def node_register_topic_def node_add_pubsub_def
      busy_rpc [OF assms] split: if_splits elim!: rbind_InrE)

section \<open>What serving others leaves for the node\<close>

text \<open>A packet that the broker handles without a fault, now and whatever is registered later.\<close>

definition tolerated :: "bool \<Rightarrow> broker \<Rightarrow> byte list \<times> string \<Rightarrow> bool" where
  "tolerated dbg b0 received \<longleftrightarrow>
     (\<forall>b buf. broker_inv b \<and> broker_evolves b0 b \<and> length buf = udp_buffer_size \<longrightarrow>
        (\<exists>s. broker_spin_once mailbox_network dbg (b, buf, \<lparr>mb_inbox = [received], mb_sent = []\<rparr>) = Inr s))"

lemma tolerated_evolves: "tolerated dbg b r \<Longrightarrow> broker_evolves b b' \<Longrightarrow> tolerated dbg b' r"
  unfolding tolerated_def using broker_evolves_trans by blast

definition pending_ok :: "string \<Rightarrow> bool \<Rightarrow> broker \<Rightarrow> (byte list \<times> string) list list \<Rightarrow> bool" where
  "pending_ok client dbg b pending \<longleftrightarrow> (\<forall>r\<in>set (concat pending). snd r \<noteq> client \<and> tolerated dbg b r)"

lemma pending_ok_evolves: "pending_ok client dbg b pending \<Longrightarrow> broker_evolves b b' \<Longrightarrow> pending_ok client dbg b' pending"
  unfolding pending_ok_def using tolerated_evolves by blast

definition data_first :: "byte list list \<Rightarrow> bool" where
  "data_first ps \<longleftrightarrow> (\<forall>p\<in>set ps. take 1 p = [bp_data])"

text \<open>How the state of a link changes while others are served.\<close>

definition serving :: "string \<Rightarrow> (byte list \<times> string) list \<Rightarrow> link \<Rightarrow> link \<Rightarrow> bool" where
  "serving client batch lk lk' \<longleftrightarrow>
     broker_inv (lk_broker lk') \<and> broker_evolves (lk_broker lk) (lk_broker lk') \<and> length (lk_buffer lk') = udp_buffer_size \<and>
     br_client_counters (lk_broker lk') client = br_client_counters (lk_broker lk) client \<and>
     (\<forall>k. room (length batch + k) (lk_broker lk) \<longrightarrow> room k (lk_broker lk')) \<and>
     (\<exists>ps. lk_inbox lk' = lk_inbox lk @ ps \<and> data_first ps) \<and>
     (\<exists>new. lk_others lk' = lk_others lk @ new \<and> (\<forall>x\<in>set new. \<exists>r\<in>set batch. caused r x))"

lemma serving_trans:
  assumes "serving client rs lk lk1" and "serving client rs' lk1 lk2"
  shows "serving client (rs @ rs') lk lk2"
proof -
  from assms obtain ps ps' where "lk_inbox lk1 = lk_inbox lk @ ps" "lk_inbox lk2 = lk_inbox lk1 @ ps'"
    "data_first ps" "data_first ps'" by (auto simp: serving_def)
  then have "\<exists>ps. lk_inbox lk2 = lk_inbox lk @ ps \<and> data_first ps"
    by (intro exI [of _ "ps @ ps'"]) (auto simp: data_first_def)
  moreover from assms obtain new new' where "lk_others lk1 = lk_others lk @ new" "lk_others lk2 = lk_others lk1 @ new'"
    "\<forall>x\<in>set new. \<exists>r\<in>set rs. caused r x" "\<forall>x\<in>set new'. \<exists>r\<in>set rs'. caused r x" by (auto simp: serving_def)
  then have "\<exists>new. lk_others lk2 = lk_others lk @ new \<and> (\<forall>x\<in>set new. \<exists>r\<in>set (rs @ rs'). caused r x)"
    by (intro exI [of _ "new @ new'"]) auto
  ultimately show ?thesis
    using assms by (auto simp: serving_def add.assoc intro: broker_evolves_trans)
qed

lemma link_serve_others:
  assumes tol: "tolerated dbg b0 r" and other: "snd r \<noteq> client"
    and lk: "broker_inv (lk_broker lk)" "broker_evolves b0 (lk_broker lk)" "length (lk_buffer lk) = udp_buffer_size"
  shows "\<exists>lk'. link_serve client dbg r lk = Inr lk' \<and> serving client [r] lk lk'"
proof -
  obtain p s where r: "r = (p, s)" by (cases r)
  from tol lk obtain go_on b' buf' w' where
    spin: "broker_spin_once mailbox_network dbg (lk_broker lk, lk_buffer lk, \<lparr>mb_inbox = [(p, s)], mb_sent = []\<rparr>) =
      Inr (go_on, b', buf', w')"
    unfolding tolerated_def r by (metis surj_pair)
  note facts = spin_once_others_packet [OF spin]
  let ?lk = "\<lparr>lk_broker = b', lk_buffer = buf',
    lk_inbox = lk_inbox lk @ map snd (filter (\<lambda>p. fst p = client) (mb_sent w')),
    lk_others = lk_others lk @ filter (\<lambda>p. fst p \<noteq> client) (mb_sent w')\<rparr>"
  have "link_serve client dbg r lk = Inr ?lk" by (simp add: link_serve_def r spin)
  moreover have "data_first (map snd (filter (\<lambda>p. fst p = client) (mb_sent w')))"
    using facts(4) other by (fastforce simp: data_first_def caused_def r udp_buffer_size_def min_def)
  moreover have "broker_step_ok (lk_broker lk) b'" "length buf' = length (lk_buffer lk)"
    using broker_spin_once_step_ok [OF spin] by simp_all
  ultimately show ?thesis
    using facts(2) [of client] facts(3,4) lk other
    by (intro exI [of _ ?lk]) (auto simp: serving_def broker_step_ok_def r)
qed

lemma link_serve_all_others:
  assumes "\<forall>r\<in>set rs. snd r \<noteq> client \<and> tolerated dbg b0 r"
    and "broker_inv (lk_broker lk)" "broker_evolves b0 (lk_broker lk)" "length (lk_buffer lk) = udp_buffer_size"
  shows "\<exists>lk'. link_serve_all client dbg rs lk = Inr lk' \<and> serving client rs lk lk'"
  using assms
proof (induction rs arbitrary: lk)
  case Nil
  then show ?case by (auto simp: serving_def data_first_def)
next
  case (Cons r rs)
  note IH = Cons.IH and prems = Cons.prems
  from link_serve_others [of dbg b0 r client lk] prems obtain lk1 where
    1: "link_serve client dbg r lk = Inr lk1" "serving client [r] lk lk1" by auto
  from IH [of lk1] prems 1(2) obtain lk2 where
    2: "link_serve_all client dbg rs lk1 = Inr lk2" "serving client rs lk1 lk2"
    by (auto simp: serving_def intro: broker_evolves_trans)
  from serving_trans [OF 1(2) 2(2)] 1(1) 2(1) show ?case by simp
qed

section \<open>The busy link provides the contract\<close>

definition exchange_ready :: "string \<Rightarrow> string \<Rightarrow> bool \<Rightarrow> 'u node \<Rightarrow> exchange \<Rightarrow> bool" where
  "exchange_ready server client dbg n ex \<longleftrightarrow>
     link_ok server client n (ex_link ex) \<and> pending_ok client dbg (lk_broker (ex_link ex)) (ex_pending ex)"

definition exchange_after :: "string \<Rightarrow> string \<Rightarrow> 'u node \<Rightarrow> exchange \<Rightarrow> bool" where
  "exchange_after server client n ex \<longleftrightarrow> link_live server client n (ex_link ex)"

definition exchange_step :: "exchange \<Rightarrow> exchange \<Rightarrow> bool" where
  "exchange_step ex ex' \<longleftrightarrow>
     broker_evolves (lk_broker (ex_link ex)) (lk_broker (ex_link ex')) \<and>
     set (concat (ex_pending ex')) \<subseteq> set (concat (ex_pending ex)) \<and>
     (\<exists>new. lk_others (ex_link ex') = lk_others (ex_link ex) @ new \<and>
       (\<forall>x\<in>set new. \<exists>r\<in>set (concat (ex_pending ex)). caused r x))"

definition exchange_space :: "nat \<Rightarrow> exchange \<Rightarrow> bool" where
  "exchange_space k ex \<longleftrightarrow> room (length (concat (ex_pending ex)) + k) (lk_broker (ex_link ex))"

lemma exchange_step_refl: "exchange_step ex ex"
  by (simp add: exchange_step_def)

lemma exchange_step_trans:
  assumes "exchange_step ex ex1" and "exchange_step ex1 ex2"
  shows "exchange_step ex ex2"
proof -
  from assms obtain new new' where
    "lk_others (ex_link ex1) = lk_others (ex_link ex) @ new" "lk_others (ex_link ex2) = lk_others (ex_link ex1) @ new'"
    "\<forall>x\<in>set new. \<exists>r\<in>set (concat (ex_pending ex)). caused r x" "\<forall>x\<in>set new'. \<exists>r\<in>set (concat (ex_pending ex1)). caused r x"
    by (auto simp: exchange_step_def)
  moreover have sub: "set (concat (ex_pending ex1)) \<subseteq> set (concat (ex_pending ex))"
    using assms(1) by (simp only: exchange_step_def)
  ultimately have "\<exists>new. lk_others (ex_link ex2) = lk_others (ex_link ex) @ new \<and>
      (\<forall>x\<in>set new. \<exists>r\<in>set (concat (ex_pending ex)). caused r x)"
    by (intro exI [of _ "new @ new'"]) (simp only: append_assoc set_append, blast)
  with assms sub show ?thesis unfolding exchange_step_def using broker_evolves_trans by blast
qed

lemma link_step_exchange:
  "link_step lk lk' \<Longrightarrow> exchange_step \<lparr>ex_link = lk, ex_pending = rest\<rparr> \<lparr>ex_link = lk', ex_pending = rest\<rparr>"
  by (simp add: link_step_def exchange_step_def)

text \<open>
  After the batch, either nothing waits for the node and it can call, or a data packet is first in line.
\<close>

lemma exchange_served:
  assumes "exchange_ready server client dbg n ex"
  shows "\<exists>lk rest. exchange_serve client dbg ex = Inr \<lparr>ex_link = lk, ex_pending = rest\<rparr> \<and>
    exchange_step ex \<lparr>ex_link = lk, ex_pending = rest\<rparr> \<and> pending_ok client dbg (lk_broker lk) rest \<and>
    (\<forall>k. exchange_space k ex \<longrightarrow> exchange_space k \<lparr>ex_link = lk, ex_pending = rest\<rparr>) \<and>
    (link_ok server client n lk \<or>
     link_live server client n lk \<and> (\<exists>p ps. lk_inbox lk = p # ps \<and> take 1 p = [bp_data]))"
proof -
  have link: "link_ok server client n (ex_link ex)" and pending: "pending_ok client dbg (lk_broker (ex_link ex)) (ex_pending ex)"
    using assms by (simp_all add: exchange_ready_def)
  show ?thesis
  proof (cases "ex_pending ex")
    case Nil
    then have e: "\<lparr>ex_link = ex_link ex, ex_pending = []\<rparr> = ex" by simp
    from Nil link pending show ?thesis
      by (intro exI [of _ "ex_link ex"] exI [of _ "[]"]) (simp add: e exchange_serve_def exchange_step_refl)
  next
    case (Cons batch rest)
    have l: "broker_inv (lk_broker (ex_link ex))" "length (lk_buffer (ex_link ex)) = udp_buffer_size" "lk_inbox (ex_link ex) = []"
      using link by (simp_all add: link_ok_def)
    have b: "\<forall>r\<in>set batch. snd r \<noteq> client \<and> tolerated dbg (lk_broker (ex_link ex)) r"
      "\<forall>r\<in>set (concat rest). snd r \<noteq> client \<and> tolerated dbg (lk_broker (ex_link ex)) r"
      using pending by (simp_all add: pending_ok_def Cons ball_Un)
    from link_serve_all_others [OF b(1) l(1) broker_evolves_refl l(2)] obtain lk where
      lk: "link_serve_all client dbg batch (ex_link ex) = Inr lk" "serving client batch (ex_link ex) lk" by blast
    have serve: "exchange_serve client dbg ex = Inr \<lparr>ex_link = lk, ex_pending = rest\<rparr>"
      using lk(1) by (simp add: exchange_serve_def Cons)
    have evolves: "broker_evolves (lk_broker (ex_link ex)) (lk_broker lk)" using lk(2) by (simp add: serving_def)
    have step: "exchange_step ex \<lparr>ex_link = lk, ex_pending = rest\<rparr>"
      using lk(2) unfolding exchange_step_def serving_def by (fastforce simp: Cons)
    have pend: "pending_ok client dbg (lk_broker lk) rest"
      using b(2) tolerated_evolves [OF _ evolves] by (simp only: pending_ok_def) blast
    have space: "exchange_space k ex \<longrightarrow> exchange_space k \<lparr>ex_link = lk, ex_pending = rest\<rparr>" for k
      using lk(2) by (auto simp: exchange_space_def serving_def Cons add.assoc)
    have live: "link_live server client n lk"
      using lk(2) link by (auto simp: serving_def link_live_def link_ok_def)
    have "lk_inbox lk = [] \<or> (\<exists>p ps. lk_inbox lk = p # ps \<and> take 1 p = [bp_data])"
      using lk(2) l(3) by (cases "lk_inbox lk") (auto simp: serving_def data_first_def)
    with live have "link_ok server client n lk \<or>
        link_live server client n lk \<and> (\<exists>p ps. lk_inbox lk = p # ps \<and> take 1 p = [bp_data])"
      by (auto simp: link_ok_live)
    with serve step pend space show ?thesis by blast
  qed
qed

lemma exchange_done:
  assumes "exchange_step ex \<lparr>ex_link = lk, ex_pending = rest\<rparr>" and "link_step lk lk'"
  shows "exchange_step ex \<lparr>ex_link = lk', ex_pending = rest\<rparr>"
    and "link_live server client n' lk' \<Longrightarrow> exchange_after server client n' \<lparr>ex_link = lk', ex_pending = rest\<rparr>"
    and "pending_ok client dbg (lk_broker lk) rest \<Longrightarrow> link_ok server client n' lk' \<Longrightarrow>
      exchange_ready server client dbg n' \<lparr>ex_link = lk', ex_pending = rest\<rparr>"
    and "room (length (concat rest) + k) (lk_broker lk') \<Longrightarrow> exchange_space k \<lparr>ex_link = lk', ex_pending = rest\<rparr>"
  using exchange_step_trans [OF assms(1) link_step_exchange [OF assms(2)]] assms(2) pending_ok_evolves
  by (auto simp: exchange_after_def exchange_ready_def exchange_space_def link_step_def)

text \<open>
  The step from the quiet link to the busy one, for any call: \<open>quiet_call\<close> satisfies its law on a link with nothing
  in the inbox and fails with a data packet in front; \<open>busy_call\<close> is the same call behind the batch.
\<close>

lemma busy_law:
  assumes ready: "exchange_ready server client dbg n ex" and space: "exchange_space (d + k) ex"
    and same: "\<And>lk rest a n' lk'. exchange_serve client dbg ex = Inr \<lparr>ex_link = lk, ex_pending = rest\<rparr> \<Longrightarrow>
      quiet_call lk = Inr (a, n', lk') \<Longrightarrow> busy_call ex = Inr (a, n', \<lparr>ex_link = lk', ex_pending = rest\<rparr>)"
    and quiet: "\<And>lk m. link_ok server client n lk \<Longrightarrow> broker_evolves (lk_broker (ex_link ex)) (lk_broker lk) \<Longrightarrow>
      room (d + m) (lk_broker lk) \<Longrightarrow>
      \<exists>a n' lk'. quiet_call lk = Inr (a, n', lk') \<and> link_ok server client n' lk' \<and> link_step lk lk' \<and>
        room m (lk_broker lk') \<and> good a n' lk'"
    and preempted: "\<And>lk p ps. link_live server client n lk \<Longrightarrow> broker_evolves (lk_broker (ex_link ex)) (lk_broker lk) \<Longrightarrow>
      lk_inbox lk = p # ps \<Longrightarrow> take 1 p = [bp_data] \<Longrightarrow>
      \<exists>a n' lk'. quiet_call lk = Inr (a, n', lk') \<and> link_live server client n' lk' \<and> link_step lk lk' \<and> failed a n'"
  shows "\<exists>a n' ex'. busy_call ex = Inr (a, n', ex') \<and> exchange_step ex ex' \<and> exchange_after server client n' ex' \<and>
    (failed a n' \<or> good a n' (ex_link ex') \<and> exchange_ready server client dbg n' ex' \<and> exchange_space k ex')"
proof -
  from exchange_served [OF ready] obtain lk rest where
    serve: "exchange_serve client dbg ex = Inr \<lparr>ex_link = lk, ex_pending = rest\<rparr>"
    and step: "exchange_step ex \<lparr>ex_link = lk, ex_pending = rest\<rparr>" and pend: "pending_ok client dbg (lk_broker lk) rest"
    and space': "exchange_space (d + k) \<lparr>ex_link = lk, ex_pending = rest\<rparr>"
    and turn: "link_ok server client n lk \<or>
      link_live server client n lk \<and> (\<exists>p ps. lk_inbox lk = p # ps \<and> take 1 p = [bp_data])"
    using space by blast
  have room: "room (d + (length (concat rest) + k)) (lk_broker lk)"
    using space' by (simp add: exchange_space_def add.left_commute)
  have evolves: "broker_evolves (lk_broker (ex_link ex)) (lk_broker lk)" using step by (simp add: exchange_step_def)
  from turn show ?thesis
  proof
    assume link: "link_ok server client n lk"
    from quiet [OF link evolves room] obtain a n' lk' where
      c: "quiet_call lk = Inr (a, n', lk')" "link_ok server client n' lk'" "link_step lk lk'"
      "room (length (concat rest) + k) (lk_broker lk')" "good a n' lk'" by blast
    note after = exchange_done [OF step c(3)]
    show ?thesis
      using same [OF serve c(1)] after(1) after(2) [of server client n'] after(3) [OF pend c(2)] after(4) [OF c(4)] c(2,5)
      by (intro exI [of _ a] exI [of _ n'] exI [of _ "\<lparr>ex_link = lk', ex_pending = rest\<rparr>"]) (simp add: link_ok_live)
  next
    assume "link_live server client n lk \<and> (\<exists>p ps. lk_inbox lk = p # ps \<and> take 1 p = [bp_data])"
    then obtain p ps where "link_live server client n lk" "lk_inbox lk = p # ps" "take 1 p = [bp_data]" by blast
    from preempted [OF this(1) evolves this(2,3)] obtain a n' lk' where
      c: "quiet_call lk = Inr (a, n', lk')" "link_live server client n' lk'" "link_step lk lk'" "failed a n'" by blast
    note after = exchange_done [OF step c(3)]
    show ?thesis
      using same [OF serve c(1)] after(1) after(2) [OF c(2)] c(4)
      by (intro exI [of _ a] exI [of _ n'] exI [of _ "\<lparr>ex_link = lk', ex_pending = rest\<rparr>"]) simp
  qed
qed

text \<open>The four calls with a data packet in front.\<close>

lemma link_stepI: "broker_step_ok (counted client c (lk_broker lk)) b' \<Longrightarrow> lk_broker lk' = b' \<Longrightarrow> lk_others lk' = lk_others lk \<Longrightarrow> link_step lk lk'"
  using evolves_counted by (simp add: link_step_def)

lemma preempted_calls:
  assumes live: "link_live server client n lk" and inbox: "lk_inbox lk = p # ps" "take 1 p = [bp_data]"
  shows "short (nd_name n) \<Longrightarrow> \<exists>buf lk'. node_register_node (broker_link server client dbg) n lk =
      Inr (False, after_call (nd_node_id n) buf n, lk') \<and>
      link_live server client (after_call (nd_node_id n) buf n) lk' \<and> link_step lk lk'"
    and "short name \<Longrightarrow> \<exists>buf lk'. node_register_message_type (broker_link server client dbg) name msize n lk =
      Inr (None, after_call (nd_node_id n) buf n, lk') \<and>
      link_live server client (after_call (nd_node_id n) buf n) lk' \<and> link_step lk lk'"
    and "short name \<Longrightarrow> unat mt < length (br_message_types (lk_broker lk)) \<Longrightarrow>
      \<exists>buf lk'. node_register_topic (broker_link server client dbg) name mt prio want n lk =
      Inr (None, after_call (nd_node_id n) buf n, lk') \<and>
      link_live server client (after_call (nd_node_id n) buf n) lk' \<and> link_step lk lk'"
    and "action = ''add_publisher'' \<or> action = ''add_subscriber'' \<Longrightarrow>
      \<exists>buf lk'. node_add_pubsub (broker_link server client dbg) action t mt n lk =
      Inr (False, after_call (nd_node_id n) buf n, lk') \<and>
      link_live server client (after_call (nd_node_id n) buf n) lk' \<and> link_step lk lk'"
proof -
  note null = calls_preempted [OF live inbox]
  let ?b = "counted client (nd_bp_counter n + 1) (lk_broker lk)"
  have inv: "broker_inv ?b" using live by (simp add: link_live_def)
  show "\<exists>buf lk'. node_register_node (broker_link server client dbg) n lk = Inr (False, after_call (nd_node_id n) buf n, lk') \<and>
      link_live server client (after_call (nd_node_id n) buf n) lk' \<and> link_step lk lk'" if name: "short (nd_name n)"
  proof -
    obtain r b' where r: "register_node client (nd_name n) ?b = (r, b')" by fastforce
    from null(1) [OF name r, of dbg] link_stepI [OF register_node_step_ok [OF r]] show ?thesis by blast
  qed
  show "\<exists>buf lk'. node_register_message_type (broker_link server client dbg) name msize n lk = Inr (None, after_call (nd_node_id n) buf n, lk') \<and>
      link_live server client (after_call (nd_node_id n) buf n) lk' \<and> link_step lk lk'" if name: "short name"
  proof -
    obtain r b' where r: "register_message_type name msize ?b = (r, b')" by fastforce
    from null(2) [OF name r, of dbg] link_stepI [OF register_message_type_step_ok [OF r]] show ?thesis by blast
  qed
  show "\<exists>buf lk'. node_register_topic (broker_link server client dbg) name mt prio want n lk = Inr (None, after_call (nd_node_id n) buf n, lk') \<and>
      link_live server client (after_call (nd_node_id n) buf n) lk' \<and> link_step lk lk'"
    if name: "short name" and mt: "unat mt < length (br_message_types (lk_broker lk))"
  proof -
    from register_topic_total [OF inv, of mt name prio] mt obtain r b' where r: "register_topic name mt prio ?b = Inr (r, b')" by auto
    from null(3) [OF name r, of dbg want] link_stepI [OF register_topic_step_ok [OF r]] show ?thesis by blast
  qed
  show "\<exists>buf lk'. node_add_pubsub (broker_link server client dbg) action t mt n lk = Inr (False, after_call (nd_node_id n) buf n, lk') \<and>
      link_live server client (after_call (nd_node_id n) buf n) lk' \<and> link_step lk lk'"
    if "action = ''add_publisher'' \<or> action = ''add_subscriber''"
    using that
  proof
    assume a: "action = ''add_publisher''"
    obtain ok b' where r: "add_publisher (nd_node_id n) t mt ?b = Inr (ok, b')" using add_total(1) [OF inv] by blast
    from null(4) [of action add_publisher t mt ok b' dbg] a r link_stepI [OF add_publisher_step_ok [OF r]] show ?thesis by blast
  next
    assume a: "action = ''add_subscriber''"
    obtain ok b' where r: "add_subscriber (nd_node_id n) t mt ?b = Inr (ok, b')" using add_total(2) [OF inv] by blast
    from null(4) [of action add_subscriber t mt ok b' dbg] a r link_stepI [OF add_subscriber_step_ok [OF r]] show ?thesis by blast
  qed
qed

lemma exchange_ready_address: "exchange_ready server client dbg n ex \<Longrightarrow> nd_broker_address n = server"
  by (simp add: exchange_ready_def link_ok_def)

section \<open>The calls on the busy link\<close>

lemma busy_register_node:
  assumes ready: "exchange_ready server client dbg n ex" and name: "short (nd_name n)" and space: "exchange_space (Suc k) ex"
  shows "\<exists>ok i buf ex'. node_register_node (busy_link server client dbg) n ex = Inr (ok, after_call i buf n, ex') \<and>
    exchange_step ex ex' \<and> exchange_after server client (after_call i buf n) ex' \<and>
    (ok \<longrightarrow> exchange_ready server client dbg (after_call i buf n) ex' \<and> exchange_space k ex' \<and>
      unat i < length (br_nodes (lk_broker (ex_link ex'))) \<and>
      br_nodes (lk_broker (ex_link ex')) ! unat i = \<lparr>ni_name = nd_name n, ni_address = client\<rparr>)"
proof -
  define good where "good r n' lk' \<longleftrightarrow> (\<exists>i buf. n' = after_call i buf n \<and> (r \<longrightarrow> unat i < length (br_nodes (lk_broker lk')) \<and>
      br_nodes (lk_broker lk') ! unat i = \<lparr>ni_name = nd_name n, ni_address = client\<rparr>))"
    for r :: "bool" and n' and lk' :: link
  define failed where "failed r n' \<longleftrightarrow> \<not> r \<and> (\<exists>buf. n' = after_call (nd_node_id n) buf n)" for r :: "bool" and n'
  have space': "exchange_space (1 + k) ex" using space by simp
  have "\<exists>r n' ex'. node_register_node (busy_link server client dbg) n ex = Inr (r, n', ex') \<and> exchange_step ex ex' \<and>
      exchange_after server client n' ex' \<and>
      (failed r n' \<or> good r n' (ex_link ex') \<and> exchange_ready server client dbg n' ex' \<and> exchange_space k ex')"
  proof (rule busy_law [where quiet_call = "node_register_node (broker_link server client dbg) n", OF ready space'], goal_cases)
    case 1
    then show ?case by (rule busy_calls(1) [OF exchange_ready_address [OF ready]])
  next
    case (2 lk m)
    then have "room (Suc m) (lk_broker lk)" by simp
    from call_register_node [OF 2(1) name this, of dbg] show ?case unfolding good_def by blast
  next
    case (3 lk p ps)
    from preempted_calls(1) [OF 3(1,3,4) name, of dbg] show ?case unfolding failed_def by blast
  qed
  then show ?thesis unfolding good_def failed_def by fastforce
qed

lemma busy_register_message_type:
  assumes ready: "exchange_ready server client dbg n ex" and name: "short name" and space: "exchange_space (Suc k) ex"
  shows "\<exists>r buf ex'. node_register_message_type (busy_link server client dbg) name msize n ex =
      Inr (r, after_call (nd_node_id n) buf n, ex') \<and>
    exchange_step ex ex' \<and> exchange_after server client (after_call (nd_node_id n) buf n) ex' \<and>
    (\<forall>mt. r = Some mt \<longrightarrow> exchange_ready server client dbg (after_call (nd_node_id n) buf n) ex' \<and> exchange_space k ex' \<and>
      unat mt < length (br_message_types (lk_broker (ex_link ex'))) \<and>
      br_message_types (lk_broker (ex_link ex')) ! unat mt = \<lparr>mti_name = name, mti_size = msize\<rparr>)"
proof -
  define good where "good r n' lk' \<longleftrightarrow> (\<exists>buf. n' = after_call (nd_node_id n) buf n) \<and>
      (\<forall>mt. r = Some mt \<longrightarrow> unat mt < length (br_message_types (lk_broker lk')) \<and>
        br_message_types (lk_broker lk') ! unat mt = \<lparr>mti_name = name, mti_size = msize\<rparr>)"
    for r :: "u32 option" and n' and lk' :: link
  define failed where "failed r n' \<longleftrightarrow> r = None \<and> (\<exists>buf. n' = after_call (nd_node_id n) buf n)" for r :: "u32 option" and n'
  have space': "exchange_space (1 + k) ex" using space by simp
  have "\<exists>r n' ex'. node_register_message_type (busy_link server client dbg) name msize n ex = Inr (r, n', ex') \<and> exchange_step ex ex' \<and>
      exchange_after server client n' ex' \<and>
      (failed r n' \<or> good r n' (ex_link ex') \<and> exchange_ready server client dbg n' ex' \<and> exchange_space k ex')"
  proof (rule busy_law [where quiet_call = "node_register_message_type (broker_link server client dbg) name msize n", OF ready space'], goal_cases)
    case 1
    then show ?case by (rule busy_calls(2) [OF exchange_ready_address [OF ready]])
  next
    case (2 lk m)
    then have "room (Suc m) (lk_broker lk)" by simp
    from call_register_message_type [OF 2(1) name this, of dbg msize] show ?case unfolding good_def by blast
  next
    case (3 lk p ps)
    from preempted_calls(2) [OF 3(1,3,4) name, of dbg msize] show ?case unfolding failed_def by blast
  qed
  then obtain r n' ex' where run: "node_register_message_type (busy_link server client dbg) name msize n ex = Inr (r, n', ex')"
      "exchange_step ex ex'" "exchange_after server client n' ex'"
    and outcome: "failed r n' \<or> good r n' (ex_link ex') \<and> exchange_ready server client dbg n' ex' \<and> exchange_space k ex'" by blast
  from outcome obtain buf where n': "n' = after_call (nd_node_id n) buf n" unfolding good_def failed_def by blast
  show ?thesis
    using run outcome unfolding n' good_def failed_def
    by (intro exI [of _ r] exI [of _ buf] exI [of _ ex']) blast
qed

lemma busy_register_topic:
  assumes ready: "exchange_ready server client dbg n ex" and name: "short name" and space: "exchange_space (Suc k) ex"
    and mt: "unat mt < length (br_message_types (lk_broker (ex_link ex)))"
    and type: "br_message_types (lk_broker (ex_link ex)) ! unat mt = \<lparr>mti_name = type_name, mti_size = msize\<rparr>"
  shows "\<exists>r buf ex'. node_register_topic (busy_link server client dbg) name mt prio want n ex =
      Inr (r, after_call (nd_node_id n) buf n, ex') \<and>
    exchange_step ex ex' \<and> exchange_after server client (after_call (nd_node_id n) buf n) ex' \<and>
    (\<forall>t q. r = Some (t, q) \<longrightarrow> exchange_ready server client dbg (after_call (nd_node_id n) buf n) ex' \<and> exchange_space k ex' \<and>
      endpoint_known (lk_broker (ex_link ex')) name type_name msize mt t \<and>
      q = (if want then t_priority (br_topics (lk_broker (ex_link ex')) ! unat t) else prio))"
proof -
  define good where "good r n' lk' \<longleftrightarrow> (\<exists>buf. n' = after_call (nd_node_id n) buf n) \<and>
      (\<forall>t q. r = Some (t, q) \<longrightarrow> endpoint_known (lk_broker lk') name type_name msize mt t \<and>
        q = (if want then t_priority (br_topics (lk_broker lk') ! unat t) else prio))"
    for r :: "(u32 \<times> i8) option" and n' and lk' :: link
  define failed where "failed r n' \<longleftrightarrow> r = None \<and> (\<exists>buf. n' = after_call (nd_node_id n) buf n)" for r :: "(u32 \<times> i8) option" and n'
  have space': "exchange_space (1 + k) ex" using space by simp
  have "\<exists>r n' ex'. node_register_topic (busy_link server client dbg) name mt prio want n ex = Inr (r, n', ex') \<and> exchange_step ex ex' \<and>
      exchange_after server client n' ex' \<and>
      (failed r n' \<or> good r n' (ex_link ex') \<and> exchange_ready server client dbg n' ex' \<and> exchange_space k ex')"
  proof (rule busy_law [where quiet_call = "node_register_topic (broker_link server client dbg) name mt prio want n", OF ready space'], goal_cases)
    case 1
    then show ?case by (rule busy_calls(3) [OF exchange_ready_address [OF ready]])
  next
    case (2 lk m)
    then have room: "room (Suc m) (lk_broker lk)" by simp
    have known: "unat mt < length (br_message_types (lk_broker lk))"
      "br_message_types (lk_broker lk) ! unat mt = \<lparr>mti_name = type_name, mti_size = msize\<rparr>"
      using evolves_entries(2) [OF 2(2) mt] type by simp_all
    from call_register_topic [OF 2(1) name room known, of dbg prio want] show ?case unfolding good_def by blast
  next
    case (3 lk p ps)
    from preempted_calls(3) [OF 3(1,3,4) name, of mt dbg prio want] evolves_entries(2) [OF 3(2) mt]
    show ?case unfolding failed_def by blast
  qed
  then obtain r n' ex' where run: "node_register_topic (busy_link server client dbg) name mt prio want n ex = Inr (r, n', ex')"
      "exchange_step ex ex'" "exchange_after server client n' ex'"
    and outcome: "failed r n' \<or> good r n' (ex_link ex') \<and> exchange_ready server client dbg n' ex' \<and> exchange_space k ex'" by blast
  from outcome obtain buf where n': "n' = after_call (nd_node_id n) buf n" unfolding good_def failed_def by blast
  show ?thesis
    using run outcome unfolding n' good_def failed_def
    by (intro exI [of _ r] exI [of _ buf] exI [of _ ex']) blast
qed

lemma busy_add_pubsub:
  assumes ready: "exchange_ready server client dbg n ex" and space: "exchange_space k ex"
    and action: "(action, members) = (''add_publisher'', t_publishers) \<or> (action, members) = (''add_subscriber'', t_subscribers)"
  shows "\<exists>r buf ex'. node_add_pubsub (busy_link server client dbg) action t mt n ex =
      Inr (r, after_call (nd_node_id n) buf n, ex') \<and>
    exchange_step ex ex' \<and> exchange_after server client (after_call (nd_node_id n) buf n) ex' \<and>
    (r \<longrightarrow> exchange_ready server client dbg (after_call (nd_node_id n) buf n) ex' \<and> exchange_space k ex' \<and>
      nd_node_id n \<in> set (members (br_topics (lk_broker (ex_link ex')) ! unat t)))"
proof -
  define good where "good r n' lk' \<longleftrightarrow> (\<exists>buf. n' = after_call (nd_node_id n) buf n) \<and>
      (r \<longrightarrow> nd_node_id n \<in> set (members (br_topics (lk_broker lk') ! unat t)))"
    for r :: "bool" and n' and lk' :: link
  define failed where "failed r n' \<longleftrightarrow> \<not> r \<and> (\<exists>buf. n' = after_call (nd_node_id n) buf n)" for r :: "bool" and n'
  have space': "exchange_space (0 + k) ex" using space by simp
  have "\<exists>r n' ex'. node_add_pubsub (busy_link server client dbg) action t mt n ex = Inr (r, n', ex') \<and> exchange_step ex ex' \<and>
      exchange_after server client n' ex' \<and>
      (failed r n' \<or> good r n' (ex_link ex') \<and> exchange_ready server client dbg n' ex' \<and> exchange_space k ex')"
  proof (rule busy_law [where quiet_call = "node_add_pubsub (broker_link server client dbg) action t mt n", OF ready space'], goal_cases)
    case 1
    then show ?case by (rule busy_calls(4) [OF exchange_ready_address [OF ready]])
  next
    case (2 lk m)
    then have "room m (lk_broker lk)" by simp
    from call_add_pubsub [OF 2(1) this action, of dbg t mt] show ?case unfolding good_def by blast
  next
    case (3 lk p ps)
    from preempted_calls(4) [OF 3(1,3,4), of action dbg t mt] action show ?case unfolding failed_def by blast
  qed
  then obtain r n' ex' where run: "node_add_pubsub (busy_link server client dbg) action t mt n ex = Inr (r, n', ex')"
      "exchange_step ex ex'" "exchange_after server client n' ex'"
    and outcome: "failed r n' \<or> good r n' (ex_link ex') \<and> exchange_ready server client dbg n' ex' \<and> exchange_space k ex'" by blast
  from outcome obtain buf where n': "n' = after_call (nd_node_id n) buf n" unfolding good_def failed_def by blast
  show ?thesis
    using run outcome unfolding n' good_def failed_def
    by (intro exI [of _ r] exI [of _ buf] exI [of _ ex']) blast
qed

lemma exchange_ready_view: "same_link_view n n' \<Longrightarrow> exchange_ready server client dbg n ex \<Longrightarrow> exchange_ready server client dbg n' ex"
  by (auto simp: exchange_ready_def link_ok_view)

lemma exchange_after_view: "same_link_view n n' \<Longrightarrow> exchange_after server client n ex \<Longrightarrow> exchange_after server client n' ex"
  by (auto simp: exchange_after_def link_live_def same_link_view_def)

interpretation busy: registration_service "busy_link server client dbg" client "\<lambda>ex. lk_broker (ex_link ex)"
  "exchange_ready server client dbg" "exchange_after server client" exchange_step exchange_space
  for server client :: string and dbg :: bool
proof (unfold_locales, goal_cases)
  case 1
  show ?case by (simp add: busy_link_def)
next
  case 2
  show ?case by (simp add: busy_link_def)
next
  case 3
  then show ?case by (rule exchange_ready_view)
next
  case 4
  then show ?case by (rule exchange_after_view)
next
  case 5
  then show ?case by (simp add: exchange_ready_def exchange_after_def link_ok_live)
next
  case 6
  show ?case by (rule exchange_step_refl)
next
  case 7
  then show ?case by (rule exchange_step_trans)
next
  case 8
  then show ?case by (simp add: exchange_step_def)
next
  case 9
  then show ?case using room_less by (auto simp: exchange_space_def)
next
  case 10
  then show ?case by (rule busy_register_node)
next
  case 11
  then show ?case by (rule busy_register_message_type)
next
  case 12
  then show ?case by (rule busy_register_topic)
next
  case 13
  then show ?case by (rule busy_add_pubsub)
qed

lemma connect_served_busy:
  assumes "link_ok server client n lk" and "connectable n" and "pending_ok client dbg (lk_broker lk) pending"
    and "room (length (concat pending) + Suc (2 * length (nd_publishers n) + 2 * length (nd_subscribers n))) (lk_broker lk)"
  shows "\<exists>ok n' ex. node_connect (busy_link server client dbg) n \<lparr>ex_link = lk, ex_pending = pending\<rparr> = Inr (ok, n', ex) \<and>
    exchange_step \<lparr>ex_link = lk, ex_pending = pending\<rparr> ex \<and> link_live server client n' (ex_link ex) \<and>
    (ok \<longrightarrow> link_ok server client n' (ex_link ex) \<and> node_agrees (lk_broker (ex_link ex)) client n')"
proof -
  have "exchange_ready server client dbg n \<lparr>ex_link = lk, ex_pending = pending\<rparr>"
    using assms(1,3) by (simp add: exchange_ready_def)
  moreover have "exchange_space (Suc (2 * length (nd_publishers n) + 2 * length (nd_subscribers n))) \<lparr>ex_link = lk, ex_pending = pending\<rparr>"
    using assms(4) by (simp add: exchange_space_def)
  ultimately obtain ok n' ex where
    run: "node_connect (busy_link server client dbg) n \<lparr>ex_link = lk, ex_pending = pending\<rparr> = Inr (ok, n', ex)"
    and p: "busy.progress server client dbg 0 \<lparr>ex_link = lk, ex_pending = pending\<rparr> ok n' ex"
    and agrees: "ok \<longrightarrow> node_agrees (lk_broker (ex_link ex)) client n'"
    using busy.node_connect_served [OF _ assms(2)] by blast
  then show ?thesis
    by (intro exI [of _ ok] exI [of _ n'] exI [of _ ex])
       (simp add: busy.progress_def exchange_after_def exchange_ready_def)
qed

section \<open>When nothing more is pending\<close>

text \<open>
  After its last batch the busy link is the quiet one: \<^verbatim>\<open>connect()\<close> behind a single batch is \<^verbatim>\<open>connect()\<close> at the broker
  that has handled the batch.
\<close>

definition shadows :: "string \<Rightarrow> ('r \<times> 'u node \<times> link) res \<Rightarrow> ('r \<times> 'u node \<times> exchange) res \<Rightarrow> bool" where
  "shadows server quiet_result busy_result \<longleftrightarrow>
     (\<forall>r n lk. quiet_result = Inr (r, n, lk) \<longrightarrow>
        busy_result = Inr (r, n, \<lparr>ex_link = lk, ex_pending = []\<rparr>) \<and> nd_broker_address n = server)"

lemma shadows_return:
  "nd_broker_address n = server \<Longrightarrow> shadows server (Inr (r, n, lk)) (Inr (r, n, \<lparr>ex_link = lk, ex_pending = []\<rparr>))"
  by (simp add: shadows_def)

lemma shadows_bind:
  "shadows server m m' \<Longrightarrow>
   (\<And>r n lk. nd_broker_address n = server \<Longrightarrow> shadows server (f (r, n, lk)) (f' (r, n, \<lparr>ex_link = lk, ex_pending = []\<rparr>))) \<Longrightarrow>
   shadows server (rbind m f) (rbind m' f')"
  by (fastforce simp: shadows_def rbind_eq_Inr_iff)

lemma shadows_at: "(\<And>x. shadows server (f x) (f' x)) \<Longrightarrow> shadows server (rbind (at xs i) f) (rbind (at xs i) f')"
  by (auto simp: shadows_def rbind_eq_Inr_iff)

lemma shadows_option:
  "shadows server a a' \<Longrightarrow> (\<And>x. shadows server (f x) (f' x)) \<Longrightarrow>
   shadows server (case r of None \<Rightarrow> a | Some x \<Rightarrow> f x) (case r of None \<Rightarrow> a' | Some x \<Rightarrow> f' x)"
  by (simp split: option.split)

lemma shadows_if: "shadows server a a' \<Longrightarrow> shadows server b b' \<Longrightarrow> shadows server (if c then a else b) (if c then a' else b')"
  by simp

lemma shadows_call:
  "(\<And>r n' lk'. q = Inr (r, n', lk') \<Longrightarrow> b = Inr (r, n', \<lparr>ex_link = lk', ex_pending = []\<rparr>)) \<Longrightarrow>
   (\<And>r n' lk'. q = Inr (r, n', lk') \<Longrightarrow> rpc_changes n n') \<Longrightarrow> nd_broker_address n = server \<Longrightarrow> shadows server q b"
  unfolding shadows_def using rpc_changes_fields(5) by fastforce

lemma shadows_calls:
  assumes "nd_broker_address n = server" and "exchange_serve client dbg ex = Inr \<lparr>ex_link = lk, ex_pending = []\<rparr>"
  shows "shadows server (node_register_node (broker_link server client dbg) n lk) (node_register_node (busy_link server client dbg) n ex)"
    and "shadows server (node_register_message_type (broker_link server client dbg) name msize n lk)
      (node_register_message_type (busy_link server client dbg) name msize n ex)"
    and "shadows server (node_register_topic (broker_link server client dbg) name mt prio want n lk)
      (node_register_topic (busy_link server client dbg) name mt prio want n ex)"
    and "shadows server (node_add_pubsub (broker_link server client dbg) action t mt n lk)
      (node_add_pubsub (busy_link server client dbg) action t mt n ex)"
  by ((rule shadows_call [OF busy_calls(1) [OF assms] node_register_node_changes assms(1)] |
       rule shadows_call [OF busy_calls(2) [OF assms] node_register_message_type_changes assms(1)] |
       rule shadows_call [OF busy_calls(3) [OF assms] node_register_topic_changes assms(1)] |
       rule shadows_call [OF busy_calls(4) [OF assms] node_add_pubsub_changes assms(1)]); assumption)+

lemma exchange_serve_idle: "exchange_serve client dbg \<lparr>ex_link = lk, ex_pending = []\<rparr> = Inr \<lparr>ex_link = lk, ex_pending = []\<rparr>"
  by (simp add: exchange_serve_def)

lemma changes_address [simp]:
  "nd_broker_address (change_publisher i f n) = nd_broker_address n" "nd_broker_address (change_subscriber i g n) = nd_broker_address n"
  "nd_broker_address (enter_publisher i t q n) = nd_broker_address n" "nd_broker_address (enter_subscriber i t q n) = nd_broker_address n"
  by (simp_all add: change_publisher_def change_subscriber_def enter_publisher_def enter_subscriber_def Let_def)

lemmas shadows_intros = shadows_at shadows_bind shadows_return shadows_option shadows_if
  shadows_calls(2-4) [OF _ exchange_serve_idle]

lemma registrations_shadowed:
  assumes "nd_broker_address n = server"
  shows "shadows server (register_publisher (broker_link server client dbg) i n lk)
      (register_publisher (busy_link server client dbg) i n \<lparr>ex_link = lk, ex_pending = []\<rparr>)"
    and "shadows server (register_subscriber (broker_link server client dbg) i n lk)
      (register_subscriber (busy_link server client dbg) i n \<lparr>ex_link = lk, ex_pending = []\<rparr>)"
  using assms unfolding register_publisher_def register_subscriber_def Let_def split_def fst_conv snd_conv
  by (auto intro!: shadows_intros)

lemma register_each_shadowed:
  assumes "\<And>i n lk. nd_broker_address n = server \<Longrightarrow> shadows server (reg i n lk) (reg' i n \<lparr>ex_link = lk, ex_pending = []\<rparr>)"
  shows "nd_broker_address n = server \<Longrightarrow>
    shadows server (register_each reg is n lk) (register_each reg' is n \<lparr>ex_link = lk, ex_pending = []\<rparr>)"
proof (induction "is" arbitrary: n lk)
  case Nil
  then show ?case by (simp add: shadows_return)
next
  case (Cons i "is")
  show ?case
    unfolding register_each.simps split_def
    by (rule shadows_bind [OF assms [OF Cons.prems]]) (use Cons.IH in \<open>auto intro!: shadows_return\<close>)
qed

lemma loops_shadowed:
  assumes "nd_broker_address n = server"
  shows "shadows server (register_each (register_publisher (broker_link server client dbg)) is n lk)
      (register_each (register_publisher (busy_link server client dbg)) is n \<lparr>ex_link = lk, ex_pending = []\<rparr>)"
    and "shadows server (register_each (register_subscriber (broker_link server client dbg)) is n lk)
      (register_each (register_subscriber (busy_link server client dbg)) is n \<lparr>ex_link = lk, ex_pending = []\<rparr>)"
  by (rule register_each_shadowed [where reg = "register_publisher (broker_link server client dbg)" and
        reg' = "register_publisher (busy_link server client dbg)"]; use assms registrations_shadowed(1) in blast)
     (rule register_each_shadowed [where reg = "register_subscriber (broker_link server client dbg)" and
        reg' = "register_subscriber (busy_link server client dbg)"]; use assms registrations_shadowed(2) in blast)

lemma connect_after_batch:
  assumes address: "nd_broker_address n = server" and served: "link_serve_all client dbg batch lk0 = Inr lk"
    and quiet: "node_connect (broker_link server client dbg) n lk = Inr (ok, n', lk')"
  shows "node_connect (busy_link server client dbg) n \<lparr>ex_link = lk0, ex_pending = [batch]\<rparr> =
    Inr (ok, n', \<lparr>ex_link = lk', ex_pending = []\<rparr>)"
proof -
  have serve: "exchange_serve client dbg \<lparr>ex_link = lk0, ex_pending = [batch]\<rparr> = Inr \<lparr>ex_link = lk, ex_pending = []\<rparr>"
    using served by (simp add: exchange_serve_def)
  have opens: "nw_socket (busy_link server client dbg) p ex = Inr (True, ex)"
    "nw_connect (busy_link server client dbg) a ex = Inr (True, ex)" for p a ex by (simp_all add: busy_link_def)
  have "shadows server (node_connect (broker_link server client dbg) n lk)
      (node_connect (busy_link server client dbg) n \<lparr>ex_link = lk0, ex_pending = [batch]\<rparr>)"
    unfolding node_connect_def split_def
    using address serve
    by (auto simp: opens link_opens intro!: shadows_bind shadows_calls(1) loops_shadowed shadows_return)
  with quiet show ?thesis by (simp add: shadows_def)
qed

end
