(* ===== verification/Requests.thy ===== *)
theory Requests
  imports Busy_Link
begin

text \<open>
  Which control packets the loop of the broker survives. Every request that \<open>Node\<close> makes, with short
  names and with IDs the broker has given out, is answered or refused, whatever else has been registered meanwhile; so
  such packets are tolerated in the sense of \<open>Busy_Link\<close>. A request that lacks a key the broker reads ends the program: the
  JSON library throws an exception that nobody catches, or its behaviour is undefined.
\<close>

section \<open>The calls of a node\<close>

datatype call =
    RegisterNode string
  | RegisterMessageType string u32
  | RegisterTopic string u32 i8
  | AddPublisher u32 u32 u32
  | AddSubscriber u32 u32 u32

fun call_request :: "u32 \<Rightarrow> call \<Rightarrow> json res" where
  "call_request i (RegisterNode name) = build_request ''node'' ''register'' i [(''name'', JString name)]"
| "call_request i (RegisterMessageType name msize) =
     build_request ''message'' ''register'' i [(''name'', JString name), (''size'', json_of_unsigned msize)]"
| "call_request i (RegisterTopic name mt prio) =
     build_request ''topic'' ''register'' i
       [(''name'', JString name), (''message_type_id'', json_of_unsigned mt), (''priority'', json_of_signed prio)]"
| "call_request i (AddPublisher node t mt) =
     build_request ''topic'' ''add_publisher'' i
       [(''node_id'', json_of_unsigned node), (''topic_id'', json_of_unsigned t), (''message_type_id'', json_of_unsigned mt)]"
| "call_request i (AddSubscriber node t mt) =
     build_request ''topic'' ''add_subscriber'' i
       [(''node_id'', json_of_unsigned node), (''topic_id'', json_of_unsigned t), (''message_type_id'', json_of_unsigned mt)]"

text \<open>Only a topic needs an ID that exists: an unknown message type is not refused.\<close>

fun call_ok :: "broker \<Rightarrow> call \<Rightarrow> bool" where
  "call_ok b (RegisterNode name) = short name"
| "call_ok b (RegisterMessageType name msize) = short name"
| "call_ok b (RegisterTopic name mt prio) = (short name \<and> unat mt < length (br_message_types b))"
| "call_ok b (AddPublisher node t mt) = True"
| "call_ok b (AddSubscriber node t mt) = True"

lemma call_ok_evolves: "call_ok b call \<Longrightarrow> broker_evolves b b' \<Longrightarrow> call_ok b' call"
  using evolves_entries(2) by (cases call) auto

lemma call_served:
  assumes ok: "call_ok b call" and inv: "broker_inv b"
  shows "\<exists>request response b'. call_request i call = Inr request \<and> rpc_served client c b request response b'"
proof (cases call)
  case (RegisterNode name)
  then show ?thesis
    using ok serves_register_node [of name client c b "fst (register_node client name (counted client c b))"
        "snd (register_node client name (counted client c b))" i] by fastforce
next
  case (RegisterMessageType name msize)
  then show ?thesis
    using ok serves_register_message_type [of name msize client c b "fst (register_message_type name msize (counted client c b))"
        "snd (register_message_type name msize (counted client c b))" i] by fastforce
next
  case (RegisterTopic name mt prio)
  have "broker_inv (counted client c b)" "unat mt < length (br_message_types (counted client c b))"
    using ok inv RegisterTopic by simp_all
  from register_topic_total [OF this, of name prio] obtain r b' where "register_topic name mt prio (counted client c b) = Inr (r, b')"
    by blast
  with serves_register_topic [OF _ this, of i] ok RegisterTopic show ?thesis by fastforce
next
  case (AddPublisher node t mt)
  from add_total(1) [of "counted client c b" node t mt] inv obtain r b' where
    "add_publisher node t mt (counted client c b) = Inr (r, b')" by auto
  with serves_add_pubsub [of "''add_publisher''" add_publisher node t mt client c b r b' i] AddPublisher show ?thesis by fastforce
next
  case (AddSubscriber node t mt)
  from add_total(2) [of "counted client c b" node t mt] inv obtain r b' where
    "add_subscriber node t mt (counted client c b) = Inr (r, b')" by auto
  with serves_add_pubsub [of "''add_subscriber''" add_subscriber node t mt client c b r b' i] AddSubscriber show ?thesis by fastforce
qed

lemma call_handled:
  assumes ok: "call_ok b call" and inv: "broker_inv b" "length buf = udp_buffer_size"
    and packet: "call_request i call = Inr request" "bp_control_json_to_packet_buffer request c = Inr packet"
  shows "\<exists>b' buf' sent. broker_spin_once mailbox_network dbg (b, buf, \<lparr>mb_inbox = [(packet, client)], mb_sent = []\<rparr>) =
      Inr (True, b', buf', \<lparr>mb_inbox = [], mb_sent = sent\<rparr>) \<and>
    (if br_client_counters b client \<in> {None, Some (c - 1)} then \<exists>answer. sent = [(client, answer)] else sent = [] \<and> b' = b)"
proof -
  from call_served [OF ok inv(1), of i client c] packet(1) obtain response b' where
    served: "rpc_served client c b request response b'" by auto
  then have req: "json_ok request" "text_bound request + 9 \<le> udp_buffer_size" by (simp_all add: rpc_served_def)
  have small: "length packet \<le> udp_buffer_size" using control_packet_exists [OF req, of c] packet(2) by auto
  show ?thesis
  proof (cases "br_client_counters b client \<in> {None, Some (c - 1)}")
    case True
    from served control_packet_exists [of response c] obtain answer where
      "bp_control_json_to_packet_buffer response c = Inr answer" by (auto simp: rpc_served_def)
    with broker_handles_request [OF inv True req(1) packet(2) small, of response b' answer dbg] served True
    show ?thesis by (auto simp: rpc_served_def)
  next
    case False
    then have v: "verify_and_update_client_counter client c b = (False, b)"
      by (auto simp: verify_and_update_client_counter_def)
    have d: "decode_packet_buffer (packet @ drop (length packet) buf) (length packet) =
        Inr (bp_control, decoded_zero\<lparr>dec_header := \<lparr>bph_type = bp_control, bph_counter = c\<rparr>,
          dec_control_header := \<lparr>bpc_size = of_nat (length packet - 9)\<rparr>, dec_json := json_norm request\<rparr>)"
      using decode_control_packet [OF req(1) packet(2)] small by (simp add: udp_buffer_size_def)
    show ?thesis
      using False write_packet [of packet buf] small inv(2)
      by (auto simp: broker_spin_once_def mailbox_network_def handle_packet_def d v)
  qed
qed

lemma call_tolerated:
  assumes "call_ok b call" and "call_request i call = Inr request" and "bp_control_json_to_packet_buffer request c = Inr packet"
  shows "tolerated dbg b (packet, client)"
  unfolding tolerated_def
  using call_handled [OF call_ok_evolves [OF assms(1)] _ _ assms(2,3)] by blast

section \<open>Requests that lack a key\<close>

definition parameters :: "string \<Rightarrow> string \<Rightarrow> string list" where
  "parameters scope action =
     (if scope = ''node'' \<and> action = ''register'' then [''name'']
      else if scope = ''message'' \<and> action = ''register'' then [''name'', ''size'']
      else if scope = ''topic'' \<and> action = ''register'' then [''name'', ''message_type_id'', ''priority'']
      else if scope = ''topic'' \<and> (action = ''add_publisher'' \<or> action = ''add_subscriber'')
        then [''node_id'', ''topic_id'', ''message_type_id'']
      else [])"

text \<open>The paths of keys that the broker reads, given the scope and the action of the request.\<close>

definition required :: "json \<Rightarrow> string list list" where
  "required request = [''scope''] #
     (case json_at request ''scope'' of
        Inr (JString scope) \<Rightarrow>
          if scope \<in> {''node'', ''message'', ''topic''} then
            [scope, ''action''] #
            (case json_at_path request [scope, ''action''] of
               Inr (JString action) \<Rightarrow>
                 if parameters scope action = [] then []
                 else [''rpc_id''] # map (\<lambda>k. [scope, ''params'', k]) (parameters scope action)
             | _ \<Rightarrow> [])
          else []
      | _ \<Rightarrow> [])"

lemma answer_reads_rpc_id:
  "answer_failure request message = Inr r \<Longrightarrow> \<exists>v. json_at_path request [''rpc_id''] = Inr v"
  "answer_success request results = Inr r \<Longrightarrow> \<exists>v. json_at_path request [''rpc_id''] = Inr v"
  by (auto simp: answer_failure_def answer_success_def elim!: rbind_InrE)

definition has_keys :: "json \<Rightarrow> string list list \<Rightarrow> bool" where
  "has_keys request paths \<longleftrightarrow> (\<forall>path\<in>set paths. \<exists>v. json_at_path request path = Inr v)"

lemma requests_read:
  "request_register_node client request b = Inr r \<Longrightarrow>
   has_keys request ([''rpc_id''] # map (\<lambda>k. [''node'', ''params'', k]) (parameters ''node'' ''register''))"
  "request_register_message_type request b = Inr r \<Longrightarrow>
   has_keys request ([''rpc_id''] # map (\<lambda>k. [''message'', ''params'', k]) (parameters ''message'' ''register''))"
  "request_register_topic request b = Inr r \<Longrightarrow>
   has_keys request ([''rpc_id''] # map (\<lambda>k. [''topic'', ''params'', k]) (parameters ''topic'' ''register''))"
  "request_add_publisher request b = Inr r \<Longrightarrow>
   has_keys request ([''rpc_id''] # map (\<lambda>k. [''topic'', ''params'', k]) (parameters ''topic'' ''add_publisher''))"
  "request_add_subscriber request b = Inr r \<Longrightarrow>
   has_keys request ([''rpc_id''] # map (\<lambda>k. [''topic'', ''params'', k]) (parameters ''topic'' ''add_subscriber''))"
  by (auto simp: has_keys_def parameters_def request_register_node_def request_register_message_type_def
      request_register_topic_def request_add_publisher_def request_add_subscriber_def param_string_def param_word_def
      simp del: json_at_path.simps(2) elim!: rbind_InrE dest!: answer_reads_rpc_id
      split: prod.splits option.splits if_splits)

lemma json_eq_string_iff: "json_eq_string j s \<longleftrightarrow> j = JString s"
  by (cases j) (auto simp: json_eq_string_def)

lemma has_keys_simps:
  "has_keys request [] = True"
  "has_keys request (path # paths) \<longleftrightarrow> (\<exists>v. json_at_path request path = Inr v) \<and> has_keys request paths"
  by (simp_all add: has_keys_def)

lemma processed_has_keys:
  assumes "process_control_request client request b = Inr r"
  shows "has_keys request (required request)"
proof -
  obtain scope where scope: "json_at request ''scope'' = Inr scope"
    using assms by (auto simp: process_control_request_def elim!: rbind_InrE)
  then have s: "json_at_path request [''scope''] = Inr scope" by simp
  show ?thesis
  proof (cases "\<exists>name\<in>{''node'', ''message'', ''topic''}. scope = JString name")
    case False
    then show ?thesis using s by (auto simp: required_def scope has_keys_simps split: json.split)
  next
    case True
    then obtain name where name: "name \<in> {''node'', ''message'', ''topic''}" "scope = JString name" by blast
    with assms scope obtain action where action: "json_at_path request [name, ''action''] = Inr action"
      by (auto simp: process_control_request_def json_eq_string_iff simp del: json_at_path.simps(2) elim!: rbind_InrE)
    have "has_keys request ([''rpc_id''] # map (\<lambda>k. [name, ''params'', k]) (parameters name a))"
      if "action = JString a" "parameters name a \<noteq> []" for a
      using assms scope name action that
      by (auto simp: process_control_request_def json_eq_string_iff parameters_def simp del: json_at_path.simps(2)
          split: if_splits dest!: requests_read)
    then show ?thesis
      using s action name
      by (auto simp: required_def scope has_keys_simps simp del: json_at_path.simps(2) split: json.split)
  qed
qed

text \<open>
  How it fails: with a type error of the JSON library (305 for \<^verbatim>\<open>operator[]\<close> on something other than an object, 302 for a
  conversion), or with a read of what is not there.
\<close>

definition read_fault :: "fault \<Rightarrow> bool" where
  "read_fault f \<longleftrightarrow> f \<in> {JsonTypeError 305, JsonTypeError 302, OutOfBounds}"

lemma json_faults:
  "json_at j k = Inl f \<Longrightarrow> read_fault f" "json_subscript j k = Inl f \<Longrightarrow> read_fault f"
  "json_to_word j = Inl f \<Longrightarrow> read_fault f" "json_to_string j = Inl f \<Longrightarrow> read_fault f"
  by (auto simp: read_fault_def json_at_def json_subscript_def json_to_word_def json_to_string_def
      split: json.splits option.splits)

lemma json_at_path_faults: "json_at_path j ks = Inl f \<Longrightarrow> read_fault f"
  by (induction j ks rule: json_at_path.induct) (auto simp: rbind_eq_Inl_iff dest: json_faults)

lemma json_assign_faults: "json_assign ks v j = Inl f \<Longrightarrow> read_fault f"
  by (induction ks v j rule: json_assign.induct) (auto simp: rbind_eq_Inl_iff dest: json_faults)

lemma json_assign_all_faults: "json_assign_all xs j = Inl f \<Longrightarrow> read_fault f"
  by (induction xs j rule: json_assign_all.induct) (auto simp: rbind_eq_Inl_iff dest: json_assign_faults)

lemma param_faults:
  "param_word request scope name = Inl f \<Longrightarrow> read_fault f" "param_string request scope name = Inl f \<Longrightarrow> read_fault f"
  by (auto simp: param_word_def param_string_def rbind_eq_Inl_iff dest: json_faults json_at_path_faults)

lemma answer_faults:
  "answer_failure request message = Inl f \<Longrightarrow> read_fault f" "answer_success request results = Inl f \<Longrightarrow> read_fault f"
  by (auto simp: answer_failure_def answer_success_def rpc_failure_response_def rbind_eq_Inl_iff
      dest: json_faults json_assign_all_faults)

lemma operation_faults:
  "register_topic name mt prio b = Inl f \<Longrightarrow> read_fault f" "add_publisher i t mt b = Inl f \<Longrightarrow> read_fault f"
  "add_subscriber i t mt b = Inl f \<Longrightarrow> read_fault f"
  by (auto simp: register_topic_def add_publisher_def add_subscriber_def validate_topic_parameters_def rbind_eq_Inl_iff
      at_def read_fault_def Let_def split: option.splits if_splits)

lemmas read_faults = json_faults json_at_path_faults param_faults answer_faults operation_faults

lemma request_faults:
  "request_register_node client request b = Inl f \<Longrightarrow> read_fault f" "request_register_message_type request b = Inl f \<Longrightarrow> read_fault f"
  "request_register_topic request b = Inl f \<Longrightarrow> read_fault f" "request_add_publisher request b = Inl f \<Longrightarrow> read_fault f"
  "request_add_subscriber request b = Inl f \<Longrightarrow> read_fault f"
  by (auto simp: request_register_node_def request_register_message_type_def request_register_topic_def
      request_add_publisher_def request_add_subscriber_def rbind_eq_Inl_iff split_beta dest: read_faults
      split: option.split_asm if_split_asm)

lemma process_faults: "process_control_request client request b = Inl f \<Longrightarrow> read_fault f"
  by (auto simp: process_control_request_def rbind_eq_Inl_iff simp del: json_at_path.simps dest: request_faults read_faults
      split: if_splits)

text \<open>The scope and the action are read first, so what their reading ends in is the fault.\<close>

lemma process_first_fault:
  assumes path: "path \<in> set (take 2 (required request))" and fault: "json_at_path request path = Inl f"
  shows "process_control_request client request b = Inl f"
proof (cases "json_at request ''scope''")
  case (Inl g)
  with path fault show ?thesis by (simp add: required_def process_control_request_def)
next
  case (Inr scope)
  then have "path \<noteq> [''scope'']" using fault by auto
  with path Inr obtain name where name: "name \<in> {''node'', ''message'', ''topic''}" "scope = JString name" "path = [name, ''action'']"
    by (auto simp: required_def split: json.splits if_splits)
  then show ?thesis
    using Inr fault by (auto simp: process_control_request_def json_eq_string_iff simp del: json_at_path.simps(2))
qed

section \<open>Properties\<close>

text \<open>
  C25: the broker survives its nodes. A request packet as a node builds it, for any of the five calls, with short names
  and, when a topic is registered, a message type the broker had given out at some time, is handled by the
  loop of any later broker, from any client: when its counter is the expected one, exactly one answer goes back to
  the client; otherwise nothing is sent and the broker stays as it is. The loop goes on in both cases.
\<close>

theorem node_calls_survived:
  assumes "call_ok b0 call" and "call_request i call = Inr request" and "bp_control_json_to_packet_buffer request c = Inr packet"
    and "broker_inv b" and "broker_evolves b0 b" and "length buf = udp_buffer_size"
  shows "\<exists>b' buf' sent. broker_spin_once mailbox_network dbg (b, buf, \<lparr>mb_inbox = [(packet, client)], mb_sent = []\<rparr>) =
      Inr (True, b', buf', \<lparr>mb_inbox = [], mb_sent = sent\<rparr>) \<and>
    (if br_client_counters b client \<in> {None, Some (c - 1)} then \<exists>answer. sent = [(client, answer)] else sent = [] \<and> b' = b)"
  by (rule call_handled [OF call_ok_evolves [OF assms(1,5)] assms(4,6,2,3)])

theorem node_calls_survived_witness:
  "\<exists>request packet b' buf' answer. call_request 1 (RegisterTopic ''u'' 0 7) = Inr request \<and>
    bp_control_json_to_packet_buffer request 4 = Inr packet \<and>
    broker_spin_once mailbox_network True (sample_broker, replicate udp_buffer_size 0, \<lparr>mb_inbox = [(packet, ''h:9'')], mb_sent = []\<rparr>) =
      Inr (True, b', buf', \<lparr>mb_inbox = [], mb_sent = [(''h:9'', answer)]\<rparr>)"
proof -
  let ?call = "RegisterTopic ''u'' 0 7"
  have ok: "call_ok sample_broker ?call" by (simp add: short_def sample_broker_def)
  obtain request response b' where r: "call_request 1 ?call = Inr request" "rpc_served ''h:9'' 4 sample_broker request response b'"
    using call_served [OF ok sample_broker_inv] by blast
  then obtain packet where p: "bp_control_json_to_packet_buffer request 4 = Inr packet"
    using control_packet_exists [of request 4] by (auto simp: rpc_served_def)
  have new: "br_client_counters sample_broker ''h:9'' = None" by simp
  from node_calls_survived [OF ok r(1) p sample_broker_inv broker_evolves_refl length_replicate, of True 0 "''h:9''"] new r(1) p
  show ?thesis by auto
qed

text \<open>
  C26: an incomplete request ends the broker. A control packet from any client whose counter is accepted, a new client
  for instance, that lacks one of the keys the broker reads for its scope and action, ends \<^verbatim>\<open>spin()\<close> over any network, in
  one of three ways: with a type error 305 or 302, an exception of the JSON library that nobody catches, or with an access
  outside of an object. When the scope or the action cannot be read, the end is the one of that reading: the exception
  305 where the request, or the part named by the scope, is not an object, and undefined behaviour where the object lacks the
  key, because the constant \<^verbatim>\<open>operator[]\<close> dereferences the end iterator (an assertion guards it where assertions are on).
\<close>

theorem incomplete_request_ends_broker:
  assumes "nw_recvfrom nw udp_buffer_size True w = Inr (Received bytes client, w1)" and "write_at 0 bytes buf = Inr buf1"
    and "decode_packet_buffer buf1 (length bytes) = Inr (bp_control, d)"
    and "verify_and_update_client_counter client (bph_counter (dec_header d)) b = (True, b1)"
    and "path \<in> set (required (dec_json d))" and "json_at_path (dec_json d) path = Inl fault"
  shows "\<exists>f\<in>{JsonTypeError 305, JsonTypeError 302, OutOfBounds}. broker_spin (Suc k) nw dbg (b, buf, w) = Inl f \<and>
    (path \<in> set (take 2 (required (dec_json d))) \<longrightarrow> f = fault)"
proof -
  have "process_control_request client (dec_json d) b1 \<noteq> Inr r" for r
    using processed_has_keys [of client "dec_json d" b1 r] assms(5,6) unfolding has_keys_def by fastforce
  then obtain f where f: "process_control_request client (dec_json d) b1 = Inl f" by (metis sumE)
  then have "broker_spin_once nw dbg (b, buf, w) = Inl f"
    using assms(1-4) by (simp add: broker_spin_once_def handle_packet_def bp_type_defs)
  then have "broker_spin (Suc k) nw dbg (b, buf, w) = Inl f" by simp
  moreover have "f \<in> {JsonTypeError 305, JsonTypeError 302, OutOfBounds}" using process_faults [OF f] by (simp add: read_fault_def)
  moreover have "f = fault" if "path \<in> set (take 2 (required (dec_json d)))"
    using process_first_fault [OF that assms(6), of client b1] f by simp
  ultimately show ?thesis by blast
qed

text \<open>
  Two requests: in the first the part the scope names is a string instead of an object, which throws; the second has a
  scope and nothing else, which is undefined behaviour.
\<close>

lemma incomplete_packet:
  assumes ok: "json_ok request" "text_bound request + 9 \<le> udp_buffer_size"
    and path: "path \<in> set (take 2 (required (json_norm request)))" "json_at_path (json_norm request) path = Inl fault"
  obtains packet buf1 d where "bp_control_json_to_packet_buffer request 1 = Inr packet"
    "nw_recvfrom mailbox_network udp_buffer_size True \<lparr>mb_inbox = [(packet, ''h:9'')], mb_sent = []\<rparr> =
      Inr (Received packet ''h:9'', \<lparr>mb_inbox = [], mb_sent = []\<rparr>)"
    "write_at 0 packet (replicate udp_buffer_size 0) = Inr buf1" "decode_packet_buffer buf1 (length packet) = Inr (bp_control, d)"
    "bph_counter (dec_header d) = 1" "dec_json d = json_norm request"
proof -
  obtain packet where p: "bp_control_json_to_packet_buffer request 1 = Inr packet" "length packet \<le> udp_buffer_size"
    using control_packet_exists [OF ok] by blast
  have recv: "nw_recvfrom mailbox_network udp_buffer_size True \<lparr>mb_inbox = [(packet, ''h:9'')], mb_sent = []\<rparr> =
      Inr (Received packet ''h:9'', \<lparr>mb_inbox = [], mb_sent = []\<rparr>)" using p(2) by (simp add: mailbox_network_def)
  have store: "write_at 0 packet (replicate udp_buffer_size 0) = Inr (packet @ drop (length packet) (replicate udp_buffer_size 0))"
    using p(2) by (simp add: write_packet)
  have small: "length packet < 2 ^ 32" using p(2) by (simp add: udp_buffer_size_def)
  from that [OF p(1) recv store decode_control_packet [OF ok(1) p(1) small]] show thesis by simp
qed

lemma sample_broker_new_client:
  "verify_and_update_client_counter ''h:9'' 1 sample_broker =
     (True, sample_broker\<lparr>br_client_counters := (br_client_counters sample_broker)(''h:9'' \<mapsto> 1)\<rparr>)"
  by (simp add: verify_and_update_client_counter_def)

theorem incomplete_request_ends_broker_witness:
  "(\<exists>packet. bp_control_json_to_packet_buffer (JObject [(''node'', JString ''register''), (''scope'', JString ''node'')]) 1 = Inr packet \<and>
    broker_spin (Suc 2) mailbox_network True (sample_broker, replicate udp_buffer_size 0, \<lparr>mb_inbox = [(packet, ''h:9'')], mb_sent = []\<rparr>) =
      Inl (JsonTypeError 305)) \<and>
   (\<exists>packet. bp_control_json_to_packet_buffer (JObject [(''scope'', JString ''node'')]) 1 = Inr packet \<and>
    broker_spin (Suc 2) mailbox_network True (sample_broker, replicate udp_buffer_size 0, \<lparr>mb_inbox = [(packet, ''h:9'')], mb_sent = []\<rparr>) =
      Inl OutOfBounds)"
proof -
  let ?path = "[''node'', ''action'']"
  have run: "\<exists>packet. bp_control_json_to_packet_buffer request 1 = Inr packet \<and>
      broker_spin (Suc 2) mailbox_network True (sample_broker, replicate udp_buffer_size 0, \<lparr>mb_inbox = [(packet, ''h:9'')], mb_sent = []\<rparr>) =
        Inl fault"
    if r: "json_ok request" "text_bound request + 9 \<le> udp_buffer_size"
      "?path \<in> set (take 2 (required (json_norm request)))" "json_at_path (json_norm request) ?path = Inl fault" for request fault
  proof -
    from incomplete_packet [OF r] obtain packet buf1 d where
      p: "bp_control_json_to_packet_buffer request 1 = Inr packet"
        "nw_recvfrom mailbox_network udp_buffer_size True \<lparr>mb_inbox = [(packet, ''h:9'')], mb_sent = []\<rparr> =
          Inr (Received packet ''h:9'', \<lparr>mb_inbox = [], mb_sent = []\<rparr>)"
        "write_at 0 packet (replicate udp_buffer_size 0) = Inr buf1" "decode_packet_buffer buf1 (length packet) = Inr (bp_control, d)"
      and d: "bph_counter (dec_header d) = 1" "dec_json d = json_norm request" by metis
    have mem: "?path \<in> set (required (dec_json d))" using r(3) unfolding d(2) by (rule in_set_takeD)
    from incomplete_request_ends_broker [OF p(2-4), of sample_broker, unfolded d(1), OF sample_broker_new_client mem, of fault 2 True]
      r(3,4) p(1) show ?thesis unfolding d(2) by auto
  qed
  show ?thesis
    by (rule conjI; rule run) (simp_all add: obj_sorted_def udp_buffer_size_def required_def)
qed

end
