(* ===== verification/Node_Priority.thy ===== *)
theory Node_Priority
  imports Node_Delivery "HOL-Library.Multiset" "HOL-Library.Sublist"
begin

text \<open>
  The order in which a node works. \<^verbatim>\<open>connect()\<close> files the publishers under the priority they asked for and the
  subscribers under the priority the broker answered; one pass over the table then sends in that order, whatever the
  callbacks publish meanwhile. Sending is observed on the recording network.
\<close>

section \<open>What \<^verbatim>\<open>connect()\<close> files\<close>

text \<open>
  The first \<open>k\<close> publishers, and the first \<open>l\<close> subscribers, are in the table exactly once, each under the
  priority in its record and in the order in which they were created.
\<close>

definition filed_upto :: "nat \<Rightarrow> nat \<Rightarrow> 'u node \<Rightarrow> bool" where
  "filed_upto k l n \<longleftrightarrow>
     (\<forall>q. publishers_at n q = filter (\<lambda>i. pu_topic_priority (nd_publishers n ! i) = q) [0..<k] \<and>
          callbacks_at n q = filter (\<lambda>i. su_topic_priority (nd_subscribers n ! i) = q) [0..<l])"

definition filed :: "'u node \<Rightarrow> bool" where
  "filed n \<longleftrightarrow> filed_upto (length (nd_publishers n)) (length (nd_subscribers n)) n"

lemma entered_at [simp]:
  "publishers_at (enter_publisher i t p n) q = publishers_at n q @ (if q = p then [i] else [])"
  "callbacks_at (enter_publisher i t p n) q = callbacks_at n q"
  "publishers_at (enter_subscriber i t p n) q = publishers_at n q"
  "callbacks_at (enter_subscriber i t p n) q = callbacks_at n q @ (if q = p then [i] else [])"
  by (simp_all add: publishers_at_def callbacks_at_def enter_publisher_def enter_subscriber_def Let_def prio_get_def)

lemma changed_at [simp]:
  "publishers_at (change_publisher i f n) q = publishers_at n q" "callbacks_at (change_publisher i f n) q = callbacks_at n q"
  "publishers_at (change_subscriber i g n) q = publishers_at n q" "callbacks_at (change_subscriber i g n) q = callbacks_at n q"
  by (simp_all add: publishers_at_def callbacks_at_def change_publisher_def change_subscriber_def)

lemma changed_lists:
  "nd_publishers (change_publisher i f n) = (nd_publishers n)[i := f (nd_publishers n ! i)]"
  "nd_subscribers (change_subscriber i g n) = (nd_subscribers n)[i := g (nd_subscribers n ! i)]"
  by (simp_all add: change_publisher_def change_subscriber_def)

lemma rpc_changes_at:
  "rpc_changes n n' \<Longrightarrow> publishers_at n' = publishers_at n \<and> callbacks_at n' = callbacks_at n \<and>
     nd_publishers n' = nd_publishers n \<and> nd_subscribers n' = nd_subscribers n"
  using rpc_changes_fields [of n n'] by (simp add: publishers_at_def callbacks_at_def fun_eq_iff)

lemma map_eq_nth: "map f xs = map f ys \<Longrightarrow> i < length ys \<Longrightarrow> f (xs ! i) = f (ys ! i)"
  by (metis length_map nth_map)

lemma filed_upto_cong:
  fixes n n' :: "'u node"
  shows "publishers_at n' = publishers_at n \<Longrightarrow> callbacks_at n' = callbacks_at n \<Longrightarrow>
   map pu_topic_priority (nd_publishers n') = map pu_topic_priority (nd_publishers n) \<Longrightarrow>
   map su_topic_priority (nd_subscribers n') = map su_topic_priority (nd_subscribers n) \<Longrightarrow>
   k \<le> length (nd_publishers n) \<Longrightarrow> l \<le> length (nd_subscribers n) \<Longrightarrow> filed_upto k l n' = filed_upto k l n"
proof -
  assume a: "publishers_at n' = publishers_at n" "callbacks_at n' = callbacks_at n"
    "map pu_topic_priority (nd_publishers n') = map pu_topic_priority (nd_publishers n)"
    "map su_topic_priority (nd_subscribers n') = map su_topic_priority (nd_subscribers n)"
    "k \<le> length (nd_publishers n)" "l \<le> length (nd_subscribers n)"
  have "pu_topic_priority (nd_publishers n' ! i) = pu_topic_priority (nd_publishers n ! i)" if "i < k" for i
    using that a(5) by (intro map_eq_nth [OF a(3)]) simp
  moreover have "su_topic_priority (nd_subscribers n' ! i) = su_topic_priority (nd_subscribers n ! i)" if "i < l" for i
    using that a(6) by (intro map_eq_nth [OF a(4)]) simp
  ultimately have "filter (\<lambda>i. pu_topic_priority (nd_publishers n' ! i) = q) [0..<k] =
      filter (\<lambda>i. pu_topic_priority (nd_publishers n ! i) = q) [0..<k]"
    "filter (\<lambda>i. su_topic_priority (nd_subscribers n' ! i) = q) [0..<l] =
      filter (\<lambda>i. su_topic_priority (nd_subscribers n ! i) = q) [0..<l]" for q
    by (auto intro!: filter_cong)
  with a(1,2) show ?thesis by (simp add: filed_upto_def)
qed

text \<open>One registration: the publisher goes where it asked to be, the subscriber where the broker says.\<close>

lemma register_publisher_files:
  assumes "register_publisher nw i n w = Inr (ok, n', w')"
  shows "i < length (nd_publishers n) \<and> nd_subscribers n' = nd_subscribers n \<and> callbacks_at n' = callbacks_at n \<and>
    map pu_topic_priority (nd_publishers n') = map pu_topic_priority (nd_publishers n) \<and>
    (ok \<longrightarrow> publishers_at n' = (\<lambda>q. publishers_at n q @ (if q = pu_topic_priority (nd_publishers n ! i) then [i] else [])))"
  using assms
  by (auto simp: register_publisher_def at_eq_Inr_iff Let_def changed_lists map_update list_update_same_conv fun_eq_iff
      split: option.splits if_splits elim!: rbind_InrE dest!: rpc_calls_change rpc_changes_at)

lemma register_subscriber_files:
  assumes "register_subscriber nw i n w = Inr (ok, n', w')"
  shows "i < length (nd_subscribers n) \<and> nd_publishers n' = nd_publishers n \<and> publishers_at n' = publishers_at n \<and>
    length (nd_subscribers n') = length (nd_subscribers n) \<and> (\<forall>j. j \<noteq> i \<longrightarrow> nd_subscribers n' ! j = nd_subscribers n ! j) \<and>
    (ok \<longrightarrow> callbacks_at n' = (\<lambda>q. callbacks_at n q @ (if q = su_topic_priority (nd_subscribers n' ! i) then [i] else [])))"
  using assms
  by (auto simp: register_subscriber_def at_eq_Inr_iff Let_def changed_lists fun_eq_iff
      split: option.splits if_splits elim!: rbind_InrE dest!: rpc_calls_change rpc_changes_at)

text \<open>The two loops.\<close>

lemma register_publishers_file:
  "register_each (register_publisher nw) [k..<m] n w = Inr (True, n', w') \<Longrightarrow> filed_upto k 0 n \<Longrightarrow>
   k \<le> m \<Longrightarrow> m \<le> length (nd_publishers n) \<Longrightarrow>
   filed_upto m 0 n' \<and> nd_subscribers n' = nd_subscribers n \<and>
     map pu_topic_priority (nd_publishers n') = map pu_topic_priority (nd_publishers n)"
proof (induction "m - k" arbitrary: k n w)
  case 0
  then show ?case by simp
next
  case (Suc d)
  then have "k < m" by simp
  then have "[k..<m] = k # [Suc k..<m]" by (simp add: upt_conv_Cons)
  with Suc.prems(1) obtain n1 w1 where 1: "register_publisher nw k n w = Inr (True, n1, w1)"
    and 2: "register_each (register_publisher nw) [Suc k..<m] n1 w1 = Inr (True, n', w')"
    by (auto split: if_splits elim!: rbind_InrE)
  note f = register_publisher_files [OF 1]
  have len: "length (nd_publishers n1) = length (nd_publishers n)" using f by (metis length_map)
  have prio: "pu_topic_priority (nd_publishers n1 ! i) = pu_topic_priority (nd_publishers n ! i)"
    if "i < length (nd_publishers n)" for i
    using f that by (blast intro: map_eq_nth)
  have same: "filter (\<lambda>i. pu_topic_priority (nd_publishers n1 ! i) = q) [0..<k] =
      filter (\<lambda>i. pu_topic_priority (nd_publishers n ! i) = q) [0..<k]" for q
    using \<open>k < m\<close> Suc.prems(4) prio by (intro filter_cong) auto
  have at: "publishers_at n1 q = publishers_at n q @ (if q = pu_topic_priority (nd_publishers n ! k) then [k] else [])"
    "callbacks_at n1 q = callbacks_at n q" for q
    using f by simp_all
  have "pu_topic_priority (nd_publishers n1 ! k) = pu_topic_priority (nd_publishers n ! k)"
    using prio \<open>k < m\<close> Suc.prems(4) by simp
  then have "filed_upto (Suc k) 0 n1"
    using Suc.prems(2) by (simp add: filed_upto_def at same)
  from Suc.hyps(1) [OF _ 2 this] Suc.hyps(2) \<open>k < m\<close> Suc.prems(4) len f show ?case by simp
qed

lemma register_subscribers_file:
  "register_each (register_subscriber nw) [l..<m] n w = Inr (True, n', w') \<Longrightarrow> filed_upto k l n \<Longrightarrow>
   l \<le> m \<Longrightarrow> m \<le> length (nd_subscribers n) \<Longrightarrow>
   filed_upto k m n' \<and> nd_publishers n' = nd_publishers n \<and> length (nd_subscribers n') = length (nd_subscribers n)"
proof (induction "m - l" arbitrary: l n w)
  case 0
  then show ?case by simp
next
  case (Suc d)
  then have "l < m" by simp
  then have "[l..<m] = l # [Suc l..<m]" by (simp add: upt_conv_Cons)
  with Suc.prems(1) obtain n1 w1 where 1: "register_subscriber nw l n w = Inr (True, n1, w1)"
    and 2: "register_each (register_subscriber nw) [Suc l..<m] n1 w1 = Inr (True, n', w')"
    by (auto split: if_splits elim!: rbind_InrE)
  note f = register_subscriber_files [OF 1]
  have "filter (\<lambda>i. su_topic_priority (nd_subscribers n1 ! i) = q) [0..<l] =
      filter (\<lambda>i. su_topic_priority (nd_subscribers n ! i) = q) [0..<l]" for q
    using f by (auto intro!: filter_cong)
  moreover have "callbacks_at n1 q = callbacks_at n q @ (if q = su_topic_priority (nd_subscribers n1 ! l) then [l] else [])"
    "publishers_at n1 q = publishers_at n q" for q
    using f by simp_all
  ultimately have "filed_upto k (Suc l) n1"
    using Suc.prems(2) f by (simp add: filed_upto_def)
  from Suc.hyps(1) [OF _ 2 this] Suc.hyps(2) \<open>l < m\<close> Suc.prems(4) f show ?case by simp
qed

lemma node_connect_files:
  assumes c: "node_connect nw n w = Inr (True, n', w')" and empty: "nd_topics_by_prio n = []"
  shows "filed n' \<and> map pu_topic_priority (nd_publishers n') = map pu_topic_priority (nd_publishers n)"
proof -
  from c obtain n1 n2 w1 w2 where
    1: "rpc_changes n n1" and
    2: "register_each (register_publisher nw) [0..<length (nd_publishers n1)] n1 w1 = Inr (True, n2, w2)" and
    3: "register_each (register_subscriber nw) [0..<length (nd_subscribers n2)] n2 w2 = Inr (True, n', w')"
    by (auto simp: node_connect_def split: if_splits elim!: rbind_InrE dest!: node_register_node_changes)
  note r = rpc_changes_at [OF 1]
  have "publishers_at n q = [] \<and> callbacks_at n q = []" for q
    using empty by (simp add: publishers_at_def callbacks_at_def prio_get_def topic_info_empty_def)
  then have "filed_upto 0 0 n1" using r by (simp add: filed_upto_def)
  from register_publishers_file [OF 2 this] have
    4: "filed_upto (length (nd_publishers n1)) 0 n2" "map pu_topic_priority (nd_publishers n2) = map pu_topic_priority (nd_publishers n1)"
    by simp_all
  from register_subscribers_file [OF 3 4(1)] have
    5: "filed_upto (length (nd_publishers n1)) (length (nd_subscribers n2)) n'" "nd_publishers n' = nd_publishers n2"
      "length (nd_subscribers n') = length (nd_subscribers n2)" by simp_all
  have "length (nd_publishers n2) = length (nd_publishers n1)" using 4(2) by (metis length_map)
  with 4 5 r show ?thesis by (simp add: filed_def)
qed

section \<open>The order of the table\<close>

text \<open>The publishers in the order in which a pass over the topics goes through them.\<close>

definition publishers_in_order :: "(i8 \<times> topic_info) list \<Rightarrow> nat list" where
  "publishers_in_order ts = concat (map (\<lambda>(p, ti). ti_publishers ti) ts)"

lemma publishers_in_order_simps [simp]:
  "publishers_in_order [] = []"
  "publishers_in_order ((p, ti) # ts) = ti_publishers ti @ publishers_in_order ts"
  by (simp_all add: publishers_in_order_def)

text \<open>From the highest to the lowest priority the publishers asked for; those with the same one as they were created.\<close>

definition by_requested_priority :: "publisher list \<Rightarrow> nat list" where
  "by_requested_priority ps = sort_key (\<lambda>i. - sint (pu_topic_priority (ps ! i))) [0..<length ps]"

text \<open>A list grouped by priorities is sorted by them.\<close>

definition grouped :: "('a \<Rightarrow> i8) \<Rightarrow> 'a list \<Rightarrow> i8 list \<Rightarrow> 'a list" where
  "grouped prio xs qs = concat (map (\<lambda>q. filter (\<lambda>i. prio i = q) xs) qs)"

lemma filter_grouped:
  "distinct qs \<Longrightarrow> filter (\<lambda>i. prio i = q) (grouped prio xs qs) = (if q \<in> set qs then filter (\<lambda>i. prio i = q) xs else [])"
  by (induction qs) (auto simp: grouped_def filter_empty_conv intro!: filter_cong)

lemma grouped_prio: "i \<in> set (grouped prio xs qs) \<Longrightarrow> prio i \<in> set qs"
  by (auto simp: grouped_def)

lemma sorted_grouped:
  "sorted_wrt (\<lambda>p q. sint q < sint p) qs \<Longrightarrow> sorted (map (\<lambda>i. - sint (prio i)) (grouped prio xs qs))"
proof (induction qs)
  case Nil
  then show ?case by (simp add: grouped_def)
next
  case (Cons q qs)
  have split: "grouped prio xs (q # qs) = filter (\<lambda>i. prio i = q) xs @ grouped prio xs qs" by (simp add: grouped_def)
  have "sorted (map (\<lambda>i. - sint (prio i)) (filter (\<lambda>i. prio i = q) ys))" for ys
    by (induction ys) auto
  with Cons grouped_prio show ?case unfolding split by (fastforce simp: sorted_append)
qed

lemma grouped_sort_key:
  assumes qs: "sorted_wrt (\<lambda>p q. sint q < sint p) qs" and all: "\<And>x. x \<in> set xs \<Longrightarrow> prio x \<in> set qs"
  shows "grouped prio xs qs = sort_key (\<lambda>i. - sint (prio i)) xs"
proof (rule properties_for_sort_key [symmetric])
  have d: "distinct qs" using qs by (induction qs) auto
  have same: "filter (\<lambda>i. prio i = prio x) (grouped prio xs qs) = filter (\<lambda>i. prio i = prio x) xs" for x
  proof (cases "prio x \<in> set qs")
    case False
    then have "filter (\<lambda>i. prio i = prio x) xs = []" using all by (fastforce simp: filter_empty_conv)
    with False show ?thesis by (simp add: filter_grouped [OF d])
  qed (simp add: filter_grouped [OF d])
  have "count (mset (grouped prio xs qs)) x = count (mset (filter (\<lambda>i. prio i = prio x) (grouped prio xs qs))) x" for x by simp
  then show "mset (grouped prio xs qs) = mset xs" unfolding same by (intro multiset_eqI) simp
  fix k
  have sym: "(\<lambda>x. - sint (prio k) = - sint (prio x)) = (\<lambda>x. prio x = prio k)" by (simp add: fun_eq_iff) (metis word_eq_iff_signed)
  show "filter (\<lambda>x. - sint (prio k) = - sint (prio x)) (grouped prio xs qs) =
      filter (\<lambda>x. - sint (prio k) = - sint (prio x)) xs"
    unfolding sym by (rule same)
  show "sorted (map (\<lambda>i. - sint (prio i)) (grouped prio xs qs))" by (rule sorted_grouped [OF qs])
qed

text \<open>So a table filled by \<^verbatim>\<open>connect()\<close> holds the publishers in that order.\<close>

lemma prio_find_sorted: "prio_sorted ts \<Longrightarrow> (q, ti) \<in> set ts \<Longrightarrow> prio_find q ts = Some ti"
  by (induction ts) (force simp: prio_sorted_def)+

lemma filed_order:
  assumes inv: "node_inv n" and filed: "filed n"
  shows "publishers_in_order (nd_topics_by_prio n) = by_requested_priority (nd_publishers n)"
proof -
  let ?ts = "nd_topics_by_prio n" and ?prio = "\<lambda>i. pu_topic_priority (nd_publishers n ! i)" and ?xs = "[0..<length (nd_publishers n)]"
  have at: "publishers_at n q = filter (\<lambda>i. ?prio i = q) ?xs" for q using filed by (simp add: filed_def filed_upto_def)
  have sorted: "prio_sorted ?ts" using inv by (simp add: node_inv_def)
  have "ti_publishers ti = filter (\<lambda>i. ?prio i = q) ?xs" if "(q, ti) \<in> set ?ts" for q ti
    using prio_find_sorted [OF sorted that] at [of q] by (simp add: publishers_at_def prio_get_def)
  then have "publishers_in_order ?ts = grouped ?prio ?xs (map fst ?ts)"
    by (auto simp: publishers_in_order_def grouped_def intro!: arg_cong [of _ _ concat])
  also have "\<dots> = by_requested_priority (nd_publishers n)"
    unfolding by_requested_priority_def
  proof (rule grouped_sort_key)
    show "sorted_wrt (\<lambda>p q. sint q < sint p) (map fst ?ts)" using sorted by (simp add: prio_sorted_def)
    fix i
    assume "i \<in> set ?xs"
    then have "i \<in> set (publishers_at n (?prio i))" by (simp add: at)
    then have "prio_find (?prio i) ?ts \<noteq> None" by (auto simp: publishers_at_def prio_get_def topic_info_empty_def split: option.splits)
    then show "?prio i \<in> set (map fst ?ts)" by (auto dest: prio_find_Some intro: rev_image_eqI)
  qed
  finally show ?thesis .
qed

section \<open>One pass\<close>

text \<open>
  What a callback may do to the publishers: publish, that is, add messages behind those that wait. The identity of
  a publisher is its own.
\<close>

definition registration :: "publisher \<Rightarrow> u32 \<times> u32 \<times> u32 \<times> i8" where
  "registration p = (pu_topic_id p, pu_message_type_id p, pu_message_size p, pu_topic_priority p)"

definition queued_more :: "publisher \<Rightarrow> publisher \<Rightarrow> bool" where
  "queued_more p p' \<longleftrightarrow> registration p' = registration p \<and> prefix (pu_waiting p) (pu_waiting p')"

definition callback_publishes :: "nat \<Rightarrow> 'u subscriber \<Rightarrow> bool" where
  "callback_publishes np s \<longleftrightarrow> (\<forall>m ps u ps' u'. length m = unat (su_message_size s) \<longrightarrow> length ps = np \<longrightarrow>
     (\<forall>p\<in>set ps. node_publisher_ok p) \<longrightarrow> su_callback s m (su_message_size s) (ps, u) = Inr (ps', u') \<longrightarrow>
     list_all2 queued_more ps ps')"

lemma callback_publishes_queue [simp]:
  "callback_publishes np (s\<lparr>su_message_queue := q\<rparr>) = callback_publishes np s"
  by (simp add: callback_publishes_def)

lemma queued_more_refl [simp]: "queued_more p p"
  by (simp add: queued_more_def)

lemma queued_more_trans: "queued_more p q \<Longrightarrow> queued_more q r \<Longrightarrow> queued_more p r"
  by (auto simp: queued_more_def)

lemma all_queued_more_refl [simp]: "list_all2 queued_more ps ps"
  by (simp add: list_all2_refl)

lemma all_queued_more_trans: "list_all2 queued_more ps qs \<Longrightarrow> list_all2 queued_more qs rs \<Longrightarrow> list_all2 queued_more ps rs"
  by (rule list_all2_trans [of queued_more queued_more queued_more]) (auto intro: queued_more_trans)

text \<open>What a pass leaves of the node: the tables, and whatever was registered.\<close>

definition pass_keeps :: "'u node \<Rightarrow> 'u node \<Rightarrow> bool" where
  "pass_keeps n n' \<longleftrightarrow> nd_topics_by_prio n' = nd_topics_by_prio n \<and>
     map registration (nd_publishers n') = map registration (nd_publishers n) \<and>
     map su_topic_priority (nd_subscribers n') = map su_topic_priority (nd_subscribers n)"

lemma pass_keeps_refl [simp]: "pass_keeps n n"
  by (simp add: pass_keeps_def)

lemma pass_keeps_trans: "pass_keeps n n1 \<Longrightarrow> pass_keeps n1 n2 \<Longrightarrow> pass_keeps n n2"
  by (simp add: pass_keeps_def)

lemma queued_more_registration: "list_all2 queued_more ps ps' \<Longrightarrow> map registration ps' = map registration ps"
  by (induction rule: list_all2_induct) (simp_all add: queued_more_def)

lemma pass_keeps_filed:
  assumes "pass_keeps n n'" and "filed n"
  shows "filed n'"
proof -
  have "map (\<lambda>r. snd (snd (snd r))) (map registration (nd_publishers n')) =
      map (\<lambda>r. snd (snd (snd r))) (map registration (nd_publishers n))"
    using assms(1) unfolding pass_keeps_def by metis
  then have "map pu_topic_priority (nd_publishers n') = map pu_topic_priority (nd_publishers n)"
    by (simp add: registration_def comp_def)
  moreover have "length (nd_subscribers n') = length (nd_subscribers n)" "length (nd_publishers n') = length (nd_publishers n)"
    using assms(1) calculation by (auto simp: pass_keeps_def dest: map_eq_imp_length_eq)
  ultimately show ?thesis
    using assms filed_upto_cong [of n' n "length (nd_publishers n)" "length (nd_subscribers n)"]
    by (simp add: filed_def pass_keeps_def publishers_at_def callbacks_at_def fun_eq_iff)
qed

lemma run_callbacks_publish:
  "node_safe keep peer np ns n u \<Longrightarrow> \<forall>s\<in>set (nd_subscribers n). callback_publishes np s \<Longrightarrow> \<forall>i\<in>set is. i < ns \<Longrightarrow>
   \<exists>n' u'. run_callbacks is n u = Inr (True, n', u') \<and> node_safe keep peer np ns n' u' \<and>
     (\<forall>s\<in>set (nd_subscribers n'). callback_publishes np s) \<and> nd_bp_counter n' = nd_bp_counter n \<and> pass_keeps n n' \<and>
     list_all2 queued_more (nd_publishers n) (nd_publishers n')"
proof (induction "is" arbitrary: n u)
  case Nil
  then show ?case by simp
next
  case (Cons i "is")
  note IH = Cons.IH and prems = Cons.prems
  let ?s = "nd_subscribers n ! i"
  have i: "i < ns" "i < length (nd_subscribers n)" using prems by (simp_all add: node_safe_def node_ok_def)
  show ?case
  proof (cases "su_waiting ?s")
    case Nil
    with IH prems i show ?thesis by (simp add: messages_queued_waiting)
  next
    case (Cons m ms)
    from run_callback_safe [OF prems(1) i(1) Cons] obtain s1 ps u1 where
      1: "run_callback ?s (nd_publishers n, u) = Inr (True, s1, (ps, u1))"
      "node_safe keep peer np ns (n\<lparr>nd_subscribers := (nd_subscribers n)[i := s1], nd_publishers := ps\<rparr>) u1" by blast
    let ?n = "n\<lparr>nd_subscribers := (nd_subscribers n)[i := s1], nd_publishers := ps\<rparr>"
    note s = node_safe_subscriber [OF prems(1) i(1)]
    from run_callback_some [OF _ Cons, of "(nd_publishers n, u)"] s(1) obtain q where
      q: "run_callback ?s (nd_publishers n, u) = rbind (su_callback ?s m (su_message_size ?s) (nd_publishers n, u))
        (\<lambda>ctx1. Inr (True, ?s\<lparr>su_message_queue := q\<rparr>, ctx1))" by (auto simp: node_subscriber_ok_def)
    with 1(1) have cb: "su_callback ?s m (su_message_size ?s) (nd_publishers n, u) = Inr (ps, u1)"
      and s1: "s1 = ?s\<lparr>su_message_queue := q\<rparr>" by (auto simp: rbind_eq_Inr_iff)
    have len: "length m = unat (su_message_size ?s)" using waiting_length [OF s(1), of m] Cons by simp
    have cp: "callback_publishes np ?s" using prems(2) i(2) by simp
    have more: "list_all2 queued_more (nd_publishers n) ps"
      using cp cb len prems(1) unfolding callback_publishes_def node_safe_def node_ok_def node_inv_def by blast
    have "\<forall>s\<in>set (nd_subscribers ?n). callback_publishes np s"
      using prems(2) cp s1 set_update_subset_insert [of "nd_subscribers n" i s1] by auto
    from IH [OF 1(2) this] prems(3) obtain n' u' where r:
      "run_callbacks is ?n u1 = Inr (True, n', u')" "node_safe keep peer np ns n' u'"
      "\<forall>s\<in>set (nd_subscribers n'). callback_publishes np s" "nd_bp_counter n' = nd_bp_counter n" "pass_keeps ?n n'"
      "list_all2 queued_more ps (nd_publishers n')" by auto
    have eq: "run_callbacks (i # is) n u = run_callbacks is ?n u1"
      using 1(1) i Cons by (simp add: messages_queued_waiting Let_def)
    have "pass_keeps n ?n"
      using queued_more_registration [OF more] i(2) s1 by (simp add: pass_keeps_def map_update list_update_same_conv)
    from pass_keeps_trans [OF this r(5)] show ?thesis
      unfolding eq using r(1-4) all_queued_more_trans [OF more r(6)] by blast
  qed
qed

text \<open>The packets for messages of given publishers, with consecutive counters.\<close>

fun numbered_packets :: "publisher list \<Rightarrow> u32 \<Rightarrow> (nat \<times> byte list) list \<Rightarrow> byte list list" where
  "numbered_packets ps c [] = []"
| "numbered_packets ps c ((i, m) # sends) = data_packet (c + 1) (ps ! i) m # numbered_packets ps (c + 1) sends"

definition oldest_waiting :: "publisher list \<Rightarrow> nat list \<Rightarrow> (nat \<times> byte list) list" where
  "oldest_waiting ps is = map (\<lambda>i. (i, hd (pu_waiting (ps ! i)))) (filter (\<lambda>i. pu_waiting (ps ! i) \<noteq> []) is)"

lemma waiting_numbered: "waiting_packets is ps c = numbered_packets ps c (oldest_waiting ps is)"
  by (induction "is" arbitrary: c) (auto simp: oldest_waiting_def split: list.split)

lemma numbered_append:
  "numbered_packets ps c (xs @ ys) = numbered_packets ps c xs @ numbered_packets ps (c + of_nat (length xs)) ys"
  by (induction xs arbitrary: c) (auto simp: algebra_simps)

lemma length_numbered [simp]: "length (numbered_packets ps c xs) = length xs"
  by (induction xs arbitrary: c) auto

lemma numbered_cong:
  assumes "map registration ps' = map registration ps"
  shows "\<forall>(i, m)\<in>set xs. i < length ps \<Longrightarrow> numbered_packets ps' c xs = numbered_packets ps c xs"
proof (induction xs arbitrary: c)
  case Nil
  then show ?case by simp
next
  case (Cons x xs)
  obtain i m where x: "x = (i, m)" by (cases x)
  have "registration (ps' ! i) = registration (ps ! i)" using Cons.prems x by (intro map_eq_nth [OF assms]) simp
  then have "data_packet (c + 1) (ps' ! i) m = data_packet (c + 1) (ps ! i) m"
    by (simp add: data_packet_def registration_def)
  with Cons x show ?case by simp
qed

lemma send_messages_keeps: "send_messages nw is work n w = Inr (ok, work', n', w') \<Longrightarrow> pass_keeps n n'"
proof (induction "is" arbitrary: work n w)
  case Nil
  then show ?case by simp
next
  case (Cons i "is")
  have i: "i < length (nd_publishers n)" using Cons.prems by (auto simp: at_eq_Inr_iff elim!: rbind_InrE)
  show ?case
  proof (cases "pu_messages_queued (nd_publishers n ! i) = 0")
    case True
    with Cons.prems i Cons.IH [of work n w] show ?thesis by simp
  next
    case False
    with Cons.prems i obtain ok1 n1 w1 where
      1: "node_send_data nw i n w = Inr (ok1, n1, w1)"
      and n': "(if \<not> ok1 then Inr (False, work, n1, w1)
        else send_messages nw is True (change_publisher i (\<lambda>p. snd (pu_pop_message p)) n1) w1) = Inr (ok, work', n', w')"
      by (auto elim!: rbind_InrE)
    from 1 have k1: "pass_keeps n n1"
      by (auto simp: node_send_data_def next_bp_counter_def change_publisher_def pass_keeps_def at_eq_Inr_iff registration_def
          map_update list_update_same_conv Let_def split: option.splits elim!: rbind_InrE)
    then have "i < length (nd_publishers n1)" using i by (auto simp: pass_keeps_def dest: map_eq_imp_length_eq)
    then have "pass_keeps n1 (change_publisher i (\<lambda>p. snd (pu_pop_message p)) n1)"
      by (simp add: pass_keeps_def change_publisher_def pu_pop_message_def registration_def map_update list_update_same_conv
          split: prod.split)
    with k1 n' Cons.IH show ?thesis by (auto split: if_splits intro: pass_keeps_trans)
  qed
qed

text \<open>
  One pass over topics: which publishers' messages are sent, and in which order. Every publisher with a message at
  the start sends its oldest one; others send what a callback published before it was their turn.
\<close>

lemma spin_topics_order:
  "\<lbrakk>node_safe keep peer np ns n u; \<forall>s\<in>set (nd_subscribers n). callback_publishes np s;
    \<forall>ti\<in>snd ` set ts. ti_ok np ns ti; distinct (publishers_in_order ts)\<rbrakk> \<Longrightarrow>
   \<exists>sends n' u'. spin_topics mailbox_network ts work n u w =
      Inr (True, work \<or> sends \<noteq> [], n', u', w\<lparr>mb_sent := mb_sent w @
        map (Pair peer) (numbered_packets (nd_publishers n) (nd_bp_counter n) sends)\<rparr>) \<and>
     subseq (map fst sends) (publishers_in_order ts) \<and>
     (\<forall>i\<in>set (publishers_in_order ts). \<forall>m ms. pu_waiting (nd_publishers n ! i) = m # ms \<longrightarrow> (i, m) \<in> set sends) \<and>
     node_safe keep peer np ns n' u' \<and> pass_keeps n n'"
proof (induction ts arbitrary: work n u w)
  case Nil
  then show ?case by (intro exI [of _ "[]"] exI [of _ n] exI [of _ u]) simp
next
  case (Cons t ts)
  note IH = Cons.IH and prems = Cons.prems
  obtain prio ti where t: "t = (prio, ti)" by (cases t)
  let ?is = "ti_publishers ti" and ?js = "publishers_in_order ts" and ?c = "nd_bp_counter n"
  have idx: "\<forall>i\<in>set (ti_subscribers ti). i < ns" "\<forall>i\<in>set ?is. i < np" "distinct ?is" "distinct ?js" "set ?is \<inter> set ?js = {}"
    using prems(3,4) t by (auto simp: ti_ok_def)
  have js: "\<forall>j\<in>set ?js. j < np" using prems(3) by (force simp: publishers_in_order_def ti_ok_def)
  from run_callbacks_publish [OF prems(1,2) idx(1)] obtain n1 u1 where
    1: "run_callbacks (ti_subscribers ti) n u = Inr (True, n1, u1)" "node_safe keep peer np ns n1 u1"
      "\<forall>s\<in>set (nd_subscribers n1). callback_publishes np s" "nd_bp_counter n1 = ?c" "pass_keeps n n1"
      "list_all2 queued_more (nd_publishers n) (nd_publishers n1)" by blast
  have n1: "node_inv n1" "\<forall>i\<in>set ?is. i < length (nd_publishers n1)" "nd_broker_address n1 = peer" "length (nd_publishers n1) = np"
    "length (nd_publishers n) = np"
    using 1(2) prems(1) idx(2) by (simp_all add: node_safe_def node_ok_def)
  let ?ps = "nd_publishers n1" and ?s1 = "oldest_waiting (nd_publishers n1) (ti_publishers ti)"
  let ?w1 = "w\<lparr>mb_sent := mb_sent w @ map (Pair peer) (numbered_packets ?ps ?c ?s1)\<rparr>"
  have nonempty: "numbered_packets ?ps ?c ?s1 \<noteq> [] \<longleftrightarrow> ?s1 \<noteq> []" by (metis length_numbered length_0_conv)
  from send_messages_order [OF n1(1,2) idx(3), of work w] obtain n2 where
    2: "send_messages mailbox_network ?is work n1 w = Inr (True, work \<or> ?s1 \<noteq> [], n2, ?w1)"
      "node_inv n2" "nd_broker_address n2 = peer" "nd_subscribers n2 = nd_subscribers n1"
      "length (nd_publishers n2) = np" "nd_bp_counter n2 = ?c + of_nat (length ?s1)"
      "\<forall>i<np. if i \<in> set ?is then pu_waiting (nd_publishers n2 ! i) = tl (pu_waiting (?ps ! i))
        else nd_publishers n2 ! i = ?ps ! i"
    unfolding waiting_numbered 1(4) n1(3,4) nonempty length_numbered by blast
  note keeps2 = send_messages_keeps [OF 2(1)]
  have safe2: "node_safe keep peer np ns n2 u1"
    using 1(2) 2(2-5) by (simp add: node_safe_def node_ok_def)
  from IH [OF safe2 _ _ idx(4), of "work \<or> ?s1 \<noteq> []" ?w1] prems(3) 1(3) 2(4) obtain s2 n3 u3 where
    3: "spin_topics mailbox_network ts (work \<or> ?s1 \<noteq> []) n2 u1 ?w1 =
      Inr (True, (work \<or> ?s1 \<noteq> []) \<or> s2 \<noteq> [], n3, u3, ?w1\<lparr>mb_sent := mb_sent ?w1 @
        map (Pair peer) (numbered_packets (nd_publishers n2) (nd_bp_counter n2) s2)\<rparr>)"
      "subseq (map fst s2) ?js"
      "\<forall>i\<in>set ?js. \<forall>m ms. pu_waiting (nd_publishers n2 ! i) = m # ms \<longrightarrow> (i, m) \<in> set s2"
      "node_safe keep peer np ns n3 u3" "pass_keeps n2 n3" by auto
  have s1_idx: "\<forall>(i, m)\<in>set ?s1. i < np" using idx(2) by (auto simp: oldest_waiting_def)
  have s2_idx: "\<forall>(i, m)\<in>set s2. i < np"
  proof clarify
    fix i m
    assume "(i, m) \<in> set s2"
    then have "i \<in> set (map fst s2)" by force
    from list_emb_set [OF 3(2) this] js show "i < np" by auto
  qed
  have reg: "map registration ?ps = map registration (nd_publishers n)" using 1(5) by (simp add: pass_keeps_def)
  have reg2: "map registration (nd_publishers n2) = map registration (nd_publishers n)"
    using reg keeps2 by (simp add: pass_keeps_def)
  have packets: "numbered_packets (nd_publishers n) ?c (?s1 @ s2) =
      numbered_packets ?ps ?c ?s1 @ numbered_packets (nd_publishers n2) (nd_bp_counter n2) s2"
    unfolding numbered_append 2(6)
    using numbered_cong [OF reg] numbered_cong [OF reg2] s1_idx s2_idx n1(5) by simp
  have "subseq (map fst ?s1) ?is" by (simp add: oldest_waiting_def comp_def)
  then have "subseq (map fst (?s1 @ s2)) (publishers_in_order (t # ts))"
    using 3(2) t by (simp add: list_emb_append_mono)
  moreover have "(i, m) \<in> set (?s1 @ s2)"
    if i: "i \<in> set (publishers_in_order (t # ts))" and m: "pu_waiting (nd_publishers n ! i) = m # ms" for i m ms
  proof -
    have "i < np" using i idx(2) js t by auto
    then have "queued_more (nd_publishers n ! i) (?ps ! i)" using 1(6) n1(5) by (simp add: list_all2_nthD)
    then obtain ms' where m1: "pu_waiting (?ps ! i) = m # ms'" using m by (auto simp: queued_more_def prefix_def)
    show ?thesis
    proof (cases "i \<in> set ?is")
      case True
      with m1 show ?thesis by (force simp: oldest_waiting_def)
    next
      case False
      with 2(7) \<open>i < np\<close> m1 have "pu_waiting (nd_publishers n2 ! i) = m # ms'" by simp
      with 3(3) False i t show ?thesis by auto
    qed
  qed
  moreover have "spin_topics mailbox_network (t # ts) work n u w =
      Inr (True, work \<or> ?s1 @ s2 \<noteq> [], n3, u3, w\<lparr>mb_sent := mb_sent w @
        map (Pair peer) (numbered_packets (nd_publishers n) ?c (?s1 @ s2))\<rparr>)"
    using 1(1) 2(1) 3(1) by (auto simp: t packets disj_assoc)
  moreover have "pass_keeps n n3" using pass_keeps_trans [OF pass_keeps_trans [OF 1(5) keeps2] 3(5)] .
  ultimately show ?case using 3(4) by blast
qed
section \<open>Properties\<close>

text \<open>
  C7: a node sends in the order of the priorities its publishers asked for. Take a node whose table \<^verbatim>\<open>connect()\<close> has
  filled, with callbacks that may publish, and messages waiting in publishers and in subscribers as they are. In one pass
  over the topics, on a network that accepts what is sent, every publisher with messages at the start sends the oldest
  one, and one without may send what a callback published before its turn; the packets bear consecutive counters, and
  they leave in the order of the requested priorities, from the highest to the lowest, publishers with the same one
  in the order of their creation. The table is as before, so this holds for every later pass as well. The priority that
  counts is not the topic's: a publisher that asked for \<^verbatim>\<open>dontcare_topic_priority\<close>, which is below the lowest, sends after all
  others even when the topic has the highest.
\<close>

theorem messages_sent_by_requested_priority:
  assumes "node_safe keep peer np ns n u" and "\<forall>s\<in>set (nd_subscribers n). callback_publishes np s" and "filed n"
  shows "\<exists>sends n' u'. spin_topics mailbox_network (nd_topics_by_prio n) work n u w =
      Inr (True, work \<or> sends \<noteq> [], n', u', w\<lparr>mb_sent := mb_sent w @
        map (Pair peer) (numbered_packets (nd_publishers n) (nd_bp_counter n) sends)\<rparr>) \<and>
    subseq (map fst sends) (by_requested_priority (nd_publishers n)) \<and>
    (\<forall>i<np. \<forall>m ms. pu_waiting (nd_publishers n ! i) = m # ms \<longrightarrow> (i, m) \<in> set sends) \<and>
    node_safe keep peer np ns n' u' \<and> filed n'"
proof -
  have n: "node_inv n" "length (nd_publishers n) = np" "\<forall>ti\<in>snd ` set (nd_topics_by_prio n). ti_ok np ns ti"
    using assms(1) by (auto simp: node_safe_def node_ok_def node_inv_def)
  note order = filed_order [OF n(1) assms(3)]
  have all: "distinct (by_requested_priority (nd_publishers n))" "set (by_requested_priority (nd_publishers n)) = {..<np}"
    using n(2) by (auto simp: by_requested_priority_def)
  from spin_topics_order [OF assms(1,2) n(3), of work w] all pass_keeps_filed [OF _ assms(3)]
  show ?thesis unfolding order by (metis lessThan_iff)
qed

text \<open>
  Two publishers with a message each and a subscriber with two; the first publisher does not care about the priority of its
  topic, the second asked for 5. The second one sends first.
\<close>

definition eager_node :: "unit node" where
  "eager_node = enter_subscriber 0 3 0 (enter_publisher 1 2 5 (enter_publisher 0 1 dontcare_topic_priority
     ((node_new ''n'' ''s'' UDP 1)\<lparr>nd_publishers :=
       [waiting_publisher\<lparr>pu_topic_id := 1, pu_topic_priority := dontcare_topic_priority\<rparr>, waiting_publisher\<lparr>pu_topic_id := 2\<rparr>],
      nd_subscribers := [waiting_subscriber]\<rparr>)))"

lemma eager_node_simps [simp]:
  "nd_publishers eager_node =
     [waiting_publisher\<lparr>pu_topic_id := 1, pu_topic_priority := dontcare_topic_priority\<rparr>, waiting_publisher\<lparr>pu_topic_id := 2\<rparr>]"
  "nd_subscribers eager_node = [waiting_subscriber]" "nd_bp_counter eager_node = 0"
  by (simp_all add: eager_node_def enter_publisher_def enter_subscriber_def node_new_def Let_def)

lemma waiting_publisher_fields [simp]:
  "pu_topic_priority waiting_publisher = 5" "su_topic_priority waiting_subscriber = 0" "su_callback waiting_subscriber = silent_callback"
  "pu_waiting (waiting_publisher\<lparr>pu_topic_id := t\<rparr>) = [[9]]"
  "pu_waiting (waiting_publisher\<lparr>pu_topic_id := t, pu_topic_priority := q\<rparr>) = [[9]]"
  using waiting_publisher_ok(2)
  by (simp_all add: waiting_publisher_def waiting_subscriber_def publisher_new_def subscriber_new_def pu_waiting_def)

lemma eager_node_safe: "node_safe (\<lambda>_. True) (nd_broker_address eager_node) 2 1 eager_node ()"
proof -
  have "node_publisher_ok (waiting_publisher\<lparr>pu_topic_id := t\<rparr>)"
    "node_publisher_ok (waiting_publisher\<lparr>pu_topic_id := t, pu_topic_priority := q\<rparr>)" for t q
    using waiting_publisher_ok(1) by (simp_all add: node_publisher_ok_def publisher_inv_def pu_packet_size_def)
  then have "node_inv ((node_new ''n'' ''s'' UDP 1)\<lparr>nd_publishers :=
       [waiting_publisher\<lparr>pu_topic_id := 1, pu_topic_priority := dontcare_topic_priority\<rparr>, waiting_publisher\<lparr>pu_topic_id := 2\<rparr>],
      nd_subscribers := [waiting_subscriber]\<rparr>)"
    using waiting_subscriber_ok(1) by (simp add: node_inv_def node_new_def prio_sorted_def)
  then have "node_inv eager_node"
    unfolding eager_node_def by (intro enter_subscriber_inv enter_publisher_inv) simp_all
  then show ?thesis by (simp add: node_safe_def node_ok_def silent_callback_ok)
qed

lemma eager_node_filed: "filed eager_node"
proof -
  have "publishers_at eager_node q = filter (\<lambda>i. pu_topic_priority (nd_publishers eager_node ! i) = q) [0, 1]"
    "callbacks_at eager_node q = filter (\<lambda>i. su_topic_priority (nd_subscribers eager_node ! i) = q) [0]" for q
    by (auto simp: eager_node_def)
       (simp_all add: publishers_at_def callbacks_at_def prio_get_def node_new_def topic_info_empty_def dontcare_topic_priority_def)
  then show ?thesis by (simp add: filed_def filed_upto_def upt_rec)
qed

theorem messages_sent_by_requested_priority_witness:
  "\<exists>n' u'. spin_topics mailbox_network (nd_topics_by_prio eager_node) False eager_node () \<lparr>mb_inbox = [], mb_sent = []\<rparr> =
      Inr (True, True, n', u', \<lparr>mb_inbox = [], mb_sent =
        [(nd_broker_address eager_node, data_packet 1 (nd_publishers eager_node ! 1) [9]),
         (nd_broker_address eager_node, data_packet 2 (nd_publishers eager_node ! 0) [9])]\<rparr>)"
proof -
  have order: "by_requested_priority (nd_publishers eager_node) = [1, 0]"
    by (simp add: by_requested_priority_def upt_rec dontcare_topic_priority_def)
  have cb: "\<forall>s\<in>set (nd_subscribers eager_node). callback_publishes 2 s"
    by (auto simp: callback_publishes_def silent_callback_def)
  from messages_sent_by_requested_priority [OF eager_node_safe cb eager_node_filed, of False "\<lparr>mb_inbox = [], mb_sent = []\<rparr>"]
  obtain sends n' u' where
    1: "spin_topics mailbox_network (nd_topics_by_prio eager_node) False eager_node () \<lparr>mb_inbox = [], mb_sent = []\<rparr> =
      Inr (True, sends \<noteq> [], n', u', \<lparr>mb_inbox = [], mb_sent = map (Pair (nd_broker_address eager_node))
        (numbered_packets (nd_publishers eager_node) (nd_bp_counter eager_node) sends)\<rparr>)"
    and sub: "subseq (map fst sends) [1, 0]"
    and waiting: "(0, [9]) \<in> set sends" "(1, [9]) \<in> set sends"
    unfolding order by (auto simp: less_Suc_eq numeral_2_eq_2)
  have "map fst sends \<in> {[], [0], [1], [1, 0]}" using sub by (auto simp: in_set_subseqs [symmetric])
  with waiting have "sends = [(1, [9]), (0, [9])]" by auto
  with 1 show ?thesis by auto
qed

end
