(* ===== verification/System.thy ===== *)
theory System
  imports Requests Node_Priority
begin

text \<open>
  The program as a whole: a node connects to the broker, publishes, and the message arrives at the
  subscribers of another node. The parts are the ones of the other theories; here are the facts that
  need several of them at once.
\<close>

section \<open>A published message on its way through the broker\<close>

lemma waiting_message_length:
  assumes "node_publisher_ok p" and "m \<in> set (pu_waiting p)"
  shows "length m = unat (pu_message_size p)"
proof -
  let ?q = "pu_message_queue p"
  have inv: "mq_inv ?q" and sz: "unat (mq_message_size ?q) = 17 + unat (pu_message_size p)" "pu_packet_header_size p = 17"
    using assms(1) by (simp_all add: node_publisher_ok_def publisher_inv_def pu_packet_size_def)
  from assms(2) obtain b where "b \<in> set (mq_queue ?q)" "m = drop 17 (mq_buffers ?q ! b)"
    by (auto simp: pu_waiting_def mq_contents_def sz)
  with mq_inv_queued [OF inv, of b] sz show ?thesis by simp
qed

lemma link_forwards:
  assumes link: "link_ok server client n lk" and p: "publisher_known (lk_broker lk) i p"
    and m: "length m = unat (pu_message_size p)" "17 + length m \<le> udp_buffer_size"
  defines "packet \<equiv> data_packet (nd_bp_counter n + 1) p m"
    and "addresses \<equiv> subscriber_addresses (lk_broker lk) (br_topics (lk_broker lk) ! unat (pu_topic_id p))"
  shows "\<exists>lk'. link_send server client dbg server packet lk = Inr (True, lk') \<and>
    lk_broker lk' = counted client (nd_bp_counter n + 1) (lk_broker lk) \<and>
    lk_inbox lk' = map (\<lambda>a. packet) (filter (\<lambda>a. a = client) addresses) \<and>
    lk_others lk' = lk_others lk @ map (\<lambda>a. (a, packet)) (filter (\<lambda>a. a \<noteq> client) addresses)"
proof -
  let ?b = "lk_broker lk" and ?c = "nd_bp_counter n + 1" and ?h = "\<lparr>bpd_topic_id = pu_topic_id p,
    bpd_message_type_id = pu_message_type_id p, bpd_size = pu_message_size p\<rparr>"
  let ?buf = "packet @ drop (length packet) (lk_buffer lk)"
  have l: "broker_inv ?b" "length (lk_buffer lk) = udp_buffer_size" "lk_inbox lk = []"
    "br_client_counters ?b client \<in> {None, Some (?c - 1)}"
    using link by (simp_all add: link_ok_def)
  have len: "length packet = 17 + length m" "length packet \<le> udp_buffer_size" "length packet < 2 ^ 32"
    using m by (simp_all add: packet_def data_packet_def udp_buffer_size_def)
  have known: "unat (pu_topic_id p) < length (br_topics ?b)"
    "pu_message_type_id p = t_message_type_id (br_topics ?b ! unat (pu_topic_id p))"
    using p by (auto simp: publisher_known_def endpoint_known_def)
  have forward: "forward_data mailbox_network dbg ?h ?buf (length packet) (counted client ?c ?b) w =
      Inr (w\<lparr>mb_sent := mb_sent w @ map (\<lambda>a. (a, packet)) addresses\<rparr>)" for w
    using forward_data_accepted [of "counted client ?c ?b" ?h "length packet" ?buf mailbox_network dbg w] l(1) known
    by (simp add: send_each_mailbox subscriber_addresses_def addresses_def)
  have handle: "handle_packet mailbox_network dbg client ?buf (length packet) ?b w =
      Inr (True, counted client ?c ?b, w\<lparr>mb_sent := mb_sent w @ map (\<lambda>a. (a, packet)) addresses\<rparr>)" for w
    using handle_data_packet [OF verify_accepts [OF l(4)], of packet "pu_topic_id p" "pu_message_type_id p"
        "pu_message_size p" m mailbox_network dbg "drop (length packet) (lk_buffer lk)" w] m(1) len(3) forward
    by (simp add: packet_def data_packet_def counted_def)
  have recv: "nw_recvfrom mailbox_network udp_buffer_size True \<lparr>mb_inbox = [(packet, client)], mb_sent = []\<rparr> =
      Inr (Received packet client, \<lparr>mb_inbox = [], mb_sent = []\<rparr>)"
    using len(2) by (simp add: mailbox_network_def)
  have "broker_spin_once mailbox_network dbg (?b, lk_buffer lk, \<lparr>mb_inbox = [(packet, client)], mb_sent = []\<rparr>) =
      Inr (True, counted client ?c ?b, ?buf, \<lparr>mb_inbox = [], mb_sent = map (\<lambda>a. (a, packet)) addresses\<rparr>)"
    using handle write_packet [of packet "lk_buffer lk"] len(2) l(2) by (simp add: broker_spin_once_def recv)
  then show ?thesis by (simp add: link_send_def link_serve_def l(3) filter_map comp_def)
qed

text \<open>Two endpoints of one topic name, known to one broker, have the same topic and message size.\<close>

lemma endpoints_agree:
  assumes "broker_inv b" and "endpoint_known b name tn1 sz1 mt1 t1" and "endpoint_known b name tn2 sz2 mt2 t2"
  shows "t1 = t2 \<and> mt1 = mt2 \<and> sz1 = sz2"
proof -
  have "map t_name (br_topics b) ! unat t1 = map t_name (br_topics b) ! unat t2"
    "unat t1 < length (map t_name (br_topics b))" "unat t2 < length (map t_name (br_topics b))"
    using assms(2,3) by (simp_all add: endpoint_known_def)
  with broker_inv_distinct(3) [OF assms(1)] have "unat t1 = unat t2"
    using nth_eq_iff_index_eq by blast
  then have "t1 = t2" by (simp add: word_unat_eq_iff)
  with assms(2,3) show ?thesis by (auto simp: endpoint_known_def)
qed

lemma known_endpoints_agree:
  assumes "broker_inv b" and p: "publisher_known b ip p" and s: "subscriber_known b is' s"
    and "pu_topic_name p = su_topic_name s"
  shows "pu_topic_id p = su_topic_id s \<and> pu_message_type_id p = su_message_type_id s \<and>
    pu_message_type_name p = su_message_type_name s \<and> pu_message_size p = su_message_size s \<and>
    su_topic_priority s = t_priority (br_topics b ! unat (pu_topic_id p))"
proof -
  have ep: "endpoint_known b (su_topic_name s) (pu_message_type_name p) (pu_message_size p) (pu_message_type_id p) (pu_topic_id p)"
    using p assms(4) by (simp add: publisher_known_def)
  have es: "endpoint_known b (su_topic_name s) (su_message_type_name s) (su_message_size s) (su_message_type_id s) (su_topic_id s)"
    and pr: "su_topic_priority s = t_priority (br_topics b ! unat (su_topic_id s))"
    using s by (simp_all add: subscriber_known_def)
  have same: "pu_topic_id p = su_topic_id s" "pu_message_type_id p = su_message_type_id s" "pu_message_size p = su_message_size s"
    using endpoints_agree [OF assms(1) ep es] by simp_all
  have "pu_message_type_name p = su_message_type_name s" using ep es same by (simp add: endpoint_known_def)
  with same pr show ?thesis by simp
qed

lemma node_agrees_evolves:
  assumes "node_agrees b client n" and "broker_evolves b b'"
  shows "node_agrees b' client n"
  using assms evolves_entries(1) [OF assms(2), of "unat (nd_node_id n)"]
  by (auto simp: node_agrees_def publishers_done_def subscribers_done_def known_evolves)

lemma subscribed_address:
  assumes "node_agrees b client n" and "j < length (nd_subscribers n)" and "su_topic_id (nd_subscribers n ! j) = t"
  shows "client \<in> set (subscriber_addresses b (br_topics b ! unat t))"
proof -
  have "nd_node_id n \<in> set (t_subscribers (br_topics b ! unat t))"
    using assms by (auto simp: node_agrees_def subscribers_done_def subscriber_known_def)
  then show ?thesis using assms(1) by (auto simp: subscriber_addresses_def node_agrees_def)
qed

section \<open>Its arrival\<close>

lemma subscribed_receives:
  assumes inv: "node_inv n" and agrees: "node_agrees b client n" and j: "j < length (nd_subscribers n)"
    and s: "nd_subscribers n ! j = s" and p: "pu_topic_id p = su_topic_id s" "pu_message_size p = su_message_size s"
    and m: "length m = unat (pu_message_size p)" and inbox: "mb_inbox w = (data_packet c p m, sender) # rest"
  shows "\<exists>n'. process_incoming_message mailbox_network n w = Inr (1, n', w\<lparr>mb_inbox := rest\<rparr>) \<and>
    su_waiting (nd_subscribers n' ! j) = su_waiting s @ (if length (su_waiting s) < message_queue_capacity then [m] else [])"
proof -
  have sub: "j \<in> set (subscribers_on n (su_topic_id s))" "distinct (subscribers_on n (su_topic_id s))"
    using agrees j s by (auto simp: node_agrees_def subscribers_done_def)
  then obtain ti where ti: "nd_topics n (su_topic_id s) = Some ti" "ti_subscribers ti = subscribers_on n (su_topic_id s)"
    by (auto simp: subscribers_on_def topic_get_def topic_info_empty_def split: option.splits)
  with sub have ti2: "ti_subscribers ti \<noteq> []" "distinct (ti_subscribers ti)" "j \<in> set (ti_subscribers ti)" by auto
  have "17 + unat (su_message_size s) \<le> udp_buffer_size"
    using node_inv_subscriber [OF inv j] s by (simp add: node_subscriber_ok_def)
  then have len: "length (data_packet c p m) \<le> udp_buffer_size" using m p(2) by (simp add: data_packet_def)
  have pk: "data_packet c p m = bp_data # htonl_bytes c @ htonl_bytes (su_topic_id s) @ htonl_bytes (pu_message_type_id p) @
      htonl_bytes (pu_message_size p) @ m" using p(1) by (simp add: data_packet_def)
  from process_data_packet [OF inv ti(1) ti2(1,2) pk m [symmetric] len inbox] obtain n' where
    n': "process_incoming_message mailbox_network n w = Inr (1, n', w\<lparr>mb_inbox := rest\<rparr>)"
    "\<forall>j<length (nd_subscribers n). if j \<in> set (ti_subscribers ti)
      then su_waiting (nd_subscribers n' ! j) =
        received_by (nd_subscribers n ! j) (m @ drop (length (data_packet c p m)) (nd_buffer n))
      else nd_subscribers n' ! j = nd_subscribers n ! j" by blast
  from spec [OF n'(2), of j] j ti2(3) s
  have "su_waiting (nd_subscribers n' ! j) = received_by s (m @ drop (length (data_packet c p m)) (nd_buffer n))" by simp
  with n'(1) m p(2) show ?thesis by (auto simp: received_by_def)
qed

section \<open>Concrete systems\<close>

text \<open>A node with one subscriber, before it connects to an empty broker.\<close>

definition fresh_link :: link where
  "fresh_link = \<lparr>lk_broker = broker_new ''1.2.3.4'' UDP 1000, lk_buffer = replicate udp_buffer_size 0,
                 lk_inbox = [], lk_others = []\<rparr>"

definition fresh_node :: "unit node" where
  "fresh_node = create_subscriber (\<lambda>_ q. q) ''t'' ''T'' 2 silent_callback 5 (node_new ''n'' ''s'' UDP 1)"

text \<open>A node with one publisher of the same topic, and the broker it has connected to.\<close>

definition fresh_talker :: "unit node" where
  "fresh_talker = create_publisher (\<lambda>_ q. q) ''t'' ''T'' 2 5 (node_new ''p'' ''s'' UDP 1)"

definition met_broker :: broker where
  "met_broker = (broker_new ''1.2.3.4'' UDP 1000)
     \<lparr>br_client_counters := [''h:1'' \<mapsto> 4], br_nodes := [\<lparr>ni_name = ''p'', ni_address = ''h:1''\<rparr>],
      br_message_types := [\<lparr>mti_name = ''T'', mti_size = 2\<rparr>],
      br_topics := [\<lparr>t_name = ''t'', t_message_type_id = 0, t_priority = 5, t_publishers = [0], t_subscribers = []\<rparr>]\<rparr>"

lemmas broker_operations = register_node_def register_message_type_def register_topic_def add_publisher_def
  add_subscriber_def validate_topic_parameters_def counted_def broker_new_def dontcare_topic_priority_def Let_def

lemma fresh_ok:
  "link_ok (nd_broker_address fresh_node) ''h:1'' fresh_node fresh_link" "connectable fresh_node"
  "room (Suc (2 * length (nd_publishers fresh_node) + 2 * length (nd_subscribers fresh_node))) (lk_broker fresh_link)"
  by (simp_all add: fresh_node_def fresh_link_def link_ok_def connectable_def room_def create_subscriber_def node_new_def
      subscriber_new_def subscriber_short_def short_def broker_new_def)
     (simp add: broker_inv_def)

lemma fresh_talker_ok:
  "link_ok (nd_broker_address fresh_talker) ''h:1'' fresh_talker fresh_link" "connectable fresh_talker"
  "room (Suc (2 * length (nd_publishers fresh_talker) + 2 * length (nd_subscribers fresh_talker))) (lk_broker fresh_link)"
  by (simp_all add: fresh_talker_def fresh_link_def link_ok_def connectable_def room_def create_publisher_def node_new_def
      publisher_new_def publisher_short_def short_def broker_new_def)
     (simp add: broker_inv_def)

lemma met_ok:
  "link_ok (nd_broker_address fresh_node) ''h:2'' fresh_node (fresh_link\<lparr>lk_broker := met_broker\<rparr>)"
  "room (Suc (2 * length (nd_publishers fresh_node) + 2 * length (nd_subscribers fresh_node))) met_broker"
  by (simp_all add: fresh_node_def fresh_link_def link_ok_def room_def create_subscriber_def node_new_def met_broker_def
      broker_new_def)
     (simp add: broker_inv_def topic_ok_def dontcare_topic_priority_def)

lemma fresh_talker_connects:
  "\<exists>n' lk' p. node_connect (broker_link (nd_broker_address fresh_talker) ''h:1'' dbg) fresh_talker fresh_link = Inr (True, n', lk') \<and>
    lk_broker lk' = met_broker \<and> nd_publishers n' = [p] \<and> pu_topic_name p = ''t''"
proof -
  let ?p = "publisher_new ''t'' ''T'' 2 5 17"
  have p: "nd_publishers fresh_talker = [?p]" "nd_subscribers fresh_talker = []" "short (nd_name fresh_talker)" "publisher_short ?p"
    by (simp_all add: bp_header_size_def bp_data_header_size_def fresh_talker_def create_publisher_def node_new_def publisher_short_def publisher_new_def short_def)
  obtain b1 where b1: "register_node ''h:1'' (nd_name fresh_talker) (counted ''h:1'' (nd_bp_counter fresh_talker + 1) (lk_broker fresh_link)) = (Some 0, b1)"
    and b1': "b1 = (broker_new ''1.2.3.4'' UDP 1000)\<lparr>br_client_counters := [''h:1'' \<mapsto> 1], br_nodes := [\<lparr>ni_name = ''p'', ni_address = ''h:1''\<rparr>]\<rparr>"
    by (simp add: broker_operations fresh_talker_def fresh_link_def create_publisher_def node_new_def)
  obtain b2 where b2: "register_message_type ''T'' 2 (counted ''h:1'' 2 b1) = (Some 0, b2)"
    and b2': "b2 = b1\<lparr>br_client_counters := [''h:1'' \<mapsto> 2], br_message_types := [\<lparr>mti_name = ''T'', mti_size = 2\<rparr>]\<rparr>"
    by (simp add: broker_operations b1')
  obtain b3 where b3: "register_topic ''t'' 0 5 (counted ''h:1'' 3 b2) = Inr (Some (0, 5), b3)"
    and b3': "b3 = b2\<lparr>br_client_counters := [''h:1'' \<mapsto> 3],
      br_topics := [\<lparr>t_name = ''t'', t_message_type_id = 0, t_priority = 5, t_publishers = [], t_subscribers = []\<rparr>]\<rparr>"
    by (simp add: broker_operations b2' b1')
  have b4: "add_publisher 0 0 0 (counted ''h:1'' 4 b3) = Inr (True, met_broker)"
    by (simp add: broker_operations b3' b2' b1' met_broker_def)
  have c: "nd_bp_counter fresh_talker = 0" by (simp add: fresh_talker_def create_publisher_def node_new_def)
  have "pu_message_type_name ?p = ''T''" "pu_message_size ?p = 2" "pu_topic_name ?p = ''t''" "pu_topic_priority ?p = 5"
    by (simp_all add: publisher_new_def)
  with one_publisher_connects [OF fresh_talker_ok(1) p b1, of 0 b2 0 5 b3 met_broker dbg] b2 b3 b4 c show ?thesis
    by fastforce
qed

text \<open>
  A node with one endpoint of topic \<open>t\<close> connects, whether the topic exists already or not; the broker and the node afterwards.
\<close>

definition one_topic :: "u32 \<Rightarrow> u32 list \<Rightarrow> u32 list \<Rightarrow> broker \<Rightarrow> bool" where
  "one_topic sz ps ss b \<longleftrightarrow> br_message_types b = [\<lparr>mti_name = ''T'', mti_size = sz\<rparr>] \<and>
     br_topics b = [\<lparr>t_name = ''t'', t_message_type_id = 0, t_priority = 5, t_publishers = ps, t_subscribers = ss\<rparr>]"

definition no_topic :: "broker \<Rightarrow> bool" where
  "no_topic b \<longleftrightarrow> br_message_types b = [] \<and> br_topics b = []"

definition other_nodes :: "string \<Rightarrow> broker \<Rightarrow> bool" where
  "other_nodes name b \<longleftrightarrow> br_nodes b = [] \<or> (\<exists>other a. br_nodes b = [\<lparr>ni_name = other, ni_address = a\<rparr>] \<and> other \<noteq> name)"

lemma subscriber_joins:
  fixes n :: "'u node"
  assumes n: "nd_publishers n = []" "nd_subscribers n = [subscriber_new ''t'' ''T'' sz cb 5]" "short (nd_name n)" "nd_bp_counter n = 0"
    and nodes: "other_nodes (nd_name n) b" and topics: "no_topic b \<and> ps = [] \<and> ss = [] \<or> one_topic sz ps ss b"
    and link: "link_ok server client n lk" and lk: "lk_broker lk = b"
  shows "\<exists>n' lk' s. node_connect (broker_link server client dbg) n lk = Inr (True, n', lk') \<and>
    nd_subscribers n' = [s] \<and> su_topic_name s = ''t'' \<and>
    (nd_topics_by_prio n = [] \<longrightarrow> nd_topics_by_prio n' = [(5, \<lparr>ti_publishers = [], ti_subscribers = [0]\<rparr>)]) \<and>
    br_nodes (lk_broker lk') = br_nodes b @ [\<lparr>ni_name = nd_name n, ni_address = client\<rparr>] \<and>
    one_topic sz ps (ss @ [of_nat (length (br_nodes b))]) (lk_broker lk') \<and>
    br_client_counters (lk_broker lk') = (br_client_counters b)(client \<mapsto> 4)"
proof -
  let ?s = "subscriber_new ''t'' ''T'' sz cb 5"
  have short: "subscriber_short ?s" by (simp add: subscriber_short_def subscriber_new_def short_def)
  let ?i = "of_nat (length (br_nodes b)) :: u32"
  obtain b1 where b1: "register_node client (nd_name n) (counted client (nd_bp_counter n + 1) (lk_broker lk)) = (Some ?i, b1)"
    and b1': "b1 = b\<lparr>br_client_counters := (br_client_counters b)(client \<mapsto> 1),
      br_nodes := br_nodes b @ [\<lparr>ni_name = nd_name n, ni_address = client\<rparr>]\<rparr>"
    using nodes lk n(4) by (auto simp: other_nodes_def broker_operations)
  obtain b2 where b2: "register_message_type ''T'' sz (counted client 2 b1) = (Some 0, b2)"
    and b2': "b2 = b1\<lparr>br_client_counters := (br_client_counters b)(client \<mapsto> 2), br_message_types := [\<lparr>mti_name = ''T'', mti_size = sz\<rparr>]\<rparr>"
    using topics b1' by (auto simp: one_topic_def no_topic_def broker_operations)
  obtain b3 where b3: "register_topic ''t'' 0 5 (counted client 3 b2) = Inr (Some (0, 5), b3)"
    and b3': "b3 = b2\<lparr>br_client_counters := (br_client_counters b)(client \<mapsto> 3),
      br_topics := [\<lparr>t_name = ''t'', t_message_type_id = 0, t_priority = 5, t_publishers = ps, t_subscribers = ss\<rparr>]\<rparr>"
    using topics b1' b2' by (auto simp: one_topic_def no_topic_def broker_operations)
  define b4 where "b4 = b3\<lparr>br_client_counters := (br_client_counters b)(client \<mapsto> 4),
      br_topics := [\<lparr>t_name = ''t'', t_message_type_id = 0, t_priority = 5, t_publishers = ps, t_subscribers = ss @ [?i]\<rparr>]\<rparr>"
  have b4: "add_subscriber ?i 0 0 (counted client 4 b3) = Inr (True, b4)"
    using nodes by (auto simp: other_nodes_def broker_operations b4_def b3' b2' b1')
  have s: "su_message_type_name ?s = ''T''" "su_message_size ?s = sz" "su_topic_name ?s = ''t''" "su_topic_priority ?s = 5"
    by (simp_all add: subscriber_new_def)
  from one_subscriber_connects [OF link n(1-3) short b1, of 0 b2 0 5 b3 b4 dbg] b2 b3 b4 n(4) s obtain n' lk' s' where
    "node_connect (broker_link server client dbg) n lk = Inr (True, n', lk')" "lk_broker lk' = b4"
    "nd_subscribers n' = [s']" "su_topic_name s' = ''t''"
    "nd_topics_by_prio n = [] \<longrightarrow> nd_topics_by_prio n' = [(5, \<lparr>ti_publishers = [], ti_subscribers = [0]\<rparr>)]" by auto
  moreover have "br_nodes b4 = br_nodes b @ [\<lparr>ni_name = nd_name n, ni_address = client\<rparr>]" "one_topic sz ps (ss @ [?i]) b4"
    "br_client_counters b4 = (br_client_counters b)(client \<mapsto> 4)"
    by (simp_all add: b4_def b3' b2' b1' one_topic_def)
  ultimately show ?thesis by auto
qed

lemma publisher_joins:
  fixes n :: "'u node"
  assumes n: "nd_publishers n = [publisher_new ''t'' ''T'' sz 5 17]" "nd_subscribers n = []" "short (nd_name n)" "nd_bp_counter n = 0"
    and nodes: "other_nodes (nd_name n) b" and topics: "no_topic b \<and> ps = [] \<and> ss = [] \<or> one_topic sz ps ss b"
    and link: "link_ok server client n lk" and lk: "lk_broker lk = b"
  shows "\<exists>n' lk' p. node_connect (broker_link server client dbg) n lk = Inr (True, n', lk') \<and>
    nd_publishers n' = [p] \<and> pu_topic_name p = ''t'' \<and>
    (nd_topics_by_prio n = [] \<longrightarrow> nd_topics_by_prio n' = [(5, \<lparr>ti_publishers = [0], ti_subscribers = []\<rparr>)]) \<and>
    br_nodes (lk_broker lk') = br_nodes b @ [\<lparr>ni_name = nd_name n, ni_address = client\<rparr>] \<and>
    one_topic sz (ps @ [of_nat (length (br_nodes b))]) ss (lk_broker lk') \<and>
    br_client_counters (lk_broker lk') = (br_client_counters b)(client \<mapsto> 4)"
proof -
  let ?p = "publisher_new ''t'' ''T'' sz 5 17"
  have short: "publisher_short ?p" by (simp add: publisher_short_def publisher_new_def short_def)
  let ?i = "of_nat (length (br_nodes b)) :: u32"
  obtain b1 where b1: "register_node client (nd_name n) (counted client (nd_bp_counter n + 1) (lk_broker lk)) = (Some ?i, b1)"
    and b1': "b1 = b\<lparr>br_client_counters := (br_client_counters b)(client \<mapsto> 1),
      br_nodes := br_nodes b @ [\<lparr>ni_name = nd_name n, ni_address = client\<rparr>]\<rparr>"
    using nodes lk n(4) by (auto simp: other_nodes_def broker_operations)
  obtain b2 where b2: "register_message_type ''T'' sz (counted client 2 b1) = (Some 0, b2)"
    and b2': "b2 = b1\<lparr>br_client_counters := (br_client_counters b)(client \<mapsto> 2), br_message_types := [\<lparr>mti_name = ''T'', mti_size = sz\<rparr>]\<rparr>"
    using topics b1' by (auto simp: one_topic_def no_topic_def broker_operations)
  obtain b3 where b3: "register_topic ''t'' 0 5 (counted client 3 b2) = Inr (Some (0, 5), b3)"
    and b3': "b3 = b2\<lparr>br_client_counters := (br_client_counters b)(client \<mapsto> 3),
      br_topics := [\<lparr>t_name = ''t'', t_message_type_id = 0, t_priority = 5, t_publishers = ps, t_subscribers = ss\<rparr>]\<rparr>"
    using topics b1' b2' by (auto simp: one_topic_def no_topic_def broker_operations)
  define b4 where "b4 = b3\<lparr>br_client_counters := (br_client_counters b)(client \<mapsto> 4),
      br_topics := [\<lparr>t_name = ''t'', t_message_type_id = 0, t_priority = 5, t_publishers = ps @ [?i], t_subscribers = ss\<rparr>]\<rparr>"
  have b4: "add_publisher ?i 0 0 (counted client 4 b3) = Inr (True, b4)"
    using nodes by (auto simp: other_nodes_def broker_operations b4_def b3' b2' b1')
  have p: "pu_message_type_name ?p = ''T''" "pu_message_size ?p = sz" "pu_topic_name ?p = ''t''" "pu_topic_priority ?p = 5"
    by (simp_all add: publisher_new_def)
  from one_publisher_connects [OF link n(1-3) short b1, of 0 b2 0 5 b3 b4 dbg] b2 b3 b4 n(4) p obtain n' lk' p' where
    "node_connect (broker_link server client dbg) n lk = Inr (True, n', lk')" "lk_broker lk' = b4"
    "nd_publishers n' = [p']" "pu_topic_name p' = ''t''"
    "nd_topics_by_prio n = [] \<longrightarrow> nd_topics_by_prio n' = [(5, \<lparr>ti_publishers = [0], ti_subscribers = []\<rparr>)]" by auto
  moreover have "br_nodes b4 = br_nodes b @ [\<lparr>ni_name = nd_name n, ni_address = client\<rparr>]" "one_topic sz (ps @ [?i]) ss b4"
    "br_client_counters b4 = (br_client_counters b)(client \<mapsto> 4)"
    by (simp_all add: b4_def b3' b2' b1' one_topic_def)
  ultimately show ?thesis by auto
qed

lemma fresh_node_facts:
  "nd_publishers fresh_node = []" "nd_subscribers fresh_node = [subscriber_new ''t'' ''T'' 2 silent_callback 5]"
  "short (nd_name fresh_node)" "nd_bp_counter fresh_node = 0" "nd_name fresh_node = ''n''"
  by (simp_all add: fresh_node_def create_subscriber_def node_new_def short_def)

lemmas fresh_node_joins = subscriber_joins [OF fresh_node_facts(1-4)]

lemma fresh_connects:
  "\<exists>n' lk'. node_connect (broker_link (nd_broker_address fresh_node) ''h:1'' dbg) fresh_node fresh_link = Inr (True, n', lk')"
  using fresh_node_joins [OF _ _ fresh_ok(1) refl, of "[]" "[]" dbg]
  by (fastforce simp: fresh_link_def broker_new_def other_nodes_def no_topic_def)

text \<open>The registration of another node, \<open>x\<close>, which the broker handles first.\<close>

lemma sample_served:
  assumes inv: "broker_inv b" "length buf = udp_buffer_size"
  shows "\<exists>b' buf' w. broker_spin_once mailbox_network dbg (b, buf, \<lparr>mb_inbox = [(sample_packet, ''h:1'')], mb_sent = []\<rparr>) =
      Inr (True, b', buf', w) \<and>
    (br_client_counters b ''h:1'' = None \<longrightarrow> br_nodes b' = br_nodes (snd (register_node ''h:1'' ''x'' b)) \<and>
      br_message_types b' = br_message_types b \<and> br_topics b' = br_topics b)"
proof (cases "br_client_counters b ''h:1'' \<in> {None, Some (5 - 1)}")
  case True
  have packet: "bp_control_json_to_packet_buffer sample_request 5 = Inr sample_packet"
    by (simp add: bp_control_json_to_packet_buffer_def sample_dump sample_packet_def)
  have ok: "json_ok sample_request" by (simp add: sample_request_def obj_sorted_def)
  have norm: "json_norm sample_request = sample_request" by (simp add: sample_request_def)
  obtain r b' where r: "register_node ''h:1'' ''x'' (counted ''h:1'' 5 b) = (r, b')" by fastforce
  define response where "response = (case r of
      None \<Rightarrow> JObject [(''error_code'', JInt 0), (''error_message'', JString ''Failed to register node''), (''rpc_id'', JInt 1), (''success'', JBool False)]
    | Some i \<Rightarrow> JObject [(''node_id'', json_of_unsigned i), (''rpc_id'', JUInt 1), (''success'', JBool True)])"
  have proc: "process_control_request ''h:1'' (json_norm sample_request) (counted ''h:1'' 5 b) = Inr (response, b')"
    unfolding norm sample_process r by (cases r) (simp_all add: response_def)
  have "json_ok response" "text_bound response + 9 \<le> udp_buffer_size"
    by (cases r; simp add: response_def obj_sorted_def udp_buffer_size_def)+
  from control_packet_exists [OF this, of 5] obtain answer where answer: "bp_control_json_to_packet_buffer response 5 = Inr answer" by blast
  have small: "length sample_packet \<le> udp_buffer_size" by (simp add: sample_packet_length udp_buffer_size_def)
  have "br_nodes b' = br_nodes (snd (register_node ''h:1'' ''x'' b)) \<and> br_message_types b' = br_message_types b \<and> br_topics b' = br_topics b"
  proof -
    have "register_node ''h:1'' ''x'' (counted ''h:1'' 5 b) =
        (fst (register_node ''h:1'' ''x'' b), counted ''h:1'' 5 (snd (register_node ''h:1'' ''x'' b)))"
      unfolding register_node_def counted_simps
      by (cases "find_index (\<lambda>ni. ni_name ni = ''x'') (br_nodes b)"; simp only: option.case Let_def; simp add: counted_def)
    with r have b': "b' = counted ''h:1'' 5 (snd (register_node ''h:1'' ''x'' b))" by simp
    show ?thesis unfolding b' by (simp add: register_node_def Let_def split: option.split)
  qed
  with broker_handles_request [OF inv True ok packet small proc answer, of dbg] show ?thesis by blast
next
  case False
  then have v: "verify_and_update_client_counter ''h:1'' 5 b = (False, b)"
    by (auto simp: verify_and_update_client_counter_def)
  obtain d where d: "decode_packet_buffer (sample_packet @ drop 87 buf) 87 = Inr (bp_control, d)" "bph_counter (dec_header d) = 5"
    using sample_decode by blast
  have t: "take udp_buffer_size sample_packet = sample_packet" by (simp add: udp_buffer_size_def sample_packet_length)
  have w: "write_at 0 sample_packet buf = Inr (sample_packet @ drop 87 buf)"
    using inv(2) by (simp add: write_at_def sample_packet_length udp_buffer_size_def)
  show ?thesis
    using False by (auto simp: broker_spin_once_def mailbox_network_def t w sample_packet_length handle_packet_def d v)
qed

lemma sample_tolerated: "tolerated dbg b (sample_packet, ''h:1'')"
proof (rule call_tolerated [of b "RegisterNode ''x''" 1])
  show "call_request 1 (RegisterNode ''x'') = Inr sample_request"
    by (simp add: request_shapes sample_request_def json_of_unsigned_def)
  show "bp_control_json_to_packet_buffer sample_request 5 = Inr sample_packet"
    by (simp add: bp_control_json_to_packet_buffer_def sample_dump sample_packet_def)
qed (simp add: short_def)

text \<open>Two nodes that agree with a broker, one with a message waiting to be sent.\<close>

definition talker :: "unit node" where
  "talker = enter_publisher 0 0 5 ((node_new ''n'' ''s'' UDP 1)\<lparr>nd_publishers := [waiting_publisher]\<rparr>)"

definition listener :: "unit node" where
  "listener = enter_subscriber 0 0 5 ((node_new ''m'' ''s'' UDP 1)\<lparr>nd_node_id := 1,
     nd_subscribers := [subscriber_new ''t'' ''T'' 1 silent_callback 5]\<rparr>)"

definition joined_broker :: broker where
  "joined_broker = (broker_new ''1.2.3.4'' UDP 1000)
     \<lparr>br_nodes := [\<lparr>ni_name = ''n'', ni_address = ''h:1''\<rparr>, \<lparr>ni_name = ''m'', ni_address = ''h:2''\<rparr>],
      br_message_types := [\<lparr>mti_name = ''T'', mti_size = 1\<rparr>],
      br_topics := [\<lparr>t_name = ''t'', t_message_type_id = 0, t_priority = 5, t_publishers = [0], t_subscribers = [1]\<rparr>]\<rparr>"

lemma joined_agrees: "node_agrees joined_broker ''h:1'' talker" "node_agrees joined_broker ''h:2'' listener"
  by (auto simp: node_agrees_def publishers_done_def subscribers_done_def publisher_known_def subscriber_known_def
      endpoint_known_def joined_broker_def talker_def listener_def broker_new_def node_new_def waiting_publisher_def
      publisher_new_def subscriber_new_def enter_publisher_def enter_subscriber_def subscribers_on_def publishers_at_def
      callbacks_at_def topic_get_def prio_get_def topic_info_empty_def Let_def)

lemma talker_listener_inv: "node_inv talker" "node_inv listener"
proof -
  have "node_inv ((node_new ''n'' ''s'' UDP 1)\<lparr>nd_publishers := [waiting_publisher]\<rparr> :: unit node)"
    using waiting_publisher_ok by (simp add: node_inv_def node_new_def prio_sorted_def)
  then show "node_inv talker" unfolding talker_def by (rule enter_publisher_inv) simp
  have "node_subscriber_ok (subscriber_new ''t'' ''T'' 1 silent_callback 5 :: unit subscriber)"
    using subscriber_new_inv(1) [of "''t''" "''T''" 1 silent_callback 5]
    by (simp add: node_subscriber_ok_def subscriber_new_def udp_buffer_size_def)
  then have "node_inv ((node_new ''m'' ''s'' UDP 1)\<lparr>nd_node_id := 1,
     nd_subscribers := [subscriber_new ''t'' ''T'' 1 silent_callback 5]\<rparr> :: unit node)"
    by (simp add: node_inv_def node_new_def prio_sorted_def)
  then show "node_inv listener" unfolding listener_def by (rule enter_subscriber_inv) simp
qed

lemma talker_linked:
  "link_ok (nd_broker_address talker) ''h:1'' talker (fresh_link\<lparr>lk_broker := joined_broker\<rparr>)"
  by (simp add: link_ok_def fresh_link_def joined_broker_def broker_inv_def topic_ok_def broker_new_def
      dontcare_topic_priority_def)
     (simp add: talker_def node_new_def enter_publisher_def Let_def)

section \<open>Properties\<close>

text \<open>
  C3: connecting makes node and broker agree. A node as its constructor and the \<^verbatim>\<open>create\<close> functions
  leave it, whose packets reach a running broker in order and whose answers come back, connects
  without a fault; the broker keeps everything it knew. When \<^verbatim>\<open>connect()\<close> returns \<open>true\<close>, the broker has
  the node under its address; for every publisher and subscriber, the stored IDs name a topic and a
  message type with the names and the size asked for, the broker lists the node under the topic, and
  the node finds each one in its own tables, each subscriber once.
\<close>

theorem connect_agrees:
  assumes "link_ok server client n lk" and "connectable n"
    and "room (Suc (2 * length (nd_publishers n) + 2 * length (nd_subscribers n))) (lk_broker lk)"
  shows "\<exists>ok n' lk'. node_connect (broker_link server client dbg) n lk = Inr (ok, n', lk') \<and>
    link_ok server client n' lk' \<and> broker_evolves (lk_broker lk) (lk_broker lk') \<and>
    (ok \<longrightarrow> node_agrees (lk_broker lk') client n')"
  using node_connect_linked [OF assms, of dbg] by (auto simp: link_step_def)

theorem connect_agrees_witness:
  "\<exists>n' lk'. node_connect (broker_link (nd_broker_address fresh_node) ''h:1'' True) fresh_node fresh_link = Inr (True, n', lk') \<and>
    node_agrees (lk_broker lk') ''h:1'' n'"
  using connect_agrees [OF fresh_ok, of True] fresh_connects [of True] by auto

text \<open>
  C10: connecting makes node and broker agree, whatever others do meanwhile. Between any two calls of
  \<^verbatim>\<open>connect()\<close> the broker handles further packets of other clients: registrations, messages, refused packets, in
  any number and order, as long as each is one its loop survives. Then \<^verbatim>\<open>connect()\<close> still returns; the broker's invariant
  holds and it keeps everything it knew. A data packet that the broker forwards to this node ahead of an answer makes
  the call and \<^verbatim>\<open>connect()\<close> fail; when \<^verbatim>\<open>connect()\<close> returns \<open>true\<close>, node and broker agree on every ID, as in a
  quiet system.
\<close>

theorem connect_among_others:
  assumes "link_ok server client n lk" and "connectable n" and "pending_ok client dbg (lk_broker lk) pending"
    and "room (length (concat pending) + Suc (2 * length (nd_publishers n) + 2 * length (nd_subscribers n))) (lk_broker lk)"
  shows "\<exists>ok n' ex. node_connect (busy_link server client dbg) n \<lparr>ex_link = lk, ex_pending = pending\<rparr> = Inr (ok, n', ex) \<and>
    broker_inv (lk_broker (ex_link ex)) \<and> broker_evolves (lk_broker lk) (lk_broker (ex_link ex)) \<and>
    (ok \<longrightarrow> node_agrees (lk_broker (ex_link ex)) client n' \<and> link_ok server client n' (ex_link ex))"
proof -
  from connect_served_busy [OF assms] obtain ok n' ex where
    "node_connect (busy_link server client dbg) n \<lparr>ex_link = lk, ex_pending = pending\<rparr> = Inr (ok, n', ex)"
    "exchange_step \<lparr>ex_link = lk, ex_pending = pending\<rparr> ex" "link_live server client n' (ex_link ex)"
    "ok \<longrightarrow> link_ok server client n' (ex_link ex) \<and> node_agrees (lk_broker (ex_link ex)) client n'" by blast
  then show ?thesis
    by (intro exI [of _ ok] exI [of _ n'] exI [of _ ex]) (simp add: exchange_step_def link_live_def)
qed

theorem connect_among_others_witness:
  "\<exists>n' ex. node_connect (busy_link (nd_broker_address fresh_node) ''h:2'' True) fresh_node
      \<lparr>ex_link = fresh_link, ex_pending = [[(sample_packet, ''h:1'')]]\<rparr> = Inr (True, n', ex) \<and>
    node_agrees (lk_broker (ex_link ex)) ''h:2'' n' \<and> ni_name (br_nodes (lk_broker (ex_link ex)) ! 0) = ''x''"
proof -
  have ok: "link_ok (nd_broker_address fresh_node) ''h:2'' fresh_node fresh_link"
    using fresh_ok(1) by (simp add: link_ok_def fresh_link_def broker_new_def)
  have pending: "pending_ok ''h:2'' True (lk_broker fresh_link) [[(sample_packet, ''h:1'')]]"
    by (simp add: pending_ok_def sample_tolerated)
  have room: "room (length (concat [[(sample_packet, ''h:1'')]]) +
      Suc (2 * length (nd_publishers fresh_node) + 2 * length (nd_subscribers fresh_node))) (lk_broker fresh_link)"
    using fresh_ok(3) by (simp add: room_def fresh_link_def broker_new_def fresh_node_def create_subscriber_def node_new_def)
  have inv: "broker_inv (lk_broker fresh_link)" "length (lk_buffer fresh_link) = udp_buffer_size"
    using ok by (simp_all add: link_ok_def)
  from link_serve_all_others [of "[(sample_packet, ''h:1'')]" "''h:2''" True "lk_broker fresh_link" fresh_link] inv obtain lk where
    lk: "link_serve_all ''h:2'' True [(sample_packet, ''h:1'')] fresh_link = Inr lk"
      "serving ''h:2'' [(sample_packet, ''h:1'')] fresh_link lk" by (auto simp: sample_tolerated)
  have fresh: "br_client_counters (lk_broker fresh_link) = Map.empty" "lk_inbox fresh_link = []" "br_nodes (lk_broker fresh_link) = []"
    "br_message_types (lk_broker fresh_link) = []" "br_topics (lk_broker fresh_link) = []"
    by (simp_all add: fresh_link_def broker_new_def)
  from sample_served [OF inv, of True] obtain b buf w where
    spin: "broker_spin_once mailbox_network True (lk_broker fresh_link, lk_buffer fresh_link,
        \<lparr>mb_inbox = [(sample_packet, ''h:1'')], mb_sent = []\<rparr>) = Inr (True, b, buf, w)"
    and b: "br_nodes b = [\<lparr>ni_name = ''x'', ni_address = ''h:1''\<rparr>]" "br_message_types b = []" "br_topics b = []"
    by (auto simp: fresh register_node_def)
  have "fst sent \<noteq> ''h:2''" if "sent \<in> set (mb_sent w)" for sent
    using spin_once_others_packet(4) [OF spin] that by (auto simp: caused_def sample_packet_def bp_type_defs)
  then have lk': "lk_broker lk = b" "lk_inbox lk = []"
    using lk(1) spin by (auto simp: link_serve_def fresh(2))
  have link: "link_ok (nd_broker_address fresh_node) ''h:2'' fresh_node lk"
    using lk(2) lk'(2) ok by (auto simp: serving_def link_ok_def fresh(1))
  from fresh_node_joins [OF _ _ link refl, of "[]" "[]" True] obtain n' lk2 where
    quiet: "node_connect (broker_link (nd_broker_address fresh_node) ''h:2'' True) fresh_node lk = Inr (True, n', lk2)"
    using b lk'(1) by (auto simp: fresh_node_facts other_nodes_def no_topic_def)
  have run: "node_connect (busy_link (nd_broker_address fresh_node) ''h:2'' True) fresh_node
      \<lparr>ex_link = fresh_link, ex_pending = [[(sample_packet, ''h:1'')]]\<rparr> = Inr (True, n', \<lparr>ex_link = lk2, ex_pending = []\<rparr>)"
    by (rule connect_after_batch [OF refl lk(1) quiet])
  have "broker_evolves b (lk_broker lk2)"
    using node_connect_linked [OF link fresh_ok(2), of True] quiet lk'(1) room
    by (auto simp: link_step_def room_def b)
  then show ?thesis
    using connect_among_others [OF ok fresh_ok(2) pending room] run evolves_entries(1) [of b "lk_broker lk2" 0] b(1)
    by (intro exI [of _ n'] exI [of _ "\<lparr>ex_link = lk2, ex_pending = []\<rparr>"]) auto
qed

text \<open>
  C1: a published message arrives. Take two connected nodes that agree with the broker, one with a
  message waiting at a publisher, the other with a subscriber of the same topic name. Sending takes
  the message from the publisher's queue and makes the broker send one packet to the address of the
  other node; when that packet is what the other node receives next, the message itself, with its
  full length, is appended to the queue of the subscriber if there is room.
\<close>

theorem published_message_arrives:
  assumes link: "link_ok server client n lk" and inv: "node_inv n" and A: "node_agrees (lk_broker lk) client n"
    and i: "i < length (nd_publishers n)" and waiting: "pu_waiting (nd_publishers n ! i) = m # ms"
    and invB: "node_inv nB" and B: "node_agrees (lk_broker lk) clientB nB" and other: "clientB \<noteq> client"
    and j: "j < length (nd_subscribers nB)"
    and topic: "su_topic_name (nd_subscribers nB ! j) = pu_topic_name (nd_publishers n ! i)"
  shows "\<exists>n' lk' sent packet.
    send_messages (broker_link server client dbg) [i] work n lk = Inr (True, True, n', lk') \<and>
    pu_waiting (nd_publishers n' ! i) = ms \<and> lk_others lk' = lk_others lk @ sent \<and> (clientB, packet) \<in> set sent \<and>
    (\<forall>w rest. mb_inbox w = (packet, server) # rest \<longrightarrow>
      (\<exists>nB'. process_incoming_message mailbox_network nB w = Inr (1, nB', w\<lparr>mb_inbox := rest\<rparr>) \<and>
        su_waiting (nd_subscribers nB' ! j) = su_waiting (nd_subscribers nB ! j) @
          (if length (su_waiting (nd_subscribers nB ! j)) < message_queue_capacity then [m] else [])))"
proof -
  let ?p = "nd_publishers n ! i" and ?s = "nd_subscribers nB ! j" and ?b = "lk_broker lk"
  let ?packet = "data_packet (nd_bp_counter n + 1) ?p m"
  have ok: "node_publisher_ok ?p" using node_inv_publisher [OF inv i] .
  have m: "length m = unat (pu_message_size ?p)" using waiting_message_length [OF ok, of m] waiting by simp
  have p: "publisher_known ?b (nd_node_id n) ?p" using A i by (simp add: node_agrees_def publishers_done_def)
  have s: "subscriber_known ?b (nd_node_id nB) ?s" using B j by (simp add: node_agrees_def subscribers_done_def)
  have same: "pu_topic_id ?p = su_topic_id ?s" "pu_message_size ?p = su_message_size ?s"
    using known_endpoints_agree [OF link_ok_inv [OF link] p s] topic by simp_all
  have "17 + unat (su_message_size ?s) \<le> udp_buffer_size"
    using node_inv_subscriber [OF invB j] by (simp add: node_subscriber_ok_def)
  then have small: "17 + length m \<le> udp_buffer_size" using m same(2) by simp
  from link_forwards [OF link p m small, of dbg] obtain lk' where
    lk': "link_send server client dbg server ?packet lk = Inr (True, lk')"
    "lk_others lk' = lk_others lk @ map (\<lambda>a. (a, ?packet))
       (filter (\<lambda>a. a \<noteq> client) (subscriber_addresses ?b (br_topics ?b ! unat (pu_topic_id ?p))))" by blast
  have send: "nw_sendto (broker_link server client dbg) (nd_broker_address n) ?packet lk = Inr (True, lk')"
    using lk'(1) link by (simp add: broker_link_def link_ok_def)
  from send_messages_waiting [OF ok i waiting, of "broker_link server client dbg" "[]" work lk] send obtain q where
    run: "send_messages (broker_link server client dbg) [i] work n lk = Inr (True, True, sent_with i q n, lk')"
    "pu_waiting (?p\<lparr>pu_message_queue := q\<rparr>) = ms" by auto
  have "clientB \<in> set (subscriber_addresses ?b (br_topics ?b ! unat (pu_topic_id ?p)))"
    using subscribed_address [OF B j] same(1) by simp
  then have mem: "(clientB, ?packet) \<in> set (map (\<lambda>a. (a, ?packet))
      (filter (\<lambda>a. a \<noteq> client) (subscriber_addresses ?b (br_topics ?b ! unat (pu_topic_id ?p)))))"
    using other by auto
  have "pu_waiting (nd_publishers (sent_with i q n) ! i) = ms" using run(2) i by (simp add: sent_with_def)
  with run(1) lk'(2) mem subscribed_receives [OF invB B j refl same m] show ?thesis by blast
qed

theorem published_message_arrives_witness:
  "\<exists>n' lk' sent packet.
    send_messages (broker_link (nd_broker_address talker) ''h:1'' True) [0] False talker
      (fresh_link\<lparr>lk_broker := joined_broker\<rparr>) = Inr (True, True, n', lk') \<and>
    pu_waiting (nd_publishers n' ! 0) = [] \<and> lk_others lk' = lk_others (fresh_link\<lparr>lk_broker := joined_broker\<rparr>) @ sent \<and>
    (''h:2'', packet) \<in> set sent \<and>
    (\<forall>w rest. mb_inbox w = (packet, nd_broker_address talker) # rest \<longrightarrow>
      (\<exists>nB'. process_incoming_message mailbox_network listener w = Inr (1, nB', w\<lparr>mb_inbox := rest\<rparr>) \<and>
        su_waiting (nd_subscribers nB' ! 0) = su_waiting (nd_subscribers listener ! 0) @
          (if length (su_waiting (nd_subscribers listener ! 0)) < message_queue_capacity then [[9]] else [])))"
proof (rule published_message_arrives [where clientB = "''h:2''"])
  show "link_ok (nd_broker_address talker) ''h:1'' talker (fresh_link\<lparr>lk_broker := joined_broker\<rparr>)"
    by (rule talker_linked)
  show "pu_waiting (nd_publishers talker ! 0) = [[9]]" using waiting_publisher_ok(2) by (simp add: talker_def)
qed (use joined_agrees talker_listener_inv in \<open>simp_all add: fresh_link_def talker_def listener_def waiting_publisher_def
      publisher_new_def subscriber_new_def\<close>)

text \<open>
  C8: a remote call is a call. Registering a topic from a node, with a name of usual length, returns
  exactly what the broker's own operation returns on the same parameters, the ID, and the actual
  priority when it is asked for, and changes the broker exactly as that operation does, apart from
  the packet counter; all of the serialisation, the packets, the dispatch and the answer in between is
  invisible. The node only changes its counter and its buffer, and the next call can follow.
\<close>

theorem remote_topic_registration:
  assumes "link_ok server client n lk" and "short name"
    and "register_topic name mt prio (counted client (nd_bp_counter n + 1) (lk_broker lk)) = Inr (r, b')"
  shows "\<exists>buf lk'. node_register_topic (broker_link server client dbg) name mt prio want_actual n lk =
      Inr (map_option (\<lambda>(t, actual). (t, if want_actual then actual else prio)) r, after_call (nd_node_id n) buf n, lk') \<and>
    lk_broker lk' = b' \<and> lk_others lk' = lk_others lk \<and> link_ok server client (after_call (nd_node_id n) buf n) lk'"
  using node_register_topic_linked [OF assms] .

theorem remote_topic_registration_witness:
  "\<exists>buf lk'. node_register_topic (broker_link (nd_broker_address talker) ''h:1'' True) ''t'' 0 dontcare_topic_priority True
        talker (fresh_link\<lparr>lk_broker := joined_broker\<rparr>) =
      Inr (map_option (\<lambda>(t, actual). (t, if True then actual else dontcare_topic_priority)) (Some (0, 5)),
           after_call (nd_node_id talker) buf talker, lk') \<and>
    lk_broker lk' = counted ''h:1'' (nd_bp_counter talker + 1) joined_broker \<and>
    lk_others lk' = lk_others (fresh_link\<lparr>lk_broker := joined_broker\<rparr>) \<and>
    link_ok (nd_broker_address talker) ''h:1'' (after_call (nd_node_id talker) buf talker) lk'"
proof (rule remote_topic_registration)
  show "link_ok (nd_broker_address talker) ''h:1'' talker (fresh_link\<lparr>lk_broker := joined_broker\<rparr>)"
    by (rule talker_linked)
  show "short ''t''" by (simp add: short_def)
  show "register_topic ''t'' 0 dontcare_topic_priority
      (counted ''h:1'' (nd_bp_counter talker + 1) (lk_broker (fresh_link\<lparr>lk_broker := joined_broker\<rparr>))) =
    Inr (Some (0, 5), counted ''h:1'' (nd_bp_counter talker + 1) joined_broker)"
    by (simp add: register_topic_def joined_broker_def Let_def)
qed

text \<open>
  C24: a call can get the answer of the call before it. A data packet that waits in the inbox when a node calls
  (its node is already subscribed) is taken for the answer: the broker registers the topic, but the node is told that
  it failed. The answer stays behind, and the next call, for another topic, returns the ID and the priority of
  the first one, whatever the broker answers to it: no answer is compared with the \<^verbatim>\<open>rpc_id\<close> of its request. And
  again an answer stays behind.
\<close>

theorem next_call_gets_old_answer:
  assumes live: "link_live server client n lk" and inbox: "lk_inbox lk = [p]" "take 1 p = [bp_data]"
    and A: "short nameA" "register_topic nameA mtA prioA (counted client (nd_bp_counter n + 1) (lk_broker lk)) = Inr (Some (t, q), b1)"
    and B: "short nameB" "register_topic nameB mtB prioB (counted client (nd_bp_counter n + 2) b1) = Inr (r, b2)"
  shows "\<exists>n1 lk1 n2 lk2. node_register_topic (broker_link server client dbg) nameA mtA prioA True n lk = Inr (None, n1, lk1) \<and>
    lk_broker lk1 = b1 \<and>
    node_register_topic (broker_link server client dbg) nameB mtB prioB True n1 lk1 = Inr (Some (t, q), n2, lk2) \<and>
    lk_broker lk2 = b2 \<and> length (lk_inbox lk2) = 1"
proof -
  let ?nw = "broker_link server client dbg"
  from serves_register_topic [OF A, of "nd_bp_counter n"] obtain requestA responseA where
    1: "build_request ''topic'' ''register'' (nd_bp_counter n)
        [(''name'', JString nameA), (''message_type_id'', json_of_unsigned mtA), (''priority'', json_of_signed prioA)] = Inr requestA"
      "rpc_served client (nd_bp_counter n + 1) (lk_broker lk) requestA responseA b1"
      "rpc_success (json_norm responseA) = Inr True"
      "rpc_number (json_norm responseA) ''topic_id'' = Inr t" "rpc_number (json_norm responseA) ''topic_priority'' = Inr q" by auto
  from rpc_preempted [OF live inbox 1(2), of dbg] obtain buf lk1 answer where
    call1: "broker_rpc_blocking ?nw requestA n lk = Inr (JNull, n\<lparr>nd_bp_counter := nd_bp_counter n + 1, nd_buffer := buf\<rparr>, lk1)"
    and lk1: "lk_broker lk1 = b1" "lk_inbox lk1 = [answer]" "left_over responseA answer"
      "link_live server client (n\<lparr>nd_bp_counter := nd_bp_counter n + 1, nd_buffer := buf\<rparr>) lk1" by auto
  let ?n1 = "n\<lparr>nd_bp_counter := nd_bp_counter n + 1, nd_buffer := buf\<rparr>"
  have B': "register_topic nameB mtB prioB (counted client (nd_bp_counter ?n1 + 1) (lk_broker lk1)) = Inr (r, b2)"
    using B(2) lk1(1) by (simp add: add.assoc)
  from serves_register_topic [OF B(1) B', of "nd_bp_counter ?n1"] obtain requestB responseB where
    2: "build_request ''topic'' ''register'' (nd_bp_counter ?n1)
        [(''name'', JString nameB), (''message_type_id'', json_of_unsigned mtB), (''priority'', json_of_signed prioB)] = Inr requestB"
      "rpc_served client (nd_bp_counter ?n1 + 1) (lk_broker lk1) requestB responseB b2" by blast
  from rpc_stale [OF lk1(4,2,3) 2(2), of dbg] obtain n2 lk2 answer2 where
    call2: "broker_rpc_blocking ?nw requestB ?n1 lk1 = Inr (json_norm responseA, n2, lk2)"
    and lk2: "lk_broker lk2 = b2" "lk_inbox lk2 = [answer2]" by auto
  have "node_register_topic ?nw nameA mtA prioA True n lk = Inr (None, ?n1, lk1)"
    using 1(1) call1 by (simp add: node_register_topic_def node_rpc_id_def)
  moreover have "node_register_topic ?nw nameB mtB prioB True ?n1 lk1 = Inr (Some (t, q), n2, lk2)"
    using 2(1) call2 1(3-5) by (simp add: node_register_topic_def node_rpc_id_def)
  ultimately show ?thesis using lk1(1) lk2
    by (intro exI [of _ ?n1] exI [of _ lk1] exI [of _ n2] exI [of _ lk2]) simp
qed

text \<open>The second topic is new and would get ID 1 and priority 7.\<close>

theorem next_call_gets_old_answer_witness:
  "\<exists>n1 lk1 n2 lk2. node_register_topic (broker_link (nd_broker_address talker) ''h:1'' True) ''t'' 0 dontcare_topic_priority True talker
      (fresh_link\<lparr>lk_broker := joined_broker, lk_inbox := [data_packet 1 waiting_publisher [9]]\<rparr>) = Inr (None, n1, lk1) \<and>
    node_register_topic (broker_link (nd_broker_address talker) ''h:1'' True) ''u'' 0 7 True n1 lk1 = Inr (Some (0, 5), n2, lk2) \<and>
    t_name (br_topics (lk_broker lk2) ! 1) = ''u''"
proof -
  have live: "link_live (nd_broker_address talker) ''h:1'' talker (fresh_link\<lparr>lk_broker := joined_broker, lk_inbox := [data_packet 1 waiting_publisher [9]]\<rparr>)"
    using talker_linked by (simp add: link_ok_def link_live_def)
  let ?b = "counted ''h:1'' (nd_bp_counter talker + 1) joined_broker"
  have A: "register_topic ''t'' 0 dontcare_topic_priority ?b = Inr (Some (0, 5), ?b)"
    by (simp add: register_topic_def joined_broker_def Let_def)
  obtain b2 where B: "register_topic ''u'' 0 7 (counted ''h:1'' (nd_bp_counter talker + 2) ?b) = Inr (Some (1, 7), b2)"
    "t_name (br_topics b2 ! 1) = ''u''"
    by (simp add: register_topic_def joined_broker_def dontcare_topic_priority_def Let_def)
  have names: "short ''t''" "short ''u''" by (simp_all add: short_def)
  from next_call_gets_old_answer [OF live _ _ names(1) _ names(2) B(1), of "data_packet 1 waiting_publisher [9]" 0 dontcare_topic_priority 0 5 True] A B(2)
  show ?thesis by (fastforce simp: data_packet_def)
qed

text \<open>
  C11: topics are typed. Two nodes connect to a broker one after the other, and both are told \<^verbatim>\<open>true\<close>.
  Then both still agree with the broker, and a publisher of the first and a subscriber of the second
  that ask for the same topic name use the same topic ID, the same message type, ID and name, and the same
  message size, so what one sends has the length the other expects; the subscriber runs at the
  priority the topic has at the broker.
\<close>

theorem topic_endpoints_typed:
  assumes "link_ok server client n lk" and "connectable n"
    and "room (Suc (2 * length (nd_publishers n) + 2 * length (nd_subscribers n))) (lk_broker lk)"
    and "node_connect (broker_link server client dbg) n lk = Inr (True, n', lk')"
    and "link_ok serverB clientB nB lkB" and "connectable nB" and "lk_broker lkB = lk_broker lk'"
    and "room (Suc (2 * length (nd_publishers nB) + 2 * length (nd_subscribers nB))) (lk_broker lkB)"
    and "node_connect (broker_link serverB clientB dbg) nB lkB = Inr (True, nB', lkB')"
    and i: "i < length (nd_publishers n')" and j: "j < length (nd_subscribers nB')"
    and topic: "pu_topic_name (nd_publishers n' ! i) = su_topic_name (nd_subscribers nB' ! j)"
  shows "node_agrees (lk_broker lkB') client n' \<and> node_agrees (lk_broker lkB') clientB nB' \<and>
    pu_topic_id (nd_publishers n' ! i) = su_topic_id (nd_subscribers nB' ! j) \<and>
    pu_message_type_id (nd_publishers n' ! i) = su_message_type_id (nd_subscribers nB' ! j) \<and>
    pu_message_type_name (nd_publishers n' ! i) = su_message_type_name (nd_subscribers nB' ! j) \<and>
    pu_message_size (nd_publishers n' ! i) = su_message_size (nd_subscribers nB' ! j) \<and>
    su_topic_priority (nd_subscribers nB' ! j) =
      t_priority (br_topics (lk_broker lkB') ! unat (pu_topic_id (nd_publishers n' ! i)))"
proof -
  have A: "node_agrees (lk_broker lk') client n'"
    using node_connect_linked [OF assms(1-3), of dbg] assms(4) by auto
  have B: "node_agrees (lk_broker lkB') clientB nB'" "link_ok serverB clientB nB' lkB'"
    "broker_evolves (lk_broker lkB) (lk_broker lkB')"
    using node_connect_linked [OF assms(5,6,8), of dbg] assms(9) by (auto simp: link_step_def)
  have A': "node_agrees (lk_broker lkB') client n'"
    using node_agrees_evolves [OF A] B(3) assms(7) by simp
  have p: "publisher_known (lk_broker lkB') (nd_node_id n') (nd_publishers n' ! i)"
    using A' i by (simp add: node_agrees_def publishers_done_def)
  have s: "subscriber_known (lk_broker lkB') (nd_node_id nB') (nd_subscribers nB' ! j)"
    using B(1) j by (simp add: node_agrees_def subscribers_done_def)
  show ?thesis
    using known_endpoints_agree [OF link_ok_inv [OF B(2)] p s topic] A' B(1) by simp
qed

theorem topic_endpoints_typed_witness:
  "\<exists>n' lk' nB' lkB'.
    node_connect (broker_link (nd_broker_address fresh_talker) ''h:1'' True) fresh_talker fresh_link = Inr (True, n', lk') \<and>
    node_connect (broker_link (nd_broker_address fresh_node) ''h:2'' True) fresh_node (fresh_link\<lparr>lk_broker := met_broker\<rparr>) =
      Inr (True, nB', lkB') \<and>
    node_agrees (lk_broker lkB') ''h:1'' n' \<and> node_agrees (lk_broker lkB') ''h:2'' nB' \<and>
    pu_topic_id (nd_publishers n' ! 0) = su_topic_id (nd_subscribers nB' ! 0)"
proof -
  obtain n' lk' p where 1: "node_connect (broker_link (nd_broker_address fresh_talker) ''h:1'' True) fresh_talker fresh_link =
      Inr (True, n', lk')" "lk_broker lk' = met_broker" "nd_publishers n' = [p]" "pu_topic_name p = ''t''"
    using fresh_talker_connects by blast
  obtain nB' lkB' s where 2: "node_connect (broker_link (nd_broker_address fresh_node) ''h:2'' True) fresh_node
      (fresh_link\<lparr>lk_broker := met_broker\<rparr>) = Inr (True, nB', lkB')" "nd_subscribers nB' = [s]" "su_topic_name s = ''t''"
    using fresh_node_joins [of met_broker "[0]" "[]", OF _ _ met_ok(1), of True]
    by (auto simp: met_broker_def fresh_node_facts other_nodes_def one_topic_def)
  show ?thesis
    using topic_endpoints_typed [OF fresh_talker_ok 1(1) met_ok(1) fresh_ok(2), of nB' lkB' 0 0] 1 2 met_ok(2) by auto
qed


text \<open>
  A publisher that does not care about the priority, on the topic \<open>t\<close>, which the broker has with priority 5: it is filed under
  -101.
\<close>

definition indifferent :: "unit node" where
  "indifferent = create_publisher (\<lambda>_ q. q) ''t'' ''T'' 2 dontcare_topic_priority (node_new ''q'' ''s'' UDP 1)"

lemma indifferent_connects:
  "\<exists>n' lk'. node_connect (broker_link (nd_broker_address indifferent) ''h:2'' dbg) indifferent (fresh_link\<lparr>lk_broker := met_broker\<rparr>) =
      Inr (True, n', lk') \<and> nd_topics_by_prio n' = [(dontcare_topic_priority, \<lparr>ti_publishers = [0], ti_subscribers = []\<rparr>)] \<and>
      t_priority (br_topics (lk_broker lk') ! 0) = 5"
proof -
  let ?p = "publisher_new ''t'' ''T'' 2 dontcare_topic_priority 17" and ?lk = "fresh_link\<lparr>lk_broker := met_broker\<rparr>"
  have n: "nd_publishers indifferent = [?p]" "nd_subscribers indifferent = []" "short (nd_name indifferent)" "publisher_short ?p"
    "nd_name indifferent = ''q''" "nd_bp_counter indifferent = 0" "nd_topics_by_prio indifferent = []"
    by (simp_all add: bp_header_size_def bp_data_header_size_def indifferent_def create_publisher_def node_new_def
        publisher_short_def publisher_new_def short_def)
  have link: "link_ok (nd_broker_address indifferent) ''h:2'' indifferent ?lk"
    using met_ok(1) by (simp add: link_ok_def indifferent_def fresh_node_def create_publisher_def create_subscriber_def node_new_def)
  have b1: "register_node ''h:2'' (nd_name indifferent) (counted ''h:2'' (nd_bp_counter indifferent + 1) (lk_broker ?lk)) =
      (Some 1, met_broker\<lparr>br_client_counters := [''h:1'' \<mapsto> 4, ''h:2'' \<mapsto> 1],
         br_nodes := [\<lparr>ni_name = ''p'', ni_address = ''h:1''\<rparr>, \<lparr>ni_name = ''q'', ni_address = ''h:2''\<rparr>]\<rparr>)" (is "_ = (Some 1, ?b1)")
    by (simp add: n(5,6) met_broker_def broker_operations)
  have b2: "register_message_type ''T'' 2 (counted ''h:2'' 2 ?b1) = (Some 0, counted ''h:2'' 2 ?b1)"
    by (simp add: met_broker_def broker_operations)
  have b3: "register_topic ''t'' 0 dontcare_topic_priority (counted ''h:2'' 3 (counted ''h:2'' 2 ?b1)) =
      Inr (Some (0, 5), counted ''h:2'' 3 (counted ''h:2'' 2 ?b1))"
    by (simp add: met_broker_def broker_operations)
  obtain b4 where b4: "add_publisher 1 0 0 (counted ''h:2'' 4 (counted ''h:2'' 3 (counted ''h:2'' 2 ?b1))) = Inr (True, b4)"
    and prio: "t_priority (br_topics b4 ! 0) = 5"
    by (simp add: met_broker_def broker_operations)
  have p: "pu_message_type_name ?p = ''T''" "pu_message_size ?p = 2" "pu_topic_name ?p = ''t''"
    "pu_topic_priority ?p = dontcare_topic_priority" by (simp_all add: publisher_new_def)
  from one_publisher_connects [OF link n(1-4) b1, of 0 _ 0 5 _ b4 dbg] b2 b3 b4 prio p n(6,7) show ?thesis by fastforce
qed


end
