(* ===== verification/Lossy_Link.thy ===== *)
theory Lossy_Link
  imports Busy_Link
begin

text \<open>
  \<^verbatim>\<open>Node::connect()\<close> over a link that loses packets: beside what the busy link does, a request may be lost on its
  way to the broker or arrive twice, and the answer to a request may be lost. The link provides the contract of
  \<open>Registration\<close> too: \<^verbatim>\<open>connect()\<close> reports success only when the node and the broker agree.

  A call whose request or answer is lost fails here at once, with the inbox empty. The real \<^verbatim>\<open>recvfrom\<close> would
  wait, for ever or until a data packet arrives, which makes the call fail then: either way the node is not
  connected, and the broker has done what it was asked for so far.

  What the link does not do is to deliver an answer twice. The node does not compare the ID of an answer with
  the one of its request, so that a second copy would be taken for the answer to the next call
  (\<open>System.next_call_gets_old_answer\<close>) and \<^verbatim>\<open>connect()\<close> could report a success that never was.
\<close>

section \<open>The link\<close>

text \<open>What becomes of a request of the node; a request beyond the end of the list is delivered.\<close>

datatype fate = Delivered | Request_Twice | Request_Lost | Answer_Lost

record lossy =
  ly_exchange :: exchange
  ly_fates :: "fate list"

definition next_fate :: "fate list \<Rightarrow> fate" where
  "next_fate fates = (case fates of [] \<Rightarrow> Delivered | f # _ \<Rightarrow> f)"

fun fated_send :: "string \<Rightarrow> bool \<Rightarrow> fate \<Rightarrow> byte list \<Rightarrow> link \<Rightarrow> link res" where
  "fated_send client dbg Delivered packet lk = link_serve client dbg (packet, client) lk"
| "fated_send client dbg Request_Twice packet lk =
     rbind (link_serve client dbg (packet, client) lk) (link_serve client dbg (packet, client))"
| "fated_send client dbg Request_Lost packet lk = Inr lk"
| "fated_send client dbg Answer_Lost packet lk =
     rbind (link_serve client dbg (packet, client) lk) (\<lambda>lk1. Inr (lk1\<lparr>lk_inbox := lk_inbox lk\<rparr>))"

definition lossy_send :: "string \<Rightarrow> string \<Rightarrow> bool \<Rightarrow> string \<Rightarrow> byte list \<Rightarrow> lossy \<Rightarrow> (bool \<times> lossy) res" where
  "lossy_send server client dbg a packet ly =
     (if a \<noteq> server then Inr (True, ly)
      else rbind (exchange_serve client dbg (ly_exchange ly)) (\<lambda>ex.
           rbind (fated_send client dbg (next_fate (ly_fates ly)) packet (ex_link ex)) (\<lambda>lk.
             Inr (True, \<lparr>ly_exchange = ex\<lparr>ex_link := lk\<rparr>, ly_fates = tl (ly_fates ly)\<rparr>))))"

definition lossy_link :: "string \<Rightarrow> string \<Rightarrow> bool \<Rightarrow> lossy network" where
  "lossy_link server client dbg =
     \<lparr>nw_socket = (\<lambda>p ly. Inr (True, ly)), nw_bind = (\<lambda>a ly. Inr (True, ly)),
      nw_listen = (\<lambda>ly. Inr (True, ly)), nw_accept = (\<lambda>ly. Inr (True, ly)),
      nw_connect = (\<lambda>a ly. Inr (True, ly)), nw_sendto = lossy_send server client dbg,
      nw_recvfrom = (\<lambda>k block ly. rbind (on_link (link_receive server k block) (ly_exchange ly))
        (\<lambda>(r, ex). Inr (r, ly\<lparr>ly_exchange := ex\<rparr>))),
      nw_close = (\<lambda>ly. Inr (False, ly))\<rparr>"

section \<open>A request that arrives a second time\<close>

text \<open>Its counter is the one the broker has just accepted, so that it is read and ignored.\<close>

lemma broker_ignores_duplicate:
  assumes buf: "length buf = udp_buffer_size" and c: "br_client_counters b client = Some c"
    and req: "json_ok request" "bp_control_json_to_packet_buffer request c = Inr packet" "length packet \<le> udp_buffer_size"
  shows "broker_spin_once mailbox_network dbg (b, buf, \<lparr>mb_inbox = [(packet, client)], mb_sent = []\<rparr>) =
    Inr (True, b, packet @ drop (length packet) buf, \<lparr>mb_inbox = [], mb_sent = []\<rparr>)"
proof -
  have small: "length packet < 2 ^ 32" using req(3) by (simp add: udp_buffer_size_def)
  have handle: "handle_packet mailbox_network dbg client (packet @ drop (length packet) buf) (length packet) b w = Inr (True, b, w)" for w
    using c by (simp add: handle_packet_def decode_control_packet [OF req(1,2) small] verify_and_update_client_counter_def)
  have recv: "nw_recvfrom mailbox_network udp_buffer_size True \<lparr>mb_inbox = [(packet, client)], mb_sent = []\<rparr> =
      Inr (Received packet client, \<lparr>mb_inbox = [], mb_sent = []\<rparr>)"
    using req(3) by (simp add: mailbox_network_def)
  show ?thesis
    using handle write_packet [of packet buf] req(3) buf by (simp add: broker_spin_once_def recv)
qed

text \<open>What each fate makes of a request that the broker can serve.\<close>

lemma fated_send_served:
  assumes live: "link_live server client n lk"
    and served: "rpc_served client (nd_bp_counter n + 1) (lk_broker lk) request response b'"
  shows "\<exists>packet lk1 lk2. bp_control_json_to_packet_buffer request (nd_bp_counter n + 1) = Inr packet \<and>
    link_send server client dbg server packet lk = Inr (True, lk1) \<and>
    fated_send client dbg fate packet lk = Inr lk2 \<and>
    broker_inv (lk_broker lk2) \<and> length (lk_buffer lk2) = udp_buffer_size \<and> link_step lk lk2 \<and>
    (fate \<in> {Delivered, Request_Twice} \<and> lk2 = lk1\<lparr>lk_buffer := lk_buffer lk2\<rparr> \<or>
     fate \<in> {Request_Lost, Answer_Lost} \<and> lk_inbox lk2 = lk_inbox lk)"
proof -
  let ?c = "nd_bp_counter n + 1"
  from rpc_request_sent [OF live served, of dbg] obtain packet answer buf where
    packet: "bp_control_json_to_packet_buffer request ?c = Inr packet"
    and send: "link_send server client dbg server packet lk =
      Inr (True, \<lparr>lk_broker = b', lk_buffer = buf, lk_inbox = lk_inbox lk @ [answer], lk_others = lk_others lk\<rparr>)"
    and after: "length buf = udp_buffer_size" "broker_inv b'" "br_client_counters b' client = Some ?c" by blast
  let ?lk1 = "\<lparr>lk_broker = b', lk_buffer = buf, lk_inbox = lk_inbox lk @ [answer], lk_others = lk_others lk\<rparr>"
  have once: "link_serve client dbg (packet, client) lk = Inr ?lk1"
    using send by (auto simp: link_send_def elim!: rbind_InrE)
  have req: "json_ok request" "text_bound request + 9 \<le> udp_buffer_size"
    and proc: "process_control_request client (json_norm request) (counted client ?c (lk_broker lk)) = Inr (response, b')"
    using served by (simp_all add: rpc_served_def)
  have small: "length packet \<le> udp_buffer_size" using control_packet_exists [OF req, of ?c] packet by auto
  have twice: "link_serve client dbg (packet, client) ?lk1 = Inr (?lk1\<lparr>lk_buffer := packet @ drop (length packet) buf\<rparr>)"
    using broker_ignores_duplicate [OF after(1,3) req(1) packet small, of dbg] by (simp add: link_serve_def)
  have evolves: "broker_evolves (lk_broker lk) b'" by (rule evolves_counted [OF process_control_request_step_ok [OF proc]])
  have lk: "broker_inv (lk_broker lk)" "length (lk_buffer lk) = udp_buffer_size" using live by (simp_all add: link_live_def)
  show ?thesis
    using packet send once twice small after(1,2) lk evolves
    by (cases fate) (simp_all add: link_step_def)
qed

section \<open>A call over the link\<close>

definition rpc_result :: "receive_outcome \<Rightarrow> json" where
  "rpc_result outcome =
     (case outcome of ReceivedPacket len ty d \<Rightarrow> if len = 0 \<or> ty \<noteq> bp_control then JNull else dec_json d | _ \<Rightarrow> JNull)"

lemma rpc_quiet:
  assumes "nd_broker_address n = server" and "bp_control_json_to_packet_buffer request (nd_bp_counter n + 1) = Inr packet"
    and "link_send server client dbg server packet lk = Inr (True, lk1)"
  shows "broker_rpc_blocking (broker_link server client dbg) request n lk =
    rbind (receive_message (broker_link server client dbg) True (n\<lparr>nd_bp_counter := nd_bp_counter n + 1\<rparr>) lk1)
      (\<lambda>(outcome, n2, lk2). Inr (rpc_result outcome, n2, lk2))"
proof -
  have "nw_sendto (broker_link server client dbg) = link_send server client dbg" by (simp add: broker_link_def)
  with assms show ?thesis
    by (auto simp: broker_rpc_blocking_def send_control_def next_bp_counter_def Let_def rpc_result_def
        intro!: rbind_cong split: receive_outcome.split)
qed

lemma receive_lossy:
  "receive_message (lossy_link server client dbg) True n \<lparr>ly_exchange = \<lparr>ex_link = lk, ex_pending = rest\<rparr>, ly_fates = fates\<rparr> =
   rbind (receive_message (broker_link server client dbg) True n lk)
     (\<lambda>(outcome, n2, lk2). Inr (outcome, n2, \<lparr>ly_exchange = \<lparr>ex_link = lk2, ex_pending = rest\<rparr>, ly_fates = fates\<rparr>))"
  by (auto simp: receive_message_def lossy_link_def broker_link_def on_link_def link_receive_def Let_def rbind_assoc
      intro!: rbind_cong split: list.splits)

lemma rpc_lossy:
  assumes "nd_broker_address n = server" and "bp_control_json_to_packet_buffer request (nd_bp_counter n + 1) = Inr packet"
    and "exchange_serve client dbg (ly_exchange ly) = Inr \<lparr>ex_link = lk, ex_pending = rest\<rparr>"
    and "fated_send client dbg (next_fate (ly_fates ly)) packet lk = Inr lk1"
  shows "broker_rpc_blocking (lossy_link server client dbg) request n ly =
    rbind (receive_message (broker_link server client dbg) True (n\<lparr>nd_bp_counter := nd_bp_counter n + 1\<rparr>) lk1)
      (\<lambda>(outcome, n2, lk2). Inr (rpc_result outcome, n2,
         \<lparr>ly_exchange = \<lparr>ex_link = lk2, ex_pending = rest\<rparr>, ly_fates = tl (ly_fates ly)\<rparr>))"
proof -
  have "nw_sendto (lossy_link server client dbg) = lossy_send server client dbg" by (simp add: lossy_link_def)
  with assms show ?thesis
    by (auto simp: broker_rpc_blocking_def send_control_def next_bp_counter_def Let_def lossy_send_def receive_lossy rbind_assoc
        rpc_result_def intro!: rbind_cong split: receive_outcome.split)
qed

text \<open>The node reads neither the broker nor its buffer.\<close>

lemma receive_other_buffer:
  "receive_message (broker_link server client dbg) True n (lk\<lparr>lk_buffer := buf\<rparr>) =
   rbind (receive_message (broker_link server client dbg) True n lk) (\<lambda>(outcome, n2, lk2). Inr (outcome, n2, lk2\<lparr>lk_buffer := buf\<rparr>))"
  by (auto simp: receive_message_def broker_link_def link_receive_def Let_def rbind_assoc intro!: rbind_cong split: list.splits)

text \<open>Without an answer in the inbox the call has no result.\<close>

lemma receive_no_answer:
  assumes "length (nd_buffer n) = udp_buffer_size" and "lk_inbox lk = [] \<or> (\<exists>p ps. lk_inbox lk = p # ps \<and> take 1 p = [bp_data])"
  shows "\<exists>outcome buf inbox. receive_message (broker_link server client dbg) True n lk =
      Inr (outcome, n\<lparr>nd_buffer := buf\<rparr>, lk\<lparr>lk_inbox := inbox\<rparr>) \<and> rpc_result outcome = JNull \<and> length buf = udp_buffer_size"
  using assms(2)
proof
  assume "lk_inbox lk = []"
  then have "receive_message (broker_link server client dbg) True n lk =
      Inr (ReceiveError, n\<lparr>nd_buffer := nd_buffer n\<rparr>, lk\<lparr>lk_inbox := []\<rparr>)"
    by (simp add: receive_message_def broker_link_def link_receive_def write_at_def Let_def)
  with assms(1) show ?thesis
    by (intro exI [of _ ReceiveError] exI [of _ "nd_buffer n"] exI [of _ "[]"]) (simp add: rpc_result_def)
next
  assume "\<exists>p ps. lk_inbox lk = p # ps \<and> take 1 p = [bp_data]"
  then obtain p ps where "take 1 p = [bp_data]" "lk_inbox lk = p # ps" by blast
  from receive_data_first [OF this(1) assms(1) this(2), of server client dbg] obtain outcome buf where
    "receive_message (broker_link server client dbg) True n lk = Inr (outcome, n\<lparr>nd_buffer := buf\<rparr>, lk\<lparr>lk_inbox := ps\<rparr>)"
    "length buf = udp_buffer_size" "\<forall>len ty d. outcome = ReceivedPacket len ty d \<longrightarrow> ty \<noteq> bp_control" by blast
  then show ?thesis
    by (intro exI [of _ outcome] exI [of _ buf] exI [of _ ps]) (auto simp: rpc_result_def split: receive_outcome.split)
qed

text \<open>Two states of the exchange that differ in the broker's receive buffer at most.\<close>

definition same_exchange :: "exchange \<Rightarrow> exchange \<Rightarrow> bool" where
  "same_exchange ex ex' \<longleftrightarrow>
     (\<exists>buf. ex' = ex\<lparr>ex_link := (ex_link ex)\<lparr>lk_buffer := buf\<rparr>\<rparr> \<and> length buf = udp_buffer_size)"

definition lossy_after :: "string \<Rightarrow> 'u node \<Rightarrow> lossy \<Rightarrow> bool" where
  "lossy_after server n ly \<longleftrightarrow>
     broker_inv (lk_broker (ex_link (ly_exchange ly))) \<and> length (lk_buffer (ex_link (ly_exchange ly))) = udp_buffer_size \<and>
     nd_broker_address n = server \<and> length (nd_buffer n) = udp_buffer_size"

text \<open>Either the result is the one of the busy link, or it is empty.\<close>

lemma lossy_rpc:
  assumes ready: "exchange_ready server client dbg n (ly_exchange ly)"
    and served: "\<And>lk. link_live server client n lk \<Longrightarrow> broker_evolves (lk_broker (ex_link (ly_exchange ly))) (lk_broker lk) \<Longrightarrow>
      \<exists>response b'. rpc_served client (nd_bp_counter n + 1) (lk_broker lk) request response b'"
  shows "\<exists>result buf ly'. broker_rpc_blocking (lossy_link server client dbg) request n ly =
      Inr (result, after_call (nd_node_id n) buf n, ly') \<and>
    (result = JNull \<and> exchange_step (ly_exchange ly) (ly_exchange ly') \<and> lossy_after server (after_call (nd_node_id n) buf n) ly' \<or>
     (\<exists>ex'. broker_rpc_blocking (busy_link server client dbg) request n (ly_exchange ly) =
        Inr (result, after_call (nd_node_id n) buf n, ex') \<and> same_exchange ex' (ly_exchange ly')))"
proof -
  let ?n = "n\<lparr>nd_bp_counter := nd_bp_counter n + 1\<rparr>" and ?fate = "next_fate (ly_fates ly)"
  from exchange_served [OF ready] obtain lk rest where
    serve: "exchange_serve client dbg (ly_exchange ly) = Inr \<lparr>ex_link = lk, ex_pending = rest\<rparr>"
    and step: "exchange_step (ly_exchange ly) \<lparr>ex_link = lk, ex_pending = rest\<rparr>"
    and live: "link_live server client n lk"
    and turn: "lk_inbox lk = [] \<or> (\<exists>p ps. lk_inbox lk = p # ps \<and> take 1 p = [bp_data])"
    by (auto simp: link_ok_live)
  from served [OF live] step obtain response b' where
    s: "rpc_served client (nd_bp_counter n + 1) (lk_broker lk) request response b'" by (auto simp: exchange_step_def)
  from fated_send_served [OF live s, of dbg ?fate] obtain packet lk1 lk2 where
    packet: "bp_control_json_to_packet_buffer request (nd_bp_counter n + 1) = Inr packet"
    and send: "link_send server client dbg server packet lk = Inr (True, lk1)"
    and fated: "fated_send client dbg ?fate packet lk = Inr lk2"
    and ok: "broker_inv (lk_broker lk2)" "length (lk_buffer lk2) = udp_buffer_size" "link_step lk lk2"
    and fate: "lk2 = lk1\<lparr>lk_buffer := lk_buffer lk2\<rparr> \<or> lk_inbox lk2 = lk_inbox lk" by blast
  have n: "nd_broker_address n = server" "length (nd_buffer n) = udp_buffer_size" using live by (simp_all add: link_live_def)
  have call: "n\<lparr>nd_bp_counter := nd_bp_counter n + 1, nd_buffer := buf\<rparr> = after_call (nd_node_id n) buf n" for buf
    by (rule after_call_same(1))
  note lossy = rpc_lossy [OF n(1) packet serve fated]
  from fate show ?thesis
  proof
    assume same: "lk2 = lk1\<lparr>lk_buffer := lk_buffer lk2\<rparr>"
    obtain result buf lk3 where quiet: "broker_rpc_blocking (broker_link server client dbg) request n lk =
        Inr (result, after_call (nd_node_id n) buf n, lk3)"
      using turn rpc_answered' [of server client n lk, OF _ s, of dbg] rpc_preempted' [OF live _ _ s, of _ _ dbg] live
      by (fastforce simp: link_ok_live)
    from quiet obtain outcome where r: "receive_message (broker_link server client dbg) True ?n lk1 =
        Inr (outcome, after_call (nd_node_id n) buf n, lk3)" "rpc_result outcome = result"
      unfolding rpc_quiet [OF n(1) packet send] by (auto elim!: rbind_InrE)
    have "receive_message (broker_link server client dbg) True ?n lk2 =
        Inr (outcome, after_call (nd_node_id n) buf n, lk3\<lparr>lk_buffer := lk_buffer lk2\<rparr>)"
      by (subst same) (simp add: receive_other_buffer r)
    with r(2) busy_rpc [OF n(1) serve quiet] ok(2) show ?thesis
      unfolding lossy same_exchange_def by fastforce
  next
    assume "lk_inbox lk2 = lk_inbox lk"
    with turn receive_no_answer [of ?n lk2 server client dbg] n(2) obtain outcome buf inbox where
      r: "receive_message (broker_link server client dbg) True ?n lk2 =
        Inr (outcome, after_call (nd_node_id n) buf n, lk2\<lparr>lk_inbox := inbox\<rparr>)" "rpc_result outcome = JNull"
        "length buf = udp_buffer_size"
      by (auto simp: after_call_def)
    have "link_step lk (lk2\<lparr>lk_inbox := inbox\<rparr>)" using ok(3) by (simp add: link_step_def)
    from exchange_done(1) [OF step this] r ok(1,2) n(1) show ?thesis
      unfolding lossy lossy_after_def
      by (intro exI [of _ JNull] exI [of _ buf] exI [of _ "\<lparr>ly_exchange = \<lparr>ex_link = lk2\<lparr>lk_inbox := inbox\<rparr>, ex_pending = rest\<rparr>,
          ly_fates = tl (ly_fates ly)\<rparr>"]) (simp add: after_call_def)
  qed
qed

section \<open>The calls\<close>

lemma same_exchange_facts:
  assumes "same_exchange ex ex'"
  shows "lk_broker (ex_link ex') = lk_broker (ex_link ex)" and "exchange_step ex0 ex \<Longrightarrow> exchange_step ex0 ex'"
    and "exchange_space k ex \<Longrightarrow> exchange_space k ex'"
    and "exchange_ready server client dbg n ex \<Longrightarrow> exchange_ready server client dbg n ex'"
    and "exchange_after server client n ex \<Longrightarrow> ex' = ly_exchange ly \<Longrightarrow> lossy_after server n ly"
proof -
  from assms obtain buf where ex': "ex' = ex\<lparr>ex_link := (ex_link ex)\<lparr>lk_buffer := buf\<rparr>\<rparr>" "length buf = udp_buffer_size"
    by (auto simp: same_exchange_def)
  show "lk_broker (ex_link ex') = lk_broker (ex_link ex)" by (simp add: ex')
  show "exchange_step ex0 ex'" if "exchange_step ex0 ex" using that by (simp only: exchange_step_def) (simp add: ex')
  show "exchange_space k ex'" if "exchange_space k ex" using that by (simp add: exchange_space_def ex')
  show "exchange_ready server client dbg n ex'" if "exchange_ready server client dbg n ex"
    using that by (simp add: exchange_ready_def link_ok_def ex')
  show "lossy_after server n ly" if "exchange_after server client n ex" "ex' = ly_exchange ly"
    using that(1) by (simp add: exchange_after_def lossy_after_def link_live_def that(2) [symmetric] ex')
qed

text \<open>The broker serves each request, whenever it comes.\<close>

lemma requests_served:
  assumes "link_live server client n lk"
  shows "short (nd_name n) \<Longrightarrow> build_request ''node'' ''register'' (node_rpc_id n) [(''name'', JString (nd_name n))] = Inr request \<Longrightarrow>
      \<exists>response b'. rpc_served client (nd_bp_counter n + 1) (lk_broker lk) request response b'"
    and "short name \<Longrightarrow> build_request ''message'' ''register'' (node_rpc_id n)
        [(''name'', JString name), (''size'', json_of_unsigned (msize :: u32))] = Inr request \<Longrightarrow>
      \<exists>response b'. rpc_served client (nd_bp_counter n + 1) (lk_broker lk) request response b'"
    and "short name \<Longrightarrow> unat mt < length (br_message_types (lk_broker lk)) \<Longrightarrow>
      build_request ''topic'' ''register'' (node_rpc_id n)
        [(''name'', JString name), (''message_type_id'', json_of_unsigned (mt :: u32)), (''priority'', json_of_signed (prio :: i8))] = Inr request \<Longrightarrow>
      \<exists>response b'. rpc_served client (nd_bp_counter n + 1) (lk_broker lk) request response b'"
    and "action = ''add_publisher'' \<or> action = ''add_subscriber'' \<Longrightarrow>
      build_request ''topic'' action (node_rpc_id n)
        [(''node_id'', json_of_unsigned (nd_node_id n)), (''topic_id'', json_of_unsigned (t :: u32)), (''message_type_id'', json_of_unsigned (mt :: u32))] =
        Inr request \<Longrightarrow>
      \<exists>response b'. rpc_served client (nd_bp_counter n + 1) (lk_broker lk) request response b'"
proof -
  let ?b = "counted client (nd_bp_counter n + 1) (lk_broker lk)"
  have inv: "broker_inv ?b" using assms by (simp add: link_live_def)
  show "\<exists>response b'. rpc_served client (nd_bp_counter n + 1) (lk_broker lk) request response b'"
    if "short (nd_name n)" "build_request ''node'' ''register'' (node_rpc_id n) [(''name'', JString (nd_name n))] = Inr request"
  proof -
    obtain r b' where "register_node client (nd_name n) ?b = (r, b')" by fastforce
    from serves_register_node [OF that(1) this, of "node_rpc_id n"] that(2) show ?thesis by auto
  qed
  show "\<exists>response b'. rpc_served client (nd_bp_counter n + 1) (lk_broker lk) request response b'"
    if "short name" "build_request ''message'' ''register'' (node_rpc_id n)
        [(''name'', JString name), (''size'', json_of_unsigned msize)] = Inr request"
  proof -
    obtain r b' where "register_message_type name msize ?b = (r, b')" by fastforce
    from serves_register_message_type [OF that(1) this, of "node_rpc_id n"] that(2) show ?thesis by auto
  qed
  show "\<exists>response b'. rpc_served client (nd_bp_counter n + 1) (lk_broker lk) request response b'"
    if "short name" "unat mt < length (br_message_types (lk_broker lk))" "build_request ''topic'' ''register'' (node_rpc_id n)
        [(''name'', JString name), (''message_type_id'', json_of_unsigned mt), (''priority'', json_of_signed prio)] = Inr request"
  proof -
    from register_topic_total [OF inv, of mt name prio] that(2) obtain r b' where
      "register_topic name mt prio ?b = Inr (r, b')" by auto
    from serves_register_topic [OF that(1) this, of "node_rpc_id n"] that(3) show ?thesis by auto
  qed
  show "\<exists>response b'. rpc_served client (nd_bp_counter n + 1) (lk_broker lk) request response b'"
    if "action = ''add_publisher'' \<or> action = ''add_subscriber''" "build_request ''topic'' action (node_rpc_id n)
        [(''node_id'', json_of_unsigned (nd_node_id n)), (''topic_id'', json_of_unsigned t), (''message_type_id'', json_of_unsigned mt)] =
        Inr request"
  proof -
    from that(1) have "\<exists>add ok b'. ((action, add) = (''add_publisher'', add_publisher) \<or> (action, add) = (''add_subscriber'', add_subscriber)) \<and>
        add (nd_node_id n) t mt ?b = Inr (ok, b')"
    proof
      assume "action = ''add_publisher''"
      then show ?thesis using add_total(1) [OF inv, of "nd_node_id n" t mt] by (intro exI [of _ add_publisher]) simp
    next
      assume "action = ''add_subscriber''"
      then show ?thesis using add_total(2) [OF inv, of "nd_node_id n" t mt] by (intro exI [of _ add_subscriber]) simp
    qed
    then obtain add ok b' where "(action, add) = (''add_publisher'', add_publisher) \<or> (action, add) = (''add_subscriber'', add_subscriber)"
      "add (nd_node_id n) t mt ?b = Inr (ok, b')" by blast
    from serves_add_pubsub [OF this, of "node_rpc_id n"] that(2) show ?thesis by auto
  qed
qed

text \<open>A call over the lossy link fails at once, or is the call over the busy link.\<close>

definition lossy_outcome ::
    "string \<Rightarrow> string \<Rightarrow> bool \<Rightarrow> 'u node \<Rightarrow> lossy \<Rightarrow> 'r \<Rightarrow> ('r \<times> 'u node \<times> lossy) res \<Rightarrow> ('r \<times> 'u node \<times> exchange) res \<Rightarrow> bool" where
  "lossy_outcome server client dbg n ly failure result busy_result \<longleftrightarrow>
     (\<exists>buf ly'. result = Inr (failure, after_call (nd_node_id n) buf n, ly') \<and> exchange_step (ly_exchange ly) (ly_exchange ly') \<and>
        lossy_after server (after_call (nd_node_id n) buf n) ly') \<or>
     (\<forall>r n' ex'. busy_result = Inr (r, n', ex') \<longrightarrow> (\<exists>ly'. result = Inr (r, n', ly') \<and> same_exchange ex' (ly_exchange ly')))"

lemma lossy_calls:
  assumes ready: "exchange_ready server client dbg n (ly_exchange ly)"
  shows "short (nd_name n) \<Longrightarrow>
      lossy_outcome server client dbg n ly False (node_register_node (lossy_link server client dbg) n ly)
        (node_register_node (busy_link server client dbg) n (ly_exchange ly))"
    and "short name \<Longrightarrow>
      lossy_outcome server client dbg n ly None (node_register_message_type (lossy_link server client dbg) name msize n ly)
        (node_register_message_type (busy_link server client dbg) name msize n (ly_exchange ly))"
    and "short name \<Longrightarrow> unat mt < length (br_message_types (lk_broker (ex_link (ly_exchange ly)))) \<Longrightarrow>
      lossy_outcome server client dbg n ly None (node_register_topic (lossy_link server client dbg) name mt prio want n ly)
        (node_register_topic (busy_link server client dbg) name mt prio want n (ly_exchange ly))"
    and "action = ''add_publisher'' \<or> action = ''add_subscriber'' \<Longrightarrow>
      lossy_outcome server client dbg n ly False (node_add_pubsub (lossy_link server client dbg) action t mt n ly)
        (node_add_pubsub (busy_link server client dbg) action t mt n (ly_exchange ly))"
proof -
  show "lossy_outcome server client dbg n ly False (node_register_node (lossy_link server client dbg) n ly)
      (node_register_node (busy_link server client dbg) n (ly_exchange ly))" if "short (nd_name n)"
  proof -
    obtain request where request: "build_request ''node'' ''register'' (node_rpc_id n) [(''name'', JString (nd_name n))] = Inr request"
      by (simp add: request_shapes)
    from lossy_rpc [OF ready requests_served(1) [OF _ that request]] show ?thesis
      by (force simp: lossy_outcome_def node_register_node_def request elim!: rbind_InrE split: if_splits)
  qed
  show "lossy_outcome server client dbg n ly None (node_register_message_type (lossy_link server client dbg) name msize n ly)
      (node_register_message_type (busy_link server client dbg) name msize n (ly_exchange ly))" if "short name"
  proof -
    obtain request where request: "build_request ''message'' ''register'' (node_rpc_id n)
        [(''name'', JString name), (''size'', json_of_unsigned msize)] = Inr request"
      by (simp add: request_shapes)
    from lossy_rpc [OF ready requests_served(2) [OF _ that request]] show ?thesis
      by (force simp: lossy_outcome_def node_register_message_type_def request elim!: rbind_InrE split: if_splits)
  qed
  show "lossy_outcome server client dbg n ly None (node_register_topic (lossy_link server client dbg) name mt prio want n ly)
      (node_register_topic (busy_link server client dbg) name mt prio want n (ly_exchange ly))"
    if "short name" "unat mt < length (br_message_types (lk_broker (ex_link (ly_exchange ly))))"
  proof -
    obtain request where request: "build_request ''topic'' ''register'' (node_rpc_id n)
        [(''name'', JString name), (''message_type_id'', json_of_unsigned mt), (''priority'', json_of_signed prio)] = Inr request"
      by (simp add: request_shapes)
    from lossy_rpc [OF ready requests_served(3) [OF _ that(1) _ request]] evolves_entries(2) [OF _ that(2)] show ?thesis
      by (force simp: lossy_outcome_def node_register_topic_def request elim!: rbind_InrE split: if_splits)
  qed
  show "lossy_outcome server client dbg n ly False (node_add_pubsub (lossy_link server client dbg) action t mt n ly)
      (node_add_pubsub (busy_link server client dbg) action t mt n (ly_exchange ly))"
    if "action = ''add_publisher'' \<or> action = ''add_subscriber''"
  proof -
    obtain request where request: "build_request ''topic'' action (node_rpc_id n)
        [(''node_id'', json_of_unsigned (nd_node_id n)), (''topic_id'', json_of_unsigned t), (''message_type_id'', json_of_unsigned mt)] =
        Inr request"
      by (simp add: request_shapes)
    from lossy_rpc [OF ready requests_served(4) [OF _ that request]] show ?thesis
      by (force simp: lossy_outcome_def node_add_pubsub_def request elim!: rbind_InrE split: if_splits)
  qed
qed

text \<open>What the busy link promises of a call, the lossy link keeps; a call that fails promises no more than that.\<close>

lemma lossy_outcome_law:
  assumes outcome: "lossy_outcome server client dbg n ly failure result busy_result"
    and busy: "busy_result = Inr (r, n', ex')" "exchange_step (ly_exchange ly) ex'" "exchange_after server client n' ex'"
      "good r n' (lk_broker (ex_link ex')) \<longrightarrow> exchange_ready server client dbg n' ex' \<and> exchange_space k ex'"
  shows "\<exists>r1 n1 ly'. result = Inr (r1, n1, ly') \<and> exchange_step (ly_exchange ly) (ly_exchange ly') \<and> lossy_after server n1 ly' \<and>
    (r1 = failure \<and> (\<exists>buf. n1 = after_call (nd_node_id n) buf n) \<or>
     r1 = r \<and> n1 = n' \<and> lk_broker (ex_link (ly_exchange ly')) = lk_broker (ex_link ex') \<and>
       (good r n' (lk_broker (ex_link ex')) \<longrightarrow>
          exchange_ready server client dbg n' (ly_exchange ly') \<and> exchange_space k (ly_exchange ly')))"
  using outcome unfolding lossy_outcome_def
proof
  assume "\<exists>buf ly'. result = Inr (failure, after_call (nd_node_id n) buf n, ly') \<and>
      exchange_step (ly_exchange ly) (ly_exchange ly') \<and> lossy_after server (after_call (nd_node_id n) buf n) ly'"
  then show ?thesis by blast
next
  assume "\<forall>r n' ex'. busy_result = Inr (r, n', ex') \<longrightarrow> (\<exists>ly'. result = Inr (r, n', ly') \<and> same_exchange ex' (ly_exchange ly'))"
  with busy(1) obtain ly' where ly': "result = Inr (r, n', ly')" "same_exchange ex' (ly_exchange ly')" by blast
  note same = same_exchange_facts [OF ly'(2)]
  show ?thesis
    using ly'(1) same(1) same(2) [OF busy(2)] same(5) [OF busy(3) refl] same(3,4) busy(4)
    by (intro exI [of _ r] exI [of _ n'] exI [of _ ly']) blast
qed

lemma lossy_register_node:
  assumes ready: "exchange_ready server client dbg n (ly_exchange ly)" and name: "short (nd_name n)"
    and space: "exchange_space (Suc k) (ly_exchange ly)"
  shows "\<exists>ok i buf ly'. node_register_node (lossy_link server client dbg) n ly = Inr (ok, after_call i buf n, ly') \<and>
    exchange_step (ly_exchange ly) (ly_exchange ly') \<and> lossy_after server (after_call i buf n) ly' \<and>
    (ok \<longrightarrow> exchange_ready server client dbg (after_call i buf n) (ly_exchange ly') \<and> exchange_space k (ly_exchange ly') \<and>
      unat i < length (br_nodes (lk_broker (ex_link (ly_exchange ly')))) \<and>
      br_nodes (lk_broker (ex_link (ly_exchange ly'))) ! unat i = \<lparr>ni_name = nd_name n, ni_address = client\<rparr>)"
proof -
  from busy_register_node [OF ready name space] obtain ok i buf ex' where
    run: "node_register_node (busy_link server client dbg) n (ly_exchange ly) = Inr (ok, after_call i buf n, ex')"
      "exchange_step (ly_exchange ly) ex'" "exchange_after server client (after_call i buf n) ex'"
    and ok: "ok \<longrightarrow> exchange_ready server client dbg (after_call i buf n) ex' \<and> exchange_space k ex'"
      "ok \<longrightarrow> unat i < length (br_nodes (lk_broker (ex_link ex'))) \<and>
        br_nodes (lk_broker (ex_link ex')) ! unat i = \<lparr>ni_name = nd_name n, ni_address = client\<rparr>" by blast
  from lossy_outcome_law [OF lossy_calls(1) [OF ready name] run, where good = "\<lambda>r n' b. r" and k = k] ok(1) obtain r1 n1 ly' where
    call: "node_register_node (lossy_link server client dbg) n ly = Inr (r1, n1, ly')"
      "exchange_step (ly_exchange ly) (ly_exchange ly')" "lossy_after server n1 ly'"
    and cases: "r1 = False \<and> (\<exists>buf. n1 = after_call (nd_node_id n) buf n) \<or>
      r1 = ok \<and> n1 = after_call i buf n \<and> lk_broker (ex_link (ly_exchange ly')) = lk_broker (ex_link ex') \<and>
        (ok \<longrightarrow> exchange_ready server client dbg (after_call i buf n) (ly_exchange ly') \<and> exchange_space k (ly_exchange ly'))"
    by blast
  from cases show ?thesis
  proof
    assume "r1 = False \<and> (\<exists>buf. n1 = after_call (nd_node_id n) buf n)"
    with call show ?thesis by blast
  next
    assume "r1 = ok \<and> n1 = after_call i buf n \<and> lk_broker (ex_link (ly_exchange ly')) = lk_broker (ex_link ex') \<and>
        (ok \<longrightarrow> exchange_ready server client dbg (after_call i buf n) (ly_exchange ly') \<and> exchange_space k (ly_exchange ly'))"
    with call ok(2) show ?thesis by (intro exI [of _ ok] exI [of _ i] exI [of _ buf] exI [of _ ly']) simp
  qed
qed

lemma lossy_register_message_type:
  assumes ready: "exchange_ready server client dbg n (ly_exchange ly)" and name: "short name"
    and space: "exchange_space (Suc k) (ly_exchange ly)"
  shows "\<exists>r buf ly'. node_register_message_type (lossy_link server client dbg) name msize n ly =
      Inr (r, after_call (nd_node_id n) buf n, ly') \<and>
    exchange_step (ly_exchange ly) (ly_exchange ly') \<and> lossy_after server (after_call (nd_node_id n) buf n) ly' \<and>
    (\<forall>mt. r = Some mt \<longrightarrow> exchange_ready server client dbg (after_call (nd_node_id n) buf n) (ly_exchange ly') \<and>
      exchange_space k (ly_exchange ly') \<and>
      unat mt < length (br_message_types (lk_broker (ex_link (ly_exchange ly')))) \<and>
      br_message_types (lk_broker (ex_link (ly_exchange ly'))) ! unat mt = \<lparr>mti_name = name, mti_size = msize\<rparr>)"
proof -
  from busy_register_message_type [OF ready name space, of msize] obtain r buf ex' where
    run: "node_register_message_type (busy_link server client dbg) name msize n (ly_exchange ly) =
        Inr (r, after_call (nd_node_id n) buf n, ex')"
      "exchange_step (ly_exchange ly) ex'" "exchange_after server client (after_call (nd_node_id n) buf n) ex'"
    and ok: "r \<noteq> None \<longrightarrow> exchange_ready server client dbg (after_call (nd_node_id n) buf n) ex' \<and> exchange_space k ex'"
      "\<forall>mt. r = Some mt \<longrightarrow> unat mt < length (br_message_types (lk_broker (ex_link ex'))) \<and>
        br_message_types (lk_broker (ex_link ex')) ! unat mt = \<lparr>mti_name = name, mti_size = msize\<rparr>" by blast
  from lossy_outcome_law [OF lossy_calls(2) [OF ready name] run, where good = "\<lambda>r n' b. r \<noteq> None" and k = k] ok
  show ?thesis by auto
qed

lemma lossy_register_topic:
  assumes ready: "exchange_ready server client dbg n (ly_exchange ly)" and name: "short name"
    and space: "exchange_space (Suc k) (ly_exchange ly)"
    and mt: "unat mt < length (br_message_types (lk_broker (ex_link (ly_exchange ly))))"
    and type: "br_message_types (lk_broker (ex_link (ly_exchange ly))) ! unat mt = \<lparr>mti_name = type_name, mti_size = msize\<rparr>"
  shows "\<exists>r buf ly'. node_register_topic (lossy_link server client dbg) name mt prio want n ly =
      Inr (r, after_call (nd_node_id n) buf n, ly') \<and>
    exchange_step (ly_exchange ly) (ly_exchange ly') \<and> lossy_after server (after_call (nd_node_id n) buf n) ly' \<and>
    (\<forall>t q. r = Some (t, q) \<longrightarrow> exchange_ready server client dbg (after_call (nd_node_id n) buf n) (ly_exchange ly') \<and>
      exchange_space k (ly_exchange ly') \<and>
      endpoint_known (lk_broker (ex_link (ly_exchange ly'))) name type_name msize mt t \<and>
      q = (if want then t_priority (br_topics (lk_broker (ex_link (ly_exchange ly'))) ! unat t) else prio))"
proof -
  from busy_register_topic [OF ready name space mt type, of prio want] obtain r buf ex' where
    run: "node_register_topic (busy_link server client dbg) name mt prio want n (ly_exchange ly) =
        Inr (r, after_call (nd_node_id n) buf n, ex')"
      "exchange_step (ly_exchange ly) ex'" "exchange_after server client (after_call (nd_node_id n) buf n) ex'"
    and ok: "\<forall>t q. r = Some (t, q) \<longrightarrow> exchange_ready server client dbg (after_call (nd_node_id n) buf n) ex' \<and> exchange_space k ex' \<and>
        endpoint_known (lk_broker (ex_link ex')) name type_name msize mt t \<and>
        q = (if want then t_priority (br_topics (lk_broker (ex_link ex')) ! unat t) else prio)" by blast
  have "r \<noteq> None \<longrightarrow> exchange_ready server client dbg (after_call (nd_node_id n) buf n) ex' \<and> exchange_space k ex'"
    using ok by (cases r) auto
  from lossy_outcome_law [OF lossy_calls(3) [OF ready name mt] run, where good = "\<lambda>r n' b. r \<noteq> None" and k = k, OF this] obtain r1 n1 ly' where
    call: "node_register_topic (lossy_link server client dbg) name mt prio want n ly = Inr (r1, n1, ly')"
      "exchange_step (ly_exchange ly) (ly_exchange ly')" "lossy_after server n1 ly'"
    and cases: "r1 = None \<and> (\<exists>buf. n1 = after_call (nd_node_id n) buf n) \<or>
      r1 = r \<and> n1 = after_call (nd_node_id n) buf n \<and> lk_broker (ex_link (ly_exchange ly')) = lk_broker (ex_link ex') \<and>
        (r \<noteq> None \<longrightarrow> exchange_ready server client dbg (after_call (nd_node_id n) buf n) (ly_exchange ly') \<and>
          exchange_space k (ly_exchange ly'))"
    by (elim exE conjE)
  from cases show ?thesis
  proof
    assume "r1 = None \<and> (\<exists>buf. n1 = after_call (nd_node_id n) buf n)"
    with call show ?thesis by blast
  next
    assume "r1 = r \<and> n1 = after_call (nd_node_id n) buf n \<and> lk_broker (ex_link (ly_exchange ly')) = lk_broker (ex_link ex') \<and>
        (r \<noteq> None \<longrightarrow> exchange_ready server client dbg (after_call (nd_node_id n) buf n) (ly_exchange ly') \<and>
          exchange_space k (ly_exchange ly'))"
    then have same: "r1 = r" "n1 = after_call (nd_node_id n) buf n"
      and b: "lk_broker (ex_link (ly_exchange ly')) = lk_broker (ex_link ex')"
      and go: "r \<noteq> None \<Longrightarrow> exchange_ready server client dbg (after_call (nd_node_id n) buf n) (ly_exchange ly') \<and>
        exchange_space k (ly_exchange ly')" by simp_all
    have "exchange_ready server client dbg (after_call (nd_node_id n) buf n) (ly_exchange ly') \<and> exchange_space k (ly_exchange ly') \<and>
        endpoint_known (lk_broker (ex_link (ly_exchange ly'))) name type_name msize mt t \<and>
        q = (if want then t_priority (br_topics (lk_broker (ex_link (ly_exchange ly'))) ! unat t) else prio)"
      if some: "r = Some (t, q)" for t q
    proof -
      have "r \<noteq> None" using some by simp
      from go [OF this] ok some show ?thesis unfolding b by blast
    qed
    with call show ?thesis unfolding same by blast
  qed
qed

lemma lossy_add_pubsub:
  assumes ready: "exchange_ready server client dbg n (ly_exchange ly)" and space: "exchange_space k (ly_exchange ly)"
    and action: "(action, members) = (''add_publisher'', t_publishers) \<or> (action, members) = (''add_subscriber'', t_subscribers)"
  shows "\<exists>r buf ly'. node_add_pubsub (lossy_link server client dbg) action t mt n ly =
      Inr (r, after_call (nd_node_id n) buf n, ly') \<and>
    exchange_step (ly_exchange ly) (ly_exchange ly') \<and> lossy_after server (after_call (nd_node_id n) buf n) ly' \<and>
    (r \<longrightarrow> exchange_ready server client dbg (after_call (nd_node_id n) buf n) (ly_exchange ly') \<and> exchange_space k (ly_exchange ly') \<and>
      nd_node_id n \<in> set (members (br_topics (lk_broker (ex_link (ly_exchange ly'))) ! unat t)))"
proof -
  from busy_add_pubsub [OF ready space action, of t mt] obtain r buf ex' where
    run: "node_add_pubsub (busy_link server client dbg) action t mt n (ly_exchange ly) =
        Inr (r, after_call (nd_node_id n) buf n, ex')"
      "exchange_step (ly_exchange ly) ex'" "exchange_after server client (after_call (nd_node_id n) buf n) ex'"
    and ok: "r \<longrightarrow> exchange_ready server client dbg (after_call (nd_node_id n) buf n) ex' \<and> exchange_space k ex'"
      "r \<longrightarrow> nd_node_id n \<in> set (members (br_topics (lk_broker (ex_link ex')) ! unat t))" by blast
  have "action = ''add_publisher'' \<or> action = ''add_subscriber''" using action by blast
  from lossy_outcome_law [OF lossy_calls(4) [OF ready this] run, where good = "\<lambda>r n' b. r" and k = k] ok show ?thesis by auto
qed

section \<open>The lossy link provides the contract\<close>

lemma lossy_after_view: "same_link_view n n' \<Longrightarrow> lossy_after server n ly \<Longrightarrow> lossy_after server n' ly"
  by (simp add: lossy_after_def same_link_view_def)

interpretation lossy: registration_service "lossy_link server client dbg" client "\<lambda>ly. lk_broker (ex_link (ly_exchange ly))"
  "\<lambda>n ly. exchange_ready server client dbg n (ly_exchange ly)" "lossy_after server"
  "\<lambda>ly ly'. exchange_step (ly_exchange ly) (ly_exchange ly')" "\<lambda>k ly. exchange_space k (ly_exchange ly)"
  for server client :: string and dbg :: bool
proof (unfold_locales, goal_cases)
  case 1
  show ?case by (simp add: lossy_link_def)
next
  case 2
  show ?case by (simp add: lossy_link_def)
next
  case 3
  then show ?case by (rule exchange_ready_view)
next
  case 4
  then show ?case by (rule lossy_after_view)
next
  case 5
  then show ?case by (simp add: exchange_ready_def lossy_after_def link_ok_def)
next
  case 6
  show ?case by (rule exchange_step_refl)
next
  case 7
  then show ?case by (rule exchange_step_trans)
next
  case 8
  then show ?case by (simp add: exchange_step_def)
next
  case 9
  then show ?case using room_less by (auto simp: exchange_space_def)
next
  case 10
  then show ?case by (rule lossy_register_node)
next
  case 11
  then show ?case by (rule lossy_register_message_type)
next
  case 12
  then show ?case by (rule lossy_register_topic)
next
  case 13
  then show ?case by (rule lossy_add_pubsub)
qed

lemma connect_served_lossy:
  assumes "link_ok server client n lk" and "connectable n" and "pending_ok client dbg (lk_broker lk) pending"
    and "room (length (concat pending) + Suc (2 * length (nd_publishers n) + 2 * length (nd_subscribers n))) (lk_broker lk)"
  shows "\<exists>ok n' ly. node_connect (lossy_link server client dbg) n
      \<lparr>ly_exchange = \<lparr>ex_link = lk, ex_pending = pending\<rparr>, ly_fates = fates\<rparr> = Inr (ok, n', ly) \<and>
    exchange_step \<lparr>ex_link = lk, ex_pending = pending\<rparr> (ly_exchange ly) \<and> lossy_after server n' ly \<and>
    (ok \<longrightarrow> link_ok server client n' (ex_link (ly_exchange ly)) \<and> node_agrees (lk_broker (ex_link (ly_exchange ly))) client n')"
proof -
  let ?ly = "\<lparr>ly_exchange = \<lparr>ex_link = lk, ex_pending = pending\<rparr>, ly_fates = fates\<rparr>"
  have "exchange_ready server client dbg n (ly_exchange ?ly)" using assms(1,3) by (simp add: exchange_ready_def)
  moreover have "exchange_space (Suc (2 * length (nd_publishers n) + 2 * length (nd_subscribers n))) (ly_exchange ?ly)"
    using assms(4) by (simp add: exchange_space_def)
  ultimately obtain ok n' ly where
    run: "node_connect (lossy_link server client dbg) n ?ly = Inr (ok, n', ly)"
    and p: "lossy.progress server client dbg 0 ?ly ok n' ly"
    and agrees: "ok \<longrightarrow> node_agrees (lk_broker (ex_link (ly_exchange ly))) client n'"
    using lossy.node_connect_served [OF _ assms(2)] by blast
  then show ?thesis
    by (intro exI [of _ ok] exI [of _ n'] exI [of _ ly])
       (unfold lossy.progress_def, simp add: exchange_ready_def)
qed

end
