(* ===== verification/Interleaving.thy ===== *)
theory Interleaving
  imports System Lossy_Link
begin

text \<open>
  Any number of nodes and the broker, running at the same time: every interleaving of the steps of the broker's
  loop, of the nodes' loops, of publishing by the programs, and of further nodes that connect while the others run.
  The steps are the operations of the model, each with a mailbox for its packets; the data packets a mailbox sends go
  on the wire, and from the wire any packet may be received by its destination at any time, any number of times or
  never: the wire loses, delays, reorders and duplicates.

  The requests and answers of \<^verbatim>\<open>connect()\<close> are not kept on the wire; what becomes of them is the matter of the link the
  node connects over. Between the calls the broker may handle any packets of the wire and of others, and
  over the link of \<open>Lossy_Link\<close> requests may be lost or arrive twice, and answers may be lost. An answer is never
  delivered twice: the node does not compare the ID of an answer with the one of its request, and with a second
  copy of an answer \<^verbatim>\<open>connect()\<close> may report a registration that has not been made (\<open>System.next_call_gets_old_answer\<close>),
  so that what is shown here of connected nodes would not hold.
\<close>

section \<open>Worlds\<close>

text \<open>Nodes stand under their addresses, with the user data of their callbacks; a packet on the wire has a
  destination and a sender.\<close>

record 'u world =
  wo_broker :: broker
  wo_buffer :: "byte list"
  wo_nodes :: "string \<rightharpoonup> 'u node \<times> 'u"
  wo_wire :: "(string \<times> string \<times> byte list) list"

definition on_wire :: "string \<Rightarrow> mailbox \<Rightarrow> (string \<times> string \<times> byte list) list" where
  "on_wire sender w = map (\<lambda>(destination, packet). (destination, sender, packet)) (mb_sent w)"

definition data_packets :: "(string \<times> byte list) list \<Rightarrow> (string \<times> byte list) list" where
  "data_packets sent = filter (\<lambda>(a, packet). take 1 packet = [bp_data]) sent"

definition mailbox_with :: "(byte list \<times> string) list \<Rightarrow> mailbox" where
  "mailbox_with inbox = \<lparr>mb_inbox = inbox, mb_sent = []\<rparr>"

section \<open>What stays of a node\<close>

text \<open>A publisher, or subscriber, up to what is in its queue.\<close>

definition same_publisher :: "publisher \<Rightarrow> publisher \<Rightarrow> bool" where
  "same_publisher p p' \<longleftrightarrow> (\<exists>q. p' = p\<lparr>pu_message_queue := q\<rparr>)"

definition same_subscriber :: "'u subscriber \<Rightarrow> 'u subscriber \<Rightarrow> bool" where
  "same_subscriber s s' \<longleftrightarrow> (\<exists>q. s' = s\<lparr>su_message_queue := q\<rparr>)"

lemma same_publisher_simps [simp]: "same_publisher p p" "same_publisher p (p\<lparr>pu_message_queue := q\<rparr>)"
  unfolding same_publisher_def by (rule exI [of _ "pu_message_queue p"], simp) blast

lemma same_subscriber_simps [simp]: "same_subscriber s s" "same_subscriber s (s\<lparr>su_message_queue := q\<rparr>)"
  unfolding same_subscriber_def by (rule exI [of _ "su_message_queue s"], simp) blast

lemma same_publisher_fields:
  "same_publisher p p' \<Longrightarrow> pu_topic_name p' = pu_topic_name p \<and> pu_message_type_name p' = pu_message_type_name p \<and>
     pu_message_size p' = pu_message_size p \<and> pu_topic_priority p' = pu_topic_priority p \<and> pu_topic_id p' = pu_topic_id p \<and>
     pu_message_type_id p' = pu_message_type_id p"
  by (auto simp: same_publisher_def)

lemma same_subscriber_fields:
  "same_subscriber s s' \<Longrightarrow> su_topic_name s' = su_topic_name s \<and> su_message_type_name s' = su_message_type_name s \<and>
     su_message_size s' = su_message_size s \<and> su_topic_priority s' = su_topic_priority s \<and> su_topic_id s' = su_topic_id s \<and>
     su_message_type_id s' = su_message_type_id s \<and> su_callback s' = su_callback s"
  by (auto simp: same_subscriber_def)

lemma same_trans:
  "same_publisher p p' \<Longrightarrow> same_publisher p' p'' \<Longrightarrow> same_publisher p p''"
  "same_subscriber s s' \<Longrightarrow> same_subscriber s' s'' \<Longrightarrow> same_subscriber s s''"
proof -
  assume "same_publisher p p'" and "same_publisher p' p''"
  then obtain q q' where "p' = p\<lparr>pu_message_queue := q\<rparr>" "p'' = p'\<lparr>pu_message_queue := q'\<rparr>"
    unfolding same_publisher_def by blast
  then have "p'' = p\<lparr>pu_message_queue := q'\<rparr>" by simp
  then show "same_publisher p p''" unfolding same_publisher_def by (rule exI)
next
  assume "same_subscriber s s'" and "same_subscriber s' s''"
  then obtain q q' where "s' = s\<lparr>su_message_queue := q\<rparr>" "s'' = s'\<lparr>su_message_queue := q'\<rparr>"
    unfolding same_subscriber_def by blast
  then have "s'' = s\<lparr>su_message_queue := q'\<rparr>" by simp
  then show "same_subscriber s s''" unfolding same_subscriber_def by (rule exI)
qed

abbreviation same_publishers :: "publisher list \<Rightarrow> publisher list \<Rightarrow> bool" where
  "same_publishers \<equiv> list_all2 same_publisher"

definition same_node :: "'u node \<Rightarrow> 'u node \<Rightarrow> bool" where
  "same_node n n' \<longleftrightarrow>
     nd_node_id n' = nd_node_id n \<and> nd_topics n' = nd_topics n \<and> nd_topics_by_prio n' = nd_topics_by_prio n \<and>
     nd_broker_address n' = nd_broker_address n \<and> same_publishers (nd_publishers n) (nd_publishers n') \<and>
     list_all2 same_subscriber (nd_subscribers n) (nd_subscribers n')"

lemma same_node_refl [simp]: "same_node n n"
  by (simp add: same_node_def list.rel_refl)

lemma same_lists_trans:
  "same_publishers ps ps' \<Longrightarrow> same_publishers ps' ps'' \<Longrightarrow> same_publishers ps ps''"
  "list_all2 same_subscriber ss ss' \<Longrightarrow> list_all2 same_subscriber ss' ss'' \<Longrightarrow> list_all2 same_subscriber ss ss''"
proof -
  show "same_publishers ps ps' \<Longrightarrow> same_publishers ps' ps'' \<Longrightarrow> same_publishers ps ps''"
    by (rule list_all2_trans [of same_publisher same_publisher]) (rule same_trans(1))
  show "list_all2 same_subscriber ss ss' \<Longrightarrow> list_all2 same_subscriber ss' ss'' \<Longrightarrow> list_all2 same_subscriber ss ss''"
    by (rule list_all2_trans [of same_subscriber same_subscriber]) (rule same_trans(2))
qed

lemma same_node_trans:
  assumes "same_node n n'" and "same_node n' n''"
  shows "same_node n n''"
  using assms same_lists_trans(1) [of "nd_publishers n" "nd_publishers n'" "nd_publishers n''"]
    same_lists_trans(2) [of "nd_subscribers n" "nd_subscribers n'" "nd_subscribers n''"]
  by (simp add: same_node_def)

lemma same_node_lengths:
  "same_node n n' \<Longrightarrow> length (nd_publishers n') = length (nd_publishers n) \<and>
   length (nd_subscribers n') = length (nd_subscribers n)"
  by (auto simp: same_node_def dest: list_all2_lengthD)

lemma same_node_nth:
  "same_node n n' \<Longrightarrow> i < length (nd_publishers n) \<Longrightarrow> same_publisher (nd_publishers n ! i) (nd_publishers n' ! i)"
  "same_node n n' \<Longrightarrow> j < length (nd_subscribers n) \<Longrightarrow> same_subscriber (nd_subscribers n ! j) (nd_subscribers n' ! j)"
  by (auto simp: same_node_def list_all2_conv_all_nth)

lemma node_agrees_same:
  assumes "node_agrees b client n" and s: "same_node n n'"
  shows "node_agrees b client n'"
proof -
  have "publisher_known b i (nd_publishers n' ! k) = publisher_known b i (nd_publishers n ! k)"
    "pu_topic_priority (nd_publishers n' ! k) = pu_topic_priority (nd_publishers n ! k)"
    if "k < length (nd_publishers n)" for i k
    using same_publisher_fields [OF same_node_nth(1) [OF s that]] by (simp_all add: publisher_known_def)
  moreover have "subscriber_known b i (nd_subscribers n' ! k) = subscriber_known b i (nd_subscribers n ! k)"
    "su_topic_id (nd_subscribers n' ! k) = su_topic_id (nd_subscribers n ! k)"
    "su_topic_priority (nd_subscribers n' ! k) = su_topic_priority (nd_subscribers n ! k)"
    if "k < length (nd_subscribers n)" for i k
    using same_subscriber_fields [OF same_node_nth(2) [OF s that]] by (simp_all add: subscriber_known_def)
  moreover have "subscribers_on n' = subscribers_on n" "publishers_at n' = publishers_at n" "callbacks_at n' = callbacks_at n"
    by (rule ext, use s in \<open>simp add: same_node_def subscribers_on_def publishers_at_def callbacks_at_def\<close>)+
  ultimately show ?thesis
    using assms same_node_lengths [OF s]
    by (simp add: node_agrees_def publishers_done_def subscribers_done_def same_node_def)
qed


section \<open>What holds of nodes and packets\<close>

definition publisher_fine :: "(string \<Rightarrow> byte list \<Rightarrow> bool) \<Rightarrow> publisher \<Rightarrow> bool" where
  "publisher_fine allowed p \<longleftrightarrow>
     node_publisher_ok p \<and> 17 + unat (pu_message_size p) \<le> udp_buffer_size \<and>
     (\<forall>m\<in>set (pu_waiting p). allowed (pu_topic_name p) m)"

text \<open>
  What is asked of a callback: called with a message that is allowed under its topic and has its
  size, it returns, changes publishers only by publishing allowed messages, and keeps what is
  required of the user data.
\<close>

definition callback_fine ::
    "(string \<Rightarrow> byte list \<Rightarrow> bool) \<Rightarrow> ('u \<Rightarrow> bool) \<Rightarrow> publisher list \<Rightarrow> 'u subscriber \<Rightarrow> bool" where
  "callback_fine allowed user_ok ps0 s \<longleftrightarrow>
     (\<forall>m ps u. length m = unat (su_message_size s) \<and> allowed (su_topic_name s) m \<and> user_ok u \<and>
        same_publishers ps0 ps \<and> (\<forall>p\<in>set ps. publisher_fine allowed p) \<longrightarrow>
        (\<exists>ps' u'. su_callback s m (su_message_size s) (ps, u) = Inr (ps', u') \<and> user_ok u' \<and>
           same_publishers ps ps' \<and> (\<forall>p\<in>set ps'. publisher_fine allowed p)))"

definition subscriber_fine :: "(string \<Rightarrow> byte list \<Rightarrow> bool) \<Rightarrow> 'u subscriber \<Rightarrow> bool" where
  "subscriber_fine allowed s \<longleftrightarrow>
     node_subscriber_ok s \<and> (\<forall>m\<in>set (su_waiting s). allowed (su_topic_name s) m)"

definition node_fine ::
    "(string \<Rightarrow> byte list \<Rightarrow> bool) \<Rightarrow> ('u \<Rightarrow> bool) \<Rightarrow> broker \<Rightarrow> string \<Rightarrow> string \<Rightarrow> 'u node \<Rightarrow> 'u \<Rightarrow> bool" where
  "node_fine allowed user_ok b server client n u \<longleftrightarrow>
     node_inv n \<and> node_agrees b client n \<and> nd_broker_address n = server \<and> user_ok u \<and>
     (\<forall>p\<in>set (nd_publishers n). publisher_fine allowed p) \<and>
     (\<forall>s\<in>set (nd_subscribers n). subscriber_fine allowed s \<and> callback_fine allowed user_ok (nd_publishers n) s)"

text \<open>A packet on the wire: a data packet of a publisher the broker knows, with an allowed message.\<close>

definition packet_fine :: "(string \<Rightarrow> byte list \<Rightarrow> bool) \<Rightarrow> broker \<Rightarrow> byte list \<Rightarrow> bool" where
  "packet_fine allowed b packet \<longleftrightarrow>
     (\<exists>c p m. packet = data_packet c p m \<and>
        endpoint_known b (pu_topic_name p) (pu_message_type_name p) (pu_message_size p) (pu_message_type_id p) (pu_topic_id p) \<and>
        length m = unat (pu_message_size p) \<and> 17 + length m \<le> udp_buffer_size \<and> allowed (pu_topic_name p) m)"

definition emits :: "(string \<Rightarrow> byte list \<Rightarrow> bool) \<Rightarrow> broker \<Rightarrow> mailbox \<Rightarrow> mailbox \<Rightarrow> bool" where
  "emits allowed b w w' \<longleftrightarrow>
     mb_inbox w' = mb_inbox w \<and>
     (\<exists>sent. mb_sent w' = mb_sent w @ sent \<and> (\<forall>(a, packet)\<in>set sent. packet_fine allowed b packet))"

lemma emits_refl [simp]: "emits allowed b w w"
  by (simp add: emits_def)

lemma emits_trans: "emits allowed b w w' \<Longrightarrow> emits allowed b w' w'' \<Longrightarrow> emits allowed b w w''"
  by (fastforce simp: emits_def)

lemma callback_fine_same:
  assumes "callback_fine allowed user_ok ps0 s" and "same_publishers ps0 ps" and "same_subscriber s s'"
  shows "callback_fine allowed user_ok ps s'"
proof -
  have "same_publishers ps0 qs" if "same_publishers ps qs" for qs
    using same_lists_trans(1) [OF assms(2) that] .
  with assms(1) same_subscriber_fields [OF assms(3)] show ?thesis by (simp add: callback_fine_def)
qed

text \<open>A change of queues that keeps the messages allowed.\<close>

lemma node_fine_change:
  assumes "node_fine allowed user_ok b server client n u" and "same_node n n'" and "node_inv n'" and "user_ok u'"
    and "\<forall>p\<in>set (nd_publishers n'). publisher_fine allowed p" and "\<forall>s\<in>set (nd_subscribers n'). subscriber_fine allowed s"
  shows "node_fine allowed user_ok b server client n' u'"
proof -
  have "callback_fine allowed user_ok (nd_publishers n') s'" if s': "s' \<in> set (nd_subscribers n')" for s'
  proof -
    obtain k where k: "k < length (nd_subscribers n)" "s' = nd_subscribers n' ! k"
      using s' same_node_lengths [OF assms(2)] by (auto simp: in_set_conv_nth)
    with same_node_nth(2) [OF assms(2)] have same: "same_subscriber (nd_subscribers n ! k) s'" by simp
    have "callback_fine allowed user_ok (nd_publishers n) (nd_subscribers n ! k)"
      using assms(1) k(1) by (simp add: node_fine_def)
    then show ?thesis
      using assms(2) by (rule_tac callback_fine_same [OF _ _ same]) (auto simp: same_node_def)
  qed
  with assms node_agrees_same [OF _ assms(2)] show ?thesis by (simp add: node_fine_def same_node_def)
qed

section \<open>Steps\<close>

text \<open>
  A node as its program has made it, before it connects: no queue holds a message that is not allowed, and
  its callbacks are fine whatever IDs \<^verbatim>\<open>connect()\<close> gives to its publishers.
\<close>

definition node_joins ::
    "(string \<Rightarrow> byte list \<Rightarrow> bool) \<Rightarrow> ('u \<Rightarrow> bool) \<Rightarrow> string \<Rightarrow> 'u node \<Rightarrow> 'u \<Rightarrow> bool" where
  "node_joins allowed user_ok server n u \<longleftrightarrow>
     node_inv n \<and> connectable n \<and> nd_broker_address n = server \<and> user_ok u \<and>
     (\<forall>p\<in>set (nd_publishers n). publisher_fine allowed p) \<and>
     (\<forall>s\<in>set (nd_subscribers n). subscriber_fine allowed s \<and>
        (\<forall>ps. list_all2 identified_publisher (nd_publishers n) ps \<longrightarrow> callback_fine allowed user_ok ps s))"

definition world_exchange :: "'u world \<Rightarrow> (byte list \<times> string) list list \<Rightarrow> exchange" where
  "world_exchange W pending =
     \<lparr>ex_link = \<lparr>lk_broker = wo_broker W, lk_buffer = wo_buffer W, lk_inbox = [], lk_others = []\<rparr>, ex_pending = pending\<rparr>"

text \<open>
  A request of somebody who is not (yet, or not any more) one of the nodes: another process that is just connecting,
  whose side is not followed, or any client of the protocol.
\<close>

definition stranger_call :: "bool \<Rightarrow> 'u world \<Rightarrow> byte list \<Rightarrow> string \<Rightarrow> bool" where
  "stranger_call dbg W packet client \<longleftrightarrow>
     wo_nodes W client = None \<and> take 1 packet = [bp_control] \<and> tolerated dbg (wo_broker W) (packet, client)"

text \<open>The circumstances of \<^verbatim>\<open>connect()\<close>: an address the broker expects the node's first counter from, packets of
  others for the broker to handle meanwhile, and 32-bit IDs left.\<close>

definition may_connect :: "bool \<Rightarrow> string \<Rightarrow> string \<Rightarrow> 'u node \<Rightarrow> (byte list \<times> string) list list \<Rightarrow> 'u world \<Rightarrow> bool" where
  "may_connect dbg server a n pending W \<longleftrightarrow>
     wo_nodes W a = None \<and> br_client_counters (wo_broker W) a \<in> {None, Some (nd_bp_counter n)} \<and>
     (\<forall>(packet, sender)\<in>set (concat pending). sender \<noteq> a \<and>
        ((server, sender, packet) \<in> set (wo_wire W) \<or> stranger_call dbg W packet sender)) \<and>
     room (length (concat pending) + Suc (2 * length (nd_publishers n) + 2 * length (nd_subscribers n))) (wo_broker W)"

definition world_lossy :: "'u world \<Rightarrow> (byte list \<times> string) list list \<Rightarrow> fate list \<Rightarrow> lossy" where
  "world_lossy W pending fates = \<lparr>ly_exchange = world_exchange W pending, ly_fates = fates\<rparr>"

text \<open>The world after \<^verbatim>\<open>connect()\<close>: the broker and what it has forwarded meanwhile, and the node if it has connected.\<close>

definition after_connect :: "string \<Rightarrow> string \<Rightarrow> bool \<Rightarrow> 'u node \<Rightarrow> 'u \<Rightarrow> exchange \<Rightarrow> 'u world \<Rightarrow> 'u world" where
  "after_connect server a ok n u ex W =
     W\<lparr>wo_broker := lk_broker (ex_link ex), wo_buffer := lk_buffer (ex_link ex),
       wo_nodes := (if ok then (wo_nodes W)(a \<mapsto> (n, u)) else wo_nodes W),
       wo_wire := wo_wire W @ map (\<lambda>(d, packet). (d, server, packet)) (data_packets (lk_others (ex_link ex)))\<rparr>"

text \<open>
  \<open>allowed\<close> says which messages the programs publish under which topic name, \<open>user_ok\<close> what is required of the
  data of the callbacks. A node whose \<^verbatim>\<open>connect()\<close> fails does not go on, and what waits for it is lost. The
  answers to strangers do not go on the wire.
\<close>

inductive world_step ::
    "(string \<Rightarrow> byte list \<Rightarrow> bool) \<Rightarrow> ('u \<Rightarrow> bool) \<Rightarrow> bool \<Rightarrow> string \<Rightarrow> 'u world \<Rightarrow> 'u world \<Rightarrow> bool"
  for allowed :: "string \<Rightarrow> byte list \<Rightarrow> bool" and user_ok :: "'u \<Rightarrow> bool" and dbg :: bool and server :: string where
  broker_receives:
    "(server, client, packet) \<in> set (wo_wire W) \<Longrightarrow>
     broker_spin_once mailbox_network dbg (wo_broker W, wo_buffer W, mailbox_with [(packet, client)]) = Inr (go_on, b, buf, w) \<Longrightarrow>
     world_step allowed user_ok dbg server W (W\<lparr>wo_broker := b, wo_buffer := buf, wo_wire := wo_wire W @ on_wire server w\<rparr>)"
| node_spins:
    "wo_nodes W a = Some (n, u) \<Longrightarrow>
     inbox = [] \<or> (\<exists>packet sender. inbox = [(packet, sender)] \<and> (a, sender, packet) \<in> set (wo_wire W)) \<Longrightarrow>
     spin_once mailbox_network (n, u, mailbox_with inbox) = Inr (r, n', u', w) \<Longrightarrow>
     world_step allowed user_ok dbg server W (W\<lparr>wo_nodes := (wo_nodes W)(a \<mapsto> (n', u')), wo_wire := wo_wire W @ on_wire a w\<rparr>)"
| program_publishes:
    "wo_nodes W a = Some (n, u) \<Longrightarrow> i < length (nd_publishers n) \<Longrightarrow>
     length data = unat (pu_message_size (nd_publishers n ! i)) \<Longrightarrow> allowed (pu_topic_name (nd_publishers n ! i)) data \<Longrightarrow>
     publish data (nd_publishers n ! i) = Inr (ok, p) \<Longrightarrow>
     world_step allowed user_ok dbg server W
       (W\<lparr>wo_nodes := (wo_nodes W)(a \<mapsto> (n\<lparr>nd_publishers := (nd_publishers n)[i := p]\<rparr>, u))\<rparr>)"
| stranger_calls:
    "stranger_call dbg W packet client \<Longrightarrow>
     broker_spin_once mailbox_network dbg (wo_broker W, wo_buffer W, mailbox_with [(packet, client)]) = Inr (go_on, b, buf, w) \<Longrightarrow>
     world_step allowed user_ok dbg server W (W\<lparr>wo_broker := b, wo_buffer := buf\<rparr>)"
| node_connects:
    "node_joins allowed user_ok server n u \<Longrightarrow> may_connect dbg server a n pending W \<Longrightarrow>
     node_connect (busy_link server a dbg) n (world_exchange W pending) = Inr (ok, n', ex) \<Longrightarrow>
     world_step allowed user_ok dbg server W (after_connect server a ok n' u ex W)"
| node_connects_with_losses:
    "node_joins allowed user_ok server n u \<Longrightarrow> may_connect dbg server a n pending W \<Longrightarrow>
     node_connect (lossy_link server a dbg) n (world_lossy W pending fates) = Inr (ok, n', ly) \<Longrightarrow>
     world_step allowed user_ok dbg server W (after_connect server a ok n' u (ly_exchange ly) W)"

section \<open>The loop of a node\<close>

lemma same_update:
  "same_publisher (ps ! i) p \<Longrightarrow> same_publishers ps (ps[i := p])"
  "same_subscriber (ss ! i) s \<Longrightarrow> list_all2 same_subscriber ss (ss[i := s])"
  unfolding list_all2_conv_all_nth
  by (metis length_list_update nth_list_update_eq nth_list_update_neq same_publisher_simps(1))
     (metis length_list_update nth_list_update_eq nth_list_update_neq same_subscriber_simps(1))

lemma node_fineD:
  assumes "node_fine allowed user_ok b server client n u"
  shows "node_inv n" and "node_agrees b client n" and "nd_broker_address n = server" and "user_ok u"
    and "p \<in> set (nd_publishers n) \<Longrightarrow> publisher_fine allowed p"
    and "s \<in> set (nd_subscribers n) \<Longrightarrow> subscriber_fine allowed s"
    and "s \<in> set (nd_subscribers n) \<Longrightarrow> callback_fine allowed user_ok (nd_publishers n) s"
  using assms by (simp_all add: node_fine_def)

lemma run_callbacks_fine:
  "node_fine allowed user_ok b server client n u \<Longrightarrow> \<forall>i\<in>set is. i < length (nd_subscribers n) \<Longrightarrow>
   \<exists>n' u'. run_callbacks is n u = Inr (True, n', u') \<and> node_fine allowed user_ok b server client n' u' \<and> same_node n n'"
proof (induction "is" arbitrary: n u)
  case Nil
  then show ?case by simp
next
  case (Cons i "is")
  note IH = Cons.IH and prems = Cons.prems
  let ?s = "nd_subscribers n ! i"
  have i: "i < length (nd_subscribers n)" using prems(2) by simp
  show ?case
  proof (cases "su_waiting ?s")
    case Nil
    with IH prems i show ?thesis by (simp add: messages_queued_waiting)
  next
    case (Cons m ms)
    note n = node_fineD [OF prems(1)]
    have s: "subscriber_fine allowed ?s" "callback_fine allowed user_ok (nd_publishers n) ?s" using n(6,7) i by simp_all
    then have ok: "node_subscriber_ok ?s" "allowed (su_topic_name ?s) m" "\<forall>x\<in>set ms. allowed (su_topic_name ?s) x"
      using Cons by (simp_all add: subscriber_fine_def)
    from run_callback_some [OF _ Cons, of "(nd_publishers n, u)"] ok(1) obtain q where
      q: "run_callback ?s (nd_publishers n, u) = rbind (su_callback ?s m (su_message_size ?s) (nd_publishers n, u))
          (\<lambda>ctx1. Inr (True, ?s\<lparr>su_message_queue := q\<rparr>, ctx1))"
        "subscriber_inv (?s\<lparr>su_message_queue := q\<rparr>)" "su_waiting (?s\<lparr>su_message_queue := q\<rparr>) = ms"
      by (auto simp: node_subscriber_ok_def)
    have "length m = unat (su_message_size ?s)" using waiting_length [OF ok(1), of m] Cons by simp
    with s(2) ok(2) n(4,5) obtain ps u1 where cb:
      "su_callback ?s m (su_message_size ?s) (nd_publishers n, u) = Inr (ps, u1)" "user_ok u1"
      "same_publishers (nd_publishers n) ps" "\<forall>p\<in>set ps. publisher_fine allowed p"
      unfolding callback_fine_def by (metis list.rel_refl same_publisher_simps(1))
    let ?s1 = "?s\<lparr>su_message_queue := q\<rparr>"
    let ?n1 = "n\<lparr>nd_subscribers := (nd_subscribers n)[i := ?s1], nd_publishers := ps\<rparr>"
    have s1: "node_subscriber_ok ?s1" "subscriber_fine allowed ?s1"
      using ok q(2,3) by (simp_all add: subscriber_fine_def node_subscriber_ok_def)
    have len: "length ps = length (nd_publishers n)" using cb(3) by (simp add: list_all2_lengthD)
    have same: "same_node n ?n1" using cb(3) same_update(2) [of "nd_subscribers n" i ?s1] by (simp add: same_node_def)
    have inv: "node_inv ?n1"
      using node_inv_publishers [OF node_inv_set_subscriber [OF n(1) s1(1), of i], of ps] cb(4) len
      by (simp add: publisher_fine_def)
    have subs: "\<forall>s\<in>set (nd_subscribers ?n1). subscriber_fine allowed s"
      using n(6) s1(2) set_update_subset_insert [of "nd_subscribers n" i ?s1] by auto
    have n1: "node_fine allowed user_ok b server client ?n1 u1"
      using node_fine_change [OF prems(1) same inv cb(2) _ subs] cb(4) by simp
    from IH [OF n1] prems(2) obtain n' u' where
      "run_callbacks is ?n1 u1 = Inr (True, n', u')" "node_fine allowed user_ok b server client n' u'" "same_node ?n1 n'" by auto
    then show ?thesis
      using q(1) cb(1) i Cons same_node_trans [OF same] by (simp add: messages_queued_waiting Let_def)
  qed
qed

text \<open>A message waiting at a publisher becomes a packet on the wire.\<close>

lemma waiting_packet_fine:
  assumes "node_fine allowed user_ok b server client n u" and i: "i < length (nd_publishers n)"
    and "pu_waiting (nd_publishers n ! i) = m # ms"
  shows "packet_fine allowed b (data_packet c (nd_publishers n ! i) m)"
proof -
  let ?p = "nd_publishers n ! i"
  note n = node_fineD [OF assms(1)]
  have p: "publisher_fine allowed ?p" using n(5) i by simp
  then have "length m = unat (pu_message_size ?p)"
    using waiting_message_length [of ?p m] assms(3) by (simp add: publisher_fine_def)
  moreover have "publisher_known b (nd_node_id n) ?p" using n(2) i by (simp add: node_agrees_def publishers_done_def)
  ultimately show ?thesis
    using p assms(3) unfolding packet_fine_def publisher_fine_def publisher_known_def
    by (intro exI [of _ c] exI [of _ ?p] exI [of _ m]) simp
qed

lemma send_messages_fine:
  "node_fine allowed user_ok b server client n u \<Longrightarrow> \<forall>i\<in>set is. i < length (nd_publishers n) \<Longrightarrow>
   \<exists>work' n' w'. send_messages mailbox_network is work n w = Inr (True, work', n', w') \<and>
     node_fine allowed user_ok b server client n' u \<and> same_node n n' \<and> emits allowed b w w'"
proof (induction "is" arbitrary: work n w)
  case Nil
  then show ?case by simp
next
  case (Cons i "is")
  note IH = Cons.IH and prems = Cons.prems
  let ?p = "nd_publishers n ! i"
  note n = node_fineD [OF prems(1)]
  have i: "i < length (nd_publishers n)" using prems(2) by simp
  show ?case
  proof (cases "pu_waiting ?p")
    case Nil
    with IH prems i show ?thesis by (simp add: messages_queued_waiting)
  next
    case (Cons m ms)
    have p: "publisher_fine allowed ?p" using n(5) i by simp
    then have ok: "node_publisher_ok ?p" by (simp add: publisher_fine_def)
    let ?packet = "data_packet (nd_bp_counter n + 1) ?p m"
    from send_messages_waiting [OF ok i Cons, of mailbox_network "is" work w] obtain q where
      q: "send_messages mailbox_network (i # is) work n w =
          send_messages mailbox_network is True (sent_with i q n) (w\<lparr>mb_sent := mb_sent w @ [(nd_broker_address n, ?packet)]\<rparr>)"
        "node_publisher_ok (?p\<lparr>pu_message_queue := q\<rparr>)" "pu_waiting (?p\<lparr>pu_message_queue := q\<rparr>) = ms"
      by (auto simp: mailbox_network_def)
    let ?n1 = "sent_with i q n" and ?w1 = "w\<lparr>mb_sent := mb_sent w @ [(nd_broker_address n, ?packet)]\<rparr>"
    have same: "same_node n ?n1"
      using same_update(1) [of "nd_publishers n" i "?p\<lparr>pu_message_queue := q\<rparr>"]
      by (simp add: same_node_def sent_with_def list.rel_refl)
    have inv: "node_inv ?n1"
      using node_inv_set_publisher [OF _ q(2), of "n\<lparr>nd_bp_counter := nd_bp_counter n + 1\<rparr>" i] n(1) by (simp add: sent_with_def)
    have "publisher_fine allowed (?p\<lparr>pu_message_queue := q\<rparr>)" using p q(2,3) Cons by (simp add: publisher_fine_def)
    then have pubs: "\<forall>p\<in>set (nd_publishers ?n1). publisher_fine allowed p"
      using n(5) set_update_subset_insert [of "nd_publishers n" i "?p\<lparr>pu_message_queue := q\<rparr>"] by (auto simp: sent_with_def)
    have n1: "node_fine allowed user_ok b server client ?n1 u"
      using node_fine_change [OF prems(1) same inv n(4) pubs] n(6) by (simp add: sent_with_def)
    have e: "emits allowed b w ?w1" using waiting_packet_fine [OF prems(1) i Cons] by (simp add: emits_def)
    have idx: "\<forall>i\<in>set is. i < length (nd_publishers ?n1)" using prems(2) by (simp add: sent_with_def)
    from IH [OF n1 idx] obtain work' n' w' where
      "send_messages mailbox_network is True ?n1 ?w1 = Inr (True, work', n', w')"
      "node_fine allowed user_ok b server client n' u" "same_node ?n1 n'" "emits allowed b ?w1 w'" by blast
    with q(1) same_node_trans [OF same] emits_trans [OF e] show ?thesis by auto
  qed
qed

lemma spin_topics_fine:
  "node_fine allowed user_ok b server client n u \<Longrightarrow>
   \<forall>ti\<in>snd ` set ts. ti_ok (length (nd_publishers n)) (length (nd_subscribers n)) ti \<Longrightarrow>
   \<exists>work' n' u' w'. spin_topics mailbox_network ts work n u w = Inr (True, work', n', u', w') \<and>
     node_fine allowed user_ok b server client n' u' \<and> emits allowed b w w'"
proof (induction ts arbitrary: work n u w)
  case Nil
  then show ?case by auto
next
  case (Cons t ts)
  obtain prio ti where t: "t = (prio, ti)" by (cases t)
  have idx: "\<forall>i\<in>set (ti_subscribers ti). i < length (nd_subscribers n)" "\<forall>i\<in>set (ti_publishers ti). i < length (nd_publishers n)"
    using Cons.prems(2) t by (simp_all add: ti_ok_def)
  from run_callbacks_fine [OF Cons.prems(1) idx(1)] obtain n1 u1 where
    1: "run_callbacks (ti_subscribers ti) n u = Inr (True, n1, u1)" "node_fine allowed user_ok b server client n1 u1"
      "same_node n n1" by blast
  note l1 = same_node_lengths [OF 1(3)]
  from send_messages_fine [OF 1(2), of "ti_publishers ti" work w] idx(2) l1 obtain work1 n2 w1 where
    2: "send_messages mailbox_network (ti_publishers ti) work n1 w = Inr (True, work1, n2, w1)"
      "node_fine allowed user_ok b server client n2 u1" "same_node n1 n2" "emits allowed b w w1" by auto
  note l2 = same_node_lengths [OF 2(3)]
  from Cons.IH [OF 2(2), of work1 w1] Cons.prems(2) l1 l2 obtain work' n' u' w' where
    "spin_topics mailbox_network ts work1 n2 u1 w1 = Inr (True, work', n', u', w')"
    "node_fine allowed user_ok b server client n' u'" "emits allowed b w1 w'" by auto
  with 1(1) 2(1) emits_trans [OF 2(4)] t show ?case by auto
qed

text \<open>Receiving changes the buffer and the queues of subscribers.\<close>

lemma receive_message_same: "receive_message nw blk n w = Inr (outcome, n', w') \<Longrightarrow> same_node n n'"
  by (auto simp: receive_message_def Let_def same_node_def list.rel_refl split: recv_result.splits if_splits elim!: rbind_InrE)

lemma queue_message_same: "queue_message data s = Inr (ok, s') \<Longrightarrow> same_subscriber s s'"
  by (auto simp: queue_message_def elim!: rbind_InrE)

lemma queue_all_same: "queue_all is data subs = Inr subs' \<Longrightarrow> list_all2 same_subscriber subs subs'"
proof (induction "is" arbitrary: subs)
  case Nil
  then show ?case by (simp add: list.rel_refl)
next
  case (Cons i "is")
  then obtain s1 ok where 1: "queue_message data (subs ! i) = Inr (ok, s1)" "queue_all is data (subs[i := s1]) = Inr subs'"
    by (auto simp: at_eq_Inr_iff elim!: rbind_InrE)
  from same_lists_trans(2) [OF same_update(2) [OF queue_message_same [OF 1(1)]] Cons.IH [OF 1(2)]] show ?case .
qed

lemma deliver_message_same: "deliver_message ti n = Inr (r, n') \<Longrightarrow> same_node n n'"
  by (auto simp: deliver_message_def same_node_def list.rel_refl simp del: queue_all.simps split: list.splits
      elim!: rbind_InrE dest: queue_all_same)

lemma process_incoming_same:
  "process_incoming_message nw n w = Inr (r, n', w') \<Longrightarrow> same_node n n'"
  by (auto simp: process_incoming_message_def split: receive_outcome.splits if_splits option.splits elim!: rbind_InrE
      dest!: receive_message_same deliver_message_same intro: same_node_trans)

lemma endpoint_same_id:
  "endpoint_known b n1 tn1 sz1 mt1 t \<Longrightarrow> endpoint_known b n2 tn2 sz2 mt2 t \<Longrightarrow> n1 = n2 \<and> sz1 = sz2"
  by (auto simp: endpoint_known_def)

text \<open>A message is queued at subscribers of its own topic only, whole.\<close>

lemma received_fine:
  assumes fine: "node_fine allowed user_ok b server client n u"
    and p: "endpoint_known b (pu_topic_name p) (pu_message_type_name p) (pu_message_size p) (pu_message_type_id p) (pu_topic_id p)"
    and m: "length m = unat (pu_message_size p)" "allowed (pu_topic_name p) m"
    and j: "j \<in> set (subscribers_on n (pu_topic_id p))"
  shows "\<forall>x\<in>set (received_by (nd_subscribers n ! j) (m @ rest)). allowed (su_topic_name (nd_subscribers n ! j)) x"
proof -
  let ?s = "nd_subscribers n ! j"
  have "j < length (nd_subscribers n)" "su_topic_id ?s = pu_topic_id p"
    using node_fineD(2) [OF fine] j by (auto simp: node_agrees_def subscribers_done_def)
  moreover from this have "subscriber_known b (nd_node_id n) ?s"
    using node_fineD(2) [OF fine] by (simp add: node_agrees_def subscribers_done_def)
  ultimately have "pu_topic_name p = su_topic_name ?s" "pu_message_size p = su_message_size ?s"
    "\<forall>x\<in>set (su_waiting ?s). allowed (su_topic_name ?s) x"
    using endpoint_same_id [OF p] node_fineD(6) [OF fine] by (auto simp: subscriber_known_def subscriber_fine_def)
  with m show ?thesis by (auto simp: received_by_def)
qed

definition inbox_fine :: "(string \<Rightarrow> byte list \<Rightarrow> bool) \<Rightarrow> broker \<Rightarrow> (byte list \<times> string) list \<Rightarrow> bool" where
  "inbox_fine allowed b inbox \<longleftrightarrow>
     inbox = [] \<or> (\<exists>packet sender. inbox = [(packet, sender)] \<and> packet_fine allowed b packet)"

lemma process_incoming_fine:
  assumes fine: "node_fine allowed user_ok b server client n u" and inbox: "inbox_fine allowed b inbox"
  shows "\<exists>r n'. process_incoming_message mailbox_network n (mailbox_with inbox) = Inr (r, n', mailbox_with []) \<and>
    node_fine allowed user_ok b server client n' u"
proof -
  note n = node_fineD [OF fine]
  have "\<exists>r n'. process_incoming_message mailbox_network n (mailbox_with inbox) = Inr (r, n', mailbox_with []) \<and> node_inv n' \<and>
    nd_publishers n' = nd_publishers n \<and> (\<forall>s\<in>set (nd_subscribers n'). subscriber_fine allowed s)"
  proof (cases "inbox = []")
    case True
    then have "process_incoming_message mailbox_network n (mailbox_with inbox) = Inr (0, n, mailbox_with [])"
      by (simp add: process_incoming_message_def receive_message_def mailbox_network_def mailbox_with_def write_at_def)
    with n(1,6) show ?thesis by blast
  next
    case False
    then obtain c p m sender where inbox': "inbox = [(data_packet c p m, sender)]"
      and p: "endpoint_known b (pu_topic_name p) (pu_message_type_name p) (pu_message_size p) (pu_message_type_id p) (pu_topic_id p)"
      and m: "length m = unat (pu_message_size p)" "17 + length m \<le> udp_buffer_size" "allowed (pu_topic_name p) m"
      using inbox by (auto simp: inbox_fine_def packet_fine_def)
    let ?t = "pu_topic_id p" and ?pk = "data_packet c p m" and ?w = "mailbox_with inbox"
    have w: "mb_inbox ?w = (?pk, sender) # []" "?w\<lparr>mb_inbox := []\<rparr> = mailbox_with []"
      using inbox' by (simp_all add: mailbox_with_def)
    have pk: "?pk = bp_data # htonl_bytes c @ htonl_bytes ?t @ htonl_bytes (pu_message_type_id p) @
        htonl_bytes (pu_message_size p) @ m" by (simp add: data_packet_def)
    have len: "length ?pk \<le> udp_buffer_size" "length ?pk \<noteq> 0" using m by (simp_all add: data_packet_def)
    show ?thesis
    proof (cases "subscribers_on n ?t = []")
      case True
      from receive_data_packet [OF n(1) pk m(1) [symmetric] len(1) w(1), of False] obtain d where
        d: "receive_message mailbox_network False n ?w =
          Inr (ReceivedPacket (length ?pk) bp_data d, n\<lparr>nd_buffer := ?pk @ drop (length ?pk) (nd_buffer n)\<rparr>, mailbox_with [])"
          "bpd_topic_id (dec_data_header d) = ?t" unfolding w(2) by blast
      have "process_incoming_message mailbox_network n ?w =
          Inr (- 1, n\<lparr>nd_buffer := ?pk @ drop (length ?pk) (nd_buffer n)\<rparr>, mailbox_with [])"
        using d True len(2)
        by (cases "nd_topics n ?t") (simp_all add: process_incoming_message_def deliver_message_def subscribers_on_def topic_get_def)
      then show ?thesis
        using node_inv_buffer [OF n(1), of "?pk @ drop (length ?pk) (nd_buffer n)"] len(1) n(1,6) by (simp add: node_inv_def)
    next
      case False
      then obtain ti where ti: "nd_topics n ?t = Some ti" "ti_subscribers ti = subscribers_on n ?t"
        by (auto simp: subscribers_on_def topic_get_def topic_info_empty_def split: option.splits)
      have "distinct (ti_subscribers ti)" "ti_subscribers ti \<noteq> []"
        using n(2) ti(2) False by (simp_all add: node_agrees_def subscribers_done_def)
      from process_data_packet [OF n(1) ti(1) this(2,1) pk m(1) [symmetric] len(1) w(1)] obtain n' where
        n': "process_incoming_message mailbox_network n ?w = Inr (1, n', mailbox_with [])" "node_inv n'"
          "nd_publishers n' = nd_publishers n"
          "\<forall>j<length (nd_subscribers n). if j \<in> set (ti_subscribers ti)
             then su_waiting (nd_subscribers n' ! j) = received_by (nd_subscribers n ! j) (m @ drop (length ?pk) (nd_buffer n))
             else nd_subscribers n' ! j = nd_subscribers n ! j"
        unfolding w(2) by blast
      note same = process_incoming_same [OF n'(1)]
      have "subscriber_fine allowed (nd_subscribers n' ! j)" if j: "j < length (nd_subscribers n)" for j
      proof -
        have ok: "node_subscriber_ok (nd_subscribers n' ! j)"
          using node_inv_subscriber [OF n'(2)] j same_node_lengths [OF same] by simp
        have old: "\<forall>x\<in>set (su_waiting (nd_subscribers n ! j)). allowed (su_topic_name (nd_subscribers n ! j)) x"
          using n(6) j by (simp add: subscriber_fine_def)
        have name: "su_topic_name (nd_subscribers n' ! j) = su_topic_name (nd_subscribers n ! j)"
          using same_subscriber_fields [OF same_node_nth(2) [OF same j]] by simp
        show ?thesis
        proof (cases "j \<in> set (ti_subscribers ti)")
          case True
          with received_fine [OF fine p m(1,3)] ti(2) n'(4) j ok name show ?thesis by (simp add: subscriber_fine_def)
        next
          case False
          with n'(4) j n(6) show ?thesis by simp
        qed
      qed
      then have "\<forall>s\<in>set (nd_subscribers n'). subscriber_fine allowed s"
        using same_node_lengths [OF same] by (auto simp: in_set_conv_nth)
      with n' show ?thesis by blast
    qed
  qed
  then obtain r n' where r: "process_incoming_message mailbox_network n (mailbox_with inbox) = Inr (r, n', mailbox_with [])"
    "node_inv n'" "nd_publishers n' = nd_publishers n" "\<forall>s\<in>set (nd_subscribers n'). subscriber_fine allowed s" by blast
  with node_fine_change [OF fine process_incoming_same [OF r(1)] r(2) n(4)] n(5) show ?thesis by simp
qed

lemma spin_once_fine:
  assumes "node_fine allowed user_ok b server client n u" and "inbox_fine allowed b inbox"
  shows "\<exists>r n' u' w. spin_once mailbox_network (n, u, mailbox_with inbox) = Inr (r, n', u', w) \<and> r \<noteq> SpinError \<and>
    node_fine allowed user_ok b server client n' u' \<and> emits allowed b (mailbox_with []) w"
proof -
  from process_incoming_fine [OF assms] obtain p n1 where
    1: "process_incoming_message mailbox_network n (mailbox_with inbox) = Inr (p, n1, mailbox_with [])"
      "node_fine allowed user_ok b server client n1 u" by blast
  have "\<forall>ti\<in>snd ` set (nd_topics_by_prio n1). ti_ok (length (nd_publishers n1)) (length (nd_subscribers n1)) ti"
    using node_fineD(1) [OF 1(2)] by (auto simp: node_inv_def)
  from spin_topics_fine [OF 1(2) this, of "0 < p" "mailbox_with []"] 1(1) show ?thesis
    by (auto simp: spin_once_def)
qed

section \<open>The loop of the broker\<close>

lemma handle_rejected_packet:
  fixes sz :: u32
  assumes "verify_and_update_client_counter client c b = (False, b1)"
    and packet: "packet = bp_data # htonl_bytes c @ htonl_bytes topic_id @ htonl_bytes mt @ htonl_bytes sz @ payload"
    and sz: "unat sz = length payload" "length packet < 2 ^ 32"
  shows "handle_packet nw dbg client (packet @ rest) (length packet) b w = Inr (True, b1, w)"
proof -
  have "unat (9 + sz) = 9 + length payload"
    using sz packet by (simp add: unat_word_ariths)
  then have "decode_packet_buffer (packet @ rest) (length packet) =
      Inr (bp_data, decoded_zero\<lparr>dec_header := \<lparr>bph_type = bp_data, bph_counter = c\<rparr>,
        dec_data_header := \<lparr>bpd_topic_id = topic_id, bpd_message_type_id = mt, bpd_size = sz\<rparr>\<rparr>)"
    unfolding packet append_Cons append_assoc decode_data_prefix by simp
  then show ?thesis by (simp add: handle_packet_def assms(1))
qed

lemma verify_changes_counters:
  "\<exists>ok cs. verify_and_update_client_counter client c b = (ok, b\<lparr>br_client_counters := cs\<rparr>)"
proof (cases "fst (verify_and_update_client_counter client c b)")
  case True
  then show ?thesis by (auto simp: verify_and_update_client_counter_def split: option.splits if_splits)
next
  case False
  then have "verify_and_update_client_counter client c b = (False, b)"
    by (auto simp: verify_and_update_client_counter_def split: option.splits if_splits)
  then show ?thesis by (intro exI [of _ False] exI [of _ "br_client_counters b"]) simp
qed

lemma counters_do_not_matter [simp]:
  "broker_inv (b\<lparr>br_client_counters := cs\<rparr>) = broker_inv b"
  "endpoint_known (b\<lparr>br_client_counters := cs\<rparr>) tn mn sz mt t = endpoint_known b tn mn sz mt t"
  "packet_fine allowed (b\<lparr>br_client_counters := cs\<rparr>) packet = packet_fine allowed b packet"
  "node_agrees (b\<lparr>br_client_counters := cs\<rparr>) client n = node_agrees b client n"
  "node_fine allowed user_ok (b\<lparr>br_client_counters := cs\<rparr>) server client n u = node_fine allowed user_ok b server client n u"
  by (simp_all add: broker_inv_def topic_ok_def endpoint_known_def packet_fine_def node_agrees_def publishers_done_def
      subscribers_done_def publisher_known_def subscriber_known_def node_fine_def)

lemma broker_step_fine:
  assumes inv: "broker_inv b" and buf: "length buf = udp_buffer_size" and fine: "packet_fine allowed b packet"
  shows "\<exists>cs buf' w. broker_spin_once mailbox_network dbg (b, buf, mailbox_with [(packet, client)]) =
      Inr (True, b\<lparr>br_client_counters := cs\<rparr>, buf', w) \<and> length buf' = udp_buffer_size \<and>
    (\<forall>(a, p)\<in>set (mb_sent w). p = packet)"
proof -
  from fine obtain c p m where packet: "packet = data_packet c p m"
    and p: "endpoint_known b (pu_topic_name p) (pu_message_type_name p) (pu_message_size p) (pu_message_type_id p) (pu_topic_id p)"
    and m: "length m = unat (pu_message_size p)" "17 + length m \<le> udp_buffer_size"
    by (auto simp: packet_fine_def)
  have len: "length packet \<le> udp_buffer_size" "length packet < 2 ^ 32"
    using m by (simp_all add: packet data_packet_def udp_buffer_size_def)
  let ?rest = "drop (length packet) buf"
  have pk: "packet = bp_data # htonl_bytes c @ htonl_bytes (pu_topic_id p) @ htonl_bytes (pu_message_type_id p) @
      htonl_bytes (pu_message_size p) @ m" by (simp add: packet data_packet_def)
  have recv: "nw_recvfrom mailbox_network udp_buffer_size True (mailbox_with [(packet, client)]) =
      Inr (Received packet client, mailbox_with [])"
    using len(1) by (simp add: mailbox_network_def mailbox_with_def)
  have stored: "write_at 0 packet buf = Inr (packet @ ?rest)" "length (packet @ ?rest) = udp_buffer_size"
    using len(1) buf by (simp_all add: write_at_def)
  obtain ok cs where v: "verify_and_update_client_counter client c b = (ok, b\<lparr>br_client_counters := cs\<rparr>)"
    using verify_changes_counters by blast
  have "\<exists>w. handle_packet mailbox_network dbg client (packet @ ?rest) (length packet) b (mailbox_with []) =
      Inr (True, b\<lparr>br_client_counters := cs\<rparr>, w) \<and> (\<forall>(a, p)\<in>set (mb_sent w). p = packet)"
  proof (cases ok)
    case False
    with v have "verify_and_update_client_counter client c b = (False, b\<lparr>br_client_counters := cs\<rparr>)" by simp
    from handle_rejected_packet [OF this pk m(1) [symmetric] len(2)] show ?thesis
      by (intro exI [of _ "mailbox_with []"]) (simp add: mailbox_with_def)
  next
    case True
    have t: "unat (pu_topic_id p) < length (br_topics b)"
      "pu_message_type_id p = t_message_type_id (br_topics b ! unat (pu_topic_id p))"
      using p by (simp_all add: endpoint_known_def)
    let ?b = "b\<lparr>br_client_counters := cs\<rparr>" and ?w = "mailbox_with []"
    let ?as = "subscriber_addresses ?b (br_topics b ! unat (pu_topic_id p))"
    have "handle_packet mailbox_network dbg client (packet @ ?rest) (length packet) b ?w =
        Inr (True, ?b, ?w\<lparr>mb_sent := mb_sent ?w @ map (\<lambda>a. (a, packet)) ?as\<rparr>)"
      using handle_data_packet [OF _ pk m(1) [symmetric] len(2), of client b ?b mailbox_network dbg ?rest ?w] v True
        forward_data_accepted [of ?b "\<lparr>bpd_topic_id = pu_topic_id p, bpd_message_type_id = pu_message_type_id p,
          bpd_size = pu_message_size p\<rparr>" "length packet" "packet @ ?rest" mailbox_network dbg ?w] inv t
      by (simp add: send_each_mailbox)
    then show ?thesis
      by (rule_tac exI [of _ "?w\<lparr>mb_sent := mb_sent ?w @ map (\<lambda>a. (a, packet)) ?as\<rparr>"]) (auto simp: mailbox_with_def)
  qed
  with recv stored show ?thesis by (fastforce simp: broker_spin_once_def)
qed

section \<open>The invariant\<close>

definition world_ok :: "(string \<Rightarrow> byte list \<Rightarrow> bool) \<Rightarrow> ('u \<Rightarrow> bool) \<Rightarrow> string \<Rightarrow> 'u world \<Rightarrow> bool" where
  "world_ok allowed user_ok server W \<longleftrightarrow>
     broker_inv (wo_broker W) \<and> length (wo_buffer W) = udp_buffer_size \<and>
     (\<forall>a n u. wo_nodes W a = Some (n, u) \<longrightarrow> node_fine allowed user_ok (wo_broker W) server a n u) \<and>
     (\<forall>(d, s, packet)\<in>set (wo_wire W). packet_fine allowed (wo_broker W) packet)"

lemma world_okD:
  assumes "world_ok allowed user_ok server W"
  shows "broker_inv (wo_broker W)" and "length (wo_buffer W) = udp_buffer_size"
    and "wo_nodes W a = Some (n, u) \<Longrightarrow> node_fine allowed user_ok (wo_broker W) server a n u"
    and "(d, s, packet) \<in> set (wo_wire W) \<Longrightarrow> packet_fine allowed (wo_broker W) packet"
  using assms by (auto simp: world_ok_def)

section \<open>Connecting in a running world\<close>

lemma packet_fine_head:
  assumes "packet_fine allowed b packet"
  shows "take 1 packet = [bp_data]" and "take udp_buffer_size packet = packet"
  using assms by (auto simp: packet_fine_def data_packet_def)

lemma packet_fine_evolves: "packet_fine allowed b packet \<Longrightarrow> broker_evolves b b' \<Longrightarrow> packet_fine allowed b' packet"
  unfolding packet_fine_def using endpoint_evolves by blast

lemma packet_fine_tolerated:
  assumes "packet_fine allowed b packet"
  shows "tolerated dbg b (packet, sender)"
  unfolding tolerated_def
proof (intro allI impI)
  fix b1 buf
  assume "broker_inv b1 \<and> broker_evolves b b1 \<and> length (buf :: byte list) = udp_buffer_size"
  with broker_step_fine [of b1 buf allowed packet dbg sender] packet_fine_evolves [OF assms, of b1]
  show "\<exists>s. broker_spin_once mailbox_network dbg (b1, buf, \<lparr>mb_inbox = [(packet, sender)], mb_sent = []\<rparr>) = Inr s"
    by (auto simp: mailbox_with_def)
qed

lemma caused_by_fine: "packet_fine allowed b packet \<Longrightarrow> caused (packet, sender) sent \<Longrightarrow> snd sent = packet"
  using packet_fine_head [of allowed b packet] by (auto simp: caused_def bp_type_defs)

lemma node_fine_evolves:
  "node_fine allowed user_ok b server a n u \<Longrightarrow> broker_evolves b b' \<Longrightarrow> node_fine allowed user_ok b' server a n u"
  using node_agrees_evolves by (auto simp: node_fine_def)

lemma identified_fine:
  "identified_publisher p p' \<Longrightarrow> publisher_fine allowed p' = publisher_fine allowed p"
  "identified_subscriber s s' \<Longrightarrow> subscriber_fine allowed s' = subscriber_fine allowed s"
  by (auto simp: identified_publisher_def identified_subscriber_def publisher_fine_def subscriber_fine_def
      pu_waiting_def su_waiting_def node_publisher_ok_def publisher_inv_def pu_packet_size_def
      node_subscriber_ok_def subscriber_inv_def)

lemma identified_callback:
  "identified_subscriber s s' \<Longrightarrow> callback_fine allowed user_ok ps s' = callback_fine allowed user_ok ps s"
  unfolding identified_subscriber_def by (elim exE) (simp add: callback_fine_def)

lemma joined_fine:
  assumes joins: "node_joins allowed user_ok server n u" and "registers n n'" and "node_inv n'" and "node_agrees b a n'"
  shows "node_fine allowed user_ok b server a n' u"
proof -
  have ids: "list_all2 identified_publisher (nd_publishers n) (nd_publishers n')"
    "list_all2 identified_subscriber (nd_subscribers n) (nd_subscribers n')" "nd_broker_address n' = server"
    using assms(2) joins by (simp_all add: registers_def node_joins_def)
  have "publisher_fine allowed p" if "p \<in> set (nd_publishers n')" for p
    using ids(1) that joins identified_fine(1) unfolding node_joins_def list_all2_conv_all_nth in_set_conv_nth
    by (metis nth_mem)
  moreover have "subscriber_fine allowed s \<and> callback_fine allowed user_ok (nd_publishers n') s"
    if s: "s \<in> set (nd_subscribers n')" for s
  proof -
    obtain j where "j < length (nd_subscribers n')" "s = nd_subscribers n' ! j" using s by (auto simp: in_set_conv_nth)
    with ids(2) have "nd_subscribers n ! j \<in> set (nd_subscribers n)" "identified_subscriber (nd_subscribers n ! j) s"
      by (auto simp: list_all2_conv_all_nth)
    with joins ids(1) identified_fine(2) identified_callback show ?thesis unfolding node_joins_def by blast
  qed
  ultimately show ?thesis using assms joins ids(3) by (simp add: node_fine_def node_joins_def)
qed

lemma joins_linked:
  assumes "world_ok allowed user_ok server W" and "node_joins allowed user_ok server n u" and "may_connect dbg server a n pending W"
  shows "link_ok server a n \<lparr>lk_broker = wo_broker W, lk_buffer = wo_buffer W, lk_inbox = [], lk_others = []\<rparr>"
  using assms by (simp add: link_ok_def world_ok_def may_connect_def node_joins_def node_inv_def)

lemma connect_circumstances:
  assumes W: "world_ok allowed user_ok server W" and joins: "node_joins allowed user_ok server n u"
    and may: "may_connect dbg server a n pending W"
  shows "r \<in> set (concat pending) \<Longrightarrow>
      snd r \<noteq> a \<and> (packet_fine allowed (wo_broker W) (fst r) \<or> stranger_call dbg W (fst r) (snd r))"
    and "pending_ok a dbg (wo_broker W) pending"
proof -
  have pend: "snd r \<noteq> a \<and> (packet_fine allowed (wo_broker W) (fst r) \<or> stranger_call dbg W (fst r) (snd r))"
    if "r \<in> set (concat pending)" for r
    using may W that by (fastforce simp: may_connect_def world_ok_def)
  then show "r \<in> set (concat pending) \<Longrightarrow>
      snd r \<noteq> a \<and> (packet_fine allowed (wo_broker W) (fst r) \<or> stranger_call dbg W (fst r) (snd r))" .
  show "pending_ok a dbg (wo_broker W) pending"
    unfolding pending_ok_def
  proof
    fix r assume "r \<in> set (concat pending)"
    with pend [of r] packet_fine_tolerated [of allowed "wo_broker W" "fst r" dbg "snd r"]
    show "snd r \<noteq> a \<and> tolerated dbg (wo_broker W) r" by (auto simp: stranger_call_def)
  qed
qed

text \<open>Whatever the link, a \<^verbatim>\<open>connect()\<close> during which the broker served the pending packets fits into the world.\<close>

lemma connected_fine:
  assumes W: "world_ok allowed user_ok server W" and joins: "node_joins allowed user_ok server n u"
    and may: "may_connect dbg server a n pending W"
    and run: "node_connect nw n w = Inr (ok, n', w')" and step: "exchange_step (world_exchange W pending) ex"
    and broker: "broker_inv (lk_broker (ex_link ex))" "length (lk_buffer (ex_link ex)) = udp_buffer_size"
    and agrees: "nd_broker_address n' = server" "ok \<longrightarrow> node_agrees (lk_broker (ex_link ex)) a n'"
  shows "world_ok allowed user_ok server (after_connect server a ok n' u ex W)"
proof -
  have evolves: "broker_evolves (wo_broker W) (lk_broker (ex_link ex))"
    using step by (simp add: exchange_step_def world_exchange_def)
  have out: "packet_fine allowed (wo_broker W) packet" if out: "(d, packet) \<in> set (data_packets (lk_others (ex_link ex)))" for d packet
  proof -
    have data: "take 1 packet = [bp_data]" and "(d, packet) \<in> set (lk_others (ex_link ex))"
      using out by (simp_all add: data_packets_def)
    then have "\<exists>r\<in>set (concat pending). caused r (d, packet)"
      using step by (auto simp: exchange_step_def world_exchange_def)
    then obtain r where r: "r \<in> set (concat pending)" "caused r (d, packet)" by blast
    have "\<not> stranger_call dbg W (fst r) (snd r)" using r(2) data by (auto simp: stranger_call_def caused_def bp_type_defs)
    with connect_circumstances(1) [OF W joins may r(1)] caused_by_fine [of allowed "wo_broker W" "fst r" "snd r" "(d, packet)"] r(2)
    show ?thesis by simp
  qed
  have "node_inv n" using joins by (simp add: node_joins_def)
  then have "node_inv n'"
    using keepsD [OF node_connect_keeps [of "length (nd_publishers n)" "length (nd_subscribers n)" n] run] by (simp add: node_ok_def)
  then have node: "ok \<longrightarrow> node_fine allowed user_ok (lk_broker (ex_link ex)) server a n' u"
    using joined_fine [OF joins node_connect_registers [OF run]] agrees by auto
  have "packet_fine allowed (lk_broker (ex_link ex)) packet"
    if "(d, s, packet) \<in> set (wo_wire W @ map (\<lambda>(d, packet). (d, server, packet)) (data_packets (lk_others (ex_link ex))))" for d s packet
    using that out packet_fine_evolves [OF _ evolves] world_okD(4) [OF W] by fastforce
  moreover have "node_fine allowed user_ok (lk_broker (ex_link ex)) server c m v"
    if "(if ok then (wo_nodes W)(a \<mapsto> (n', u)) else wo_nodes W) c = Some (m, v)" for c m v
  proof -
    have "node_fine allowed user_ok (lk_broker (ex_link ex)) server c m v" if "wo_nodes W c = Some (m, v)"
      by (rule node_fine_evolves [OF world_okD(3) [OF W that] evolves])
    with that node show ?thesis by (auto split: if_splits)
  qed
  ultimately show ?thesis using broker by (simp add: world_ok_def after_connect_def) blast
qed

text \<open>On either link \<^verbatim>\<open>connect()\<close> returns, and the world stays fine.\<close>

lemma connect_fine:
  assumes W: "world_ok allowed user_ok server W" and joins: "node_joins allowed user_ok server n u"
    and may: "may_connect dbg server a n pending W"
  shows "\<exists>ok n' ex. node_connect (busy_link server a dbg) n (world_exchange W pending) = Inr (ok, n', ex) \<and>
      world_ok allowed user_ok server (after_connect server a ok n' u ex W)"
    and "\<exists>ok n' ly. node_connect (lossy_link server a dbg) n (world_lossy W pending fates) = Inr (ok, n', ly) \<and>
      world_ok allowed user_ok server (after_connect server a ok n' u (ly_exchange ly) W)"
proof -
  let ?lk = "\<lparr>lk_broker = wo_broker W, lk_buffer = wo_buffer W, lk_inbox = [], lk_others = []\<rparr>"
  have n: "connectable n" using joins by (simp add: node_joins_def)
  have link: "link_ok server a n ?lk" by (rule joins_linked [OF W joins may])
  have pending: "pending_ok a dbg (lk_broker ?lk) pending" using connect_circumstances(2) [OF W joins may] by simp
  have room: "room (length (concat pending) + Suc (2 * length (nd_publishers n) + 2 * length (nd_subscribers n))) (lk_broker ?lk)"
    using may by (simp add: may_connect_def)
  from connect_served_busy [OF link n pending room] obtain ok n' ex where
    1: "node_connect (busy_link server a dbg) n (world_exchange W pending) = Inr (ok, n', ex)"
    "exchange_step (world_exchange W pending) ex" "link_live server a n' (ex_link ex)"
    "ok \<longrightarrow> node_agrees (lk_broker (ex_link ex)) a n'"
    unfolding world_exchange_def by blast
  with connected_fine [OF W joins may 1(1,2) _ _ _ 1(4)] show
    "\<exists>ok n' ex. node_connect (busy_link server a dbg) n (world_exchange W pending) = Inr (ok, n', ex) \<and>
      world_ok allowed user_ok server (after_connect server a ok n' u ex W)"
    by (auto simp: link_live_def)
  from connect_served_lossy [OF link n pending room, of fates] obtain ok n' ly where
    2: "node_connect (lossy_link server a dbg) n (world_lossy W pending fates) = Inr (ok, n', ly)"
    "exchange_step (world_exchange W pending) (ly_exchange ly)" "lossy_after server n' ly"
    "ok \<longrightarrow> node_agrees (lk_broker (ex_link (ly_exchange ly))) a n'"
    unfolding world_exchange_def world_lossy_def by blast
  with connected_fine [OF W joins may 2(1,2) _ _ _ 2(4)] show
    "\<exists>ok n' ly. node_connect (lossy_link server a dbg) n (world_lossy W pending fates) = Inr (ok, n', ly) \<and>
      world_ok allowed user_ok server (after_connect server a ok n' u (ly_exchange ly) W)"
    by (auto simp: lossy_after_def)
qed

section \<open>Every step keeps it\<close>

lemma publish_fine:
  assumes p: "publisher_fine allowed p" and data: "length data = unat (pu_message_size p)" "allowed (pu_topic_name p) data"
    and "publish data p = Inr (ok, p')"
  shows "publisher_fine allowed p' \<and> same_publisher p p'"
proof (cases "length (pu_waiting p) < message_queue_capacity")
  case True
  with p publish_room [of p data] data assms(4) show ?thesis by (auto simp: publisher_fine_def node_publisher_ok_def)
next
  case False
  with p pu_waiting_bounded [of p] have "length (pu_waiting p) = message_queue_capacity"
    by (simp add: publisher_fine_def node_publisher_ok_def)
  with p publish_full [of p data] assms(4) show ?thesis by (simp add: publisher_fine_def node_publisher_ok_def)
qed

lemma world_step_ok:
  assumes "world_step allowed user_ok dbg server W W'" and "world_ok allowed user_ok server W"
  shows "world_ok allowed user_ok server W'"
  using assms
proof (induction rule: world_step.induct)
  case (broker_receives client packet W go_on b buf w)
  note W = world_okD [OF broker_receives.prems]
  have pk: "packet_fine allowed (wo_broker W) packet" using W(4) broker_receives.hyps(1) .
  from broker_step_fine [OF W(1,2) pk, of dbg client] broker_receives.hyps(2) obtain cs where
    1: "b = (wo_broker W)\<lparr>br_client_counters := cs\<rparr>" "length buf = udp_buffer_size" "\<forall>(a, p)\<in>set (mb_sent w). p = packet" by auto
  have "\<forall>x\<in>set (on_wire server w). case x of (d, s, p) \<Rightarrow> p = packet"
    using 1(3) by (auto simp: on_wire_def)
  with 1 pk broker_receives.prems show ?case by (fastforce simp: world_ok_def)
next
  case (node_spins W a n u inbox r n' u' w)
  note W = world_okD [OF node_spins.prems]
  have "inbox_fine allowed (wo_broker W) inbox" using node_spins.hyps(2) W(4) by (auto simp: inbox_fine_def)
  from spin_once_fine [OF W(3) [OF node_spins.hyps(1)] this] node_spins.hyps(3) have
    1: "node_fine allowed user_ok (wo_broker W) server a n' u'" "emits allowed (wo_broker W) (mailbox_with []) w" by auto
  have "\<forall>x\<in>set (on_wire a w). case x of (d, s, p) \<Rightarrow> packet_fine allowed (wo_broker W) p"
    using 1(2) by (auto simp: on_wire_def emits_def mailbox_with_def)
  with 1(1) node_spins.prems show ?case by (auto simp: world_ok_def)
next
  case (program_publishes W a n u i data ok p)
  note W = world_okD [OF program_publishes.prems]
  have fine: "node_fine allowed user_ok (wo_broker W) server a n u" using W(3) program_publishes.hyps(1) .
  note n = node_fineD [OF fine]
  let ?n = "n\<lparr>nd_publishers := (nd_publishers n)[i := p]\<rparr>"
  have p: "publisher_fine allowed p" "same_publisher (nd_publishers n ! i) p"
    using publish_fine [OF n(5) program_publishes.hyps(3-5)] program_publishes.hyps(2) by simp_all
  have "same_node n ?n" using same_update(1) [OF p(2)] by (simp add: same_node_def list.rel_refl)
  moreover have "node_inv ?n" using node_inv_set_publisher [OF n(1)] p(1) by (simp add: publisher_fine_def)
  moreover have "\<forall>p\<in>set (nd_publishers ?n). publisher_fine allowed p"
    using n(5) p(1) set_update_subset_insert [of "nd_publishers n" i p] by auto
  ultimately have "node_fine allowed user_ok (wo_broker W) server a ?n u"
    using node_fine_change [OF fine, of ?n u] n(4,6) by simp
  with program_publishes.prems show ?case by (simp add: world_ok_def)
next
  case (stranger_calls W packet client go_on b buf w)
  note W = world_okD [OF stranger_calls.prems]
  have "broker_step_ok (wo_broker W) b" "length buf = length (wo_buffer W)"
    using broker_spin_once_step_ok [OF stranger_calls.hyps(2)] by simp_all
  then have 1: "broker_inv b" "broker_evolves (wo_broker W) b" "length buf = udp_buffer_size"
    using W(1,2) by (simp_all add: broker_step_ok_def)
  show ?case
    using stranger_calls.prems 1 node_fine_evolves [OF _ 1(2)] packet_fine_evolves [OF _ 1(2)]
    by (fastforce simp: world_ok_def)
next
  case (node_connects n u a pending W ok n' ex)
  from connect_fine(1) [OF node_connects.prems node_connects.hyps(1,2)] node_connects.hyps(3) show ?case by auto
next
  case (node_connects_with_losses n u a pending W fates ok n' ly)
  from connect_fine(2) [OF node_connects_with_losses.prems node_connects_with_losses.hyps(1,2), of fates]
    node_connects_with_losses.hyps(3) show ?case by auto
qed

lemma reachable_world_ok:
  assumes "(world_step allowed user_ok dbg server)\<^sup>*\<^sup>* W0 W" and "world_ok allowed user_ok server W0"
  shows "world_ok allowed user_ok server W"
  using assms by (induction rule: rtranclp_induct) (auto intro: world_step_ok)

end
