(* ===== verification/World_Run.thy ===== *)
theory World_Run
  imports Interleaving
begin

text \<open>
  What holds in every world that grows out of a freshly started broker, and one such world in full: a node
  with a subscriber connects, a node with a publisher connects, its program publishes, it sends, the broker
  forwards, and the callback of the first node gets the message.
\<close>

section \<open>The beginning\<close>

text \<open>The broker as its constructor leaves it, whatever is in its receive buffer; no nodes, nothing on the wire.\<close>

definition first_world :: "string \<Rightarrow> protocol \<Rightarrow> u16 \<Rightarrow> byte list \<Rightarrow> 'u world" where
  "first_world ip proto port buf =
     \<lparr>wo_broker = broker_new ip proto port, wo_buffer = buf, wo_nodes = Map.empty, wo_wire = []\<rparr>"

lemma first_world_ok: "length buf = udp_buffer_size \<Longrightarrow> world_ok allowed user_ok server (first_world ip proto port buf)"
  by (simp add: first_world_def world_ok_def)

section \<open>Steps that succeed\<close>

text \<open>A node with a message waiting and nothing to receive sends it.\<close>

lemma sender_spins:
  assumes inv: "node_inv n" and i: "i < length (nd_publishers n)" and waiting: "pu_waiting (nd_publishers n ! i) = m # ms"
    and prio: "nd_topics_by_prio n = [(q, \<lparr>ti_publishers = [i], ti_subscribers = []\<rparr>)]"
  shows "\<exists>n'. spin_once mailbox_network (n, u, mailbox_with []) = Inr (SpinSuccess, n', u,
      \<lparr>mb_inbox = [], mb_sent = [(nd_broker_address n, data_packet (nd_bp_counter n + 1) (nd_publishers n ! i) m)]\<rparr>)"
proof -
  have idle: "process_incoming_message mailbox_network n (mailbox_with []) = Inr (0 :: int, n, mailbox_with [])"
    by (simp add: process_incoming_message_def receive_message_def mailbox_network_def mailbox_with_def write_at_def)
  have ok: "node_publisher_ok (nd_publishers n ! i)" using node_inv_publisher [OF inv i] .
  have sendto: "nw_sendto mailbox_network a packet w = Inr (True, w\<lparr>mb_sent := mb_sent w @ [(a, packet)]\<rparr>)" for a packet w
    by (simp add: mailbox_network_def)
  from send_messages_waiting [OF ok i waiting, of mailbox_network "[]" False "mailbox_with []"] obtain q2 where
    "send_messages mailbox_network [i] False n (mailbox_with []) = Inr (True, True, sent_with i q2 n,
      \<lparr>mb_inbox = [], mb_sent = [(nd_broker_address n, data_packet (nd_bp_counter n + 1) (nd_publishers n ! i) m)]\<rparr>)"
    by (auto simp: sendto mailbox_with_def simp del: send_messages.simps(2))
  then have "spin_topics mailbox_network (nd_topics_by_prio n) False n u (mailbox_with []) =
      Inr (True, True, sent_with i q2 n, u,
        \<lparr>mb_inbox = [], mb_sent = [(nd_broker_address n, data_packet (nd_bp_counter n + 1) (nd_publishers n ! i) m)]\<rparr>)"
    by (simp add: prio del: send_messages.simps(2))
  moreover have "spin_once mailbox_network (n, u, mailbox_with []) =
      rbind (spin_topics mailbox_network (nd_topics_by_prio n) False n u (mailbox_with [])) (\<lambda>(ok, work, n2, u1, w2).
        Inr (if \<not> ok then SpinError else if work then SpinSuccess else SpinNoWork, n2, u1, w2))"
    using idle by (simp add: spin_once_def)
  ultimately show ?thesis by simp
qed

text \<open>A packet for a subscriber with a recording callback is recorded.\<close>

definition recording :: "byte list list callback" where
  "recording m msize ctx = (case ctx of (ps, u) \<Rightarrow> Inr (ps, u @ [m]))"

lemma recorder_spins:
  fixes n :: "byte list list node"
  assumes inv: "node_inv n" and agrees: "node_agrees b client n" and s: "nd_subscribers n = [s]" "su_callback s = recording"
    and empty: "su_waiting s = []" and p: "pu_topic_id p = su_topic_id s" "pu_message_size p = su_message_size s"
    and m: "length m = unat (pu_message_size p)"
    and prio: "nd_topics_by_prio n = [(q, \<lparr>ti_publishers = [], ti_subscribers = [0]\<rparr>)]"
  shows "\<exists>n' w. spin_once mailbox_network (n, u, mailbox_with [(data_packet c p m, sender)]) = Inr (SpinSuccess, n', u @ [m], w)"
proof -
  let ?w = "mailbox_with [(data_packet c p m, sender)]"
  have inbox: "mb_inbox ?w = (data_packet c p m, sender) # []" by (simp add: mailbox_with_def)
  have s0: "0 < length (nd_subscribers n)" "nd_subscribers n ! 0 = s" using s by simp_all
  from subscribed_receives [OF inv agrees s0 p m inbox] empty obtain n1 where
    1: "process_incoming_message mailbox_network n ?w = Inr (1, n1, ?w\<lparr>mb_inbox := []\<rparr>)" "su_waiting (nd_subscribers n1 ! 0) = [m]"
    by (auto simp: message_queue_capacity_def)
  note same = process_incoming_same [OF 1(1)]
  have n1: "node_inv n1"
    using keepsD [OF process_incoming_keeps [of "length (nd_publishers n)" "length (nd_subscribers n)" n] 1(1)] inv
    by (simp add: node_ok_def)
  have len: "length (nd_subscribers n1) = 1" using same_node_lengths [OF same] s by simp
  have cb: "su_callback (nd_subscribers n1 ! 0) = recording"
    using same_subscriber_fields [OF same_node_nth(2) [OF same s0(1)]] s by simp
  have "subscriber_inv (nd_subscribers n1 ! 0)"
    using node_inv_subscriber [OF n1, of 0] len by (simp add: node_subscriber_ok_def)
  from run_callback_some [OF this 1(2), of "(nd_publishers n1, u)"] cb obtain q' where
    "run_callback (nd_subscribers n1 ! 0) (nd_publishers n1, u) =
      Inr (True, (nd_subscribers n1 ! 0)\<lparr>su_message_queue := q'\<rparr>, nd_publishers n1, u @ [m])" by (auto simp: recording_def)
  moreover have "nd_topics_by_prio n1 = nd_topics_by_prio n" using same by (simp add: same_node_def)
  ultimately show ?thesis
    using 1 len prio by (simp add: spin_once_def messages_queued_waiting Let_def)
qed

text \<open>A data packet of a connected node whose counter comes next is forwarded to the nodes that agree on the topic.\<close>

lemma broker_forwards:
  assumes link: "link_ok server client n \<lparr>lk_broker = b, lk_buffer = buf, lk_inbox = [], lk_others = []\<rparr>"
    and p: "publisher_known b i p" and m: "length m = unat (pu_message_size p)" "17 + length m \<le> udp_buffer_size"
    and other: "node_agrees b clientB nB" "j < length (nd_subscribers nB)" "su_topic_id (nd_subscribers nB ! j) = pu_topic_id p"
      "clientB \<noteq> client"
  shows "\<exists>go_on b' buf' w. broker_spin_once mailbox_network dbg (b, buf, mailbox_with [(data_packet (nd_bp_counter n + 1) p m, client)]) =
      Inr (go_on, b', buf', w) \<and> (clientB, data_packet (nd_bp_counter n + 1) p m) \<in> set (mb_sent w)"
proof -
  let ?lk = "\<lparr>lk_broker = b, lk_buffer = buf, lk_inbox = [], lk_others = []\<rparr>" and ?packet = "data_packet (nd_bp_counter n + 1) p m"
  have known: "publisher_known (lk_broker ?lk) i p" using p by simp
  from link_forwards [OF link known m, of dbg] obtain lk' where
    send: "link_send server client dbg server ?packet ?lk = Inr (True, lk')"
    and out: "lk_others lk' = map (\<lambda>a. (a, ?packet)) (filter (\<lambda>a. a \<noteq> client) (subscriber_addresses b (br_topics b ! unat (pu_topic_id p))))"
    by auto
  from send obtain go_on b' buf' w where
    spin: "broker_spin_once mailbox_network dbg (b, buf, mailbox_with [(?packet, client)]) = Inr (go_on, b', buf', w)"
    and lk': "lk_others lk' = filter (\<lambda>p. fst p \<noteq> client) (mb_sent w)"
    by (auto simp: link_send_def link_serve_def mailbox_with_def elim!: rbind_InrE)
  have "clientB \<in> set (subscriber_addresses b (br_topics b ! unat (pu_topic_id p)))"
    using subscribed_address [OF other(1-3)] .
  then have "(clientB, ?packet) \<in> set (lk_others lk')" using out other(4) by auto
  with spin lk' show ?thesis by auto
qed

section \<open>The two nodes of the run\<close>

text \<open>The only message, under the only topic.\<close>

definition nine :: "string \<Rightarrow> byte list \<Rightarrow> bool" where
  "nine topic m \<longleftrightarrow> topic = ''t'' \<and> m = [9]"

definition nines :: "byte list list \<Rightarrow> bool" where
  "nines u \<longleftrightarrow> set u \<subseteq> {[9]}"

definition recorder :: "byte list list node" where
  "recorder = create_subscriber (\<lambda>_ q. q) ''t'' ''T'' 1 recording 5 (node_new ''m'' ''s'' UDP 1)"

definition speaker :: "byte list list node" where
  "speaker = create_publisher (\<lambda>_ q. q) ''t'' ''T'' 1 5 (node_new ''p'' ''s'' UDP 1)"

definition run_server :: string where
  "run_server = nd_broker_address recorder"

lemma recorder_facts:
  "nd_publishers recorder = []" "nd_subscribers recorder = [subscriber_new ''t'' ''T'' 1 recording 5]"
  "nd_topics recorder = Map.empty" "nd_topics_by_prio recorder = []" "short (nd_name recorder)" "nd_bp_counter recorder = 0"
  "nd_broker_address recorder = run_server" "length (nd_buffer recorder) = udp_buffer_size" "nd_name recorder = ''m''"
  by (simp_all add: run_server_def recorder_def create_subscriber_def node_new_def short_def)

lemma speaker_facts:
  "nd_publishers speaker = [publisher_new ''t'' ''T'' 1 5 17]" "nd_subscribers speaker = []"
  "nd_topics speaker = Map.empty" "nd_topics_by_prio speaker = []" "short (nd_name speaker)" "nd_bp_counter speaker = 0"
  "nd_broker_address speaker = run_server" "length (nd_buffer speaker) = udp_buffer_size" "nd_name speaker = ''p''"
  by (simp_all add: run_server_def recorder_def create_subscriber_def speaker_def create_publisher_def node_new_def short_def bp_sizes)

lemma recorder_joins: "node_joins nine nines run_server recorder []"
proof -
  let ?s = "subscriber_new ''t'' ''T'' 1 recording 5"
  have "node_subscriber_ok ?s" "su_waiting ?s = []"
    using subscriber_new_inv [of "''t''" "''T''" 1 recording 5]
    by (simp_all add: node_subscriber_ok_def subscriber_new_def udp_buffer_size_def)
  then have "subscriber_fine nine ?s" "node_inv recorder"
    by (simp_all add: subscriber_fine_def node_inv_def recorder_facts prio_sorted_def)
  moreover have "callback_fine nine nines [] ?s"
    by (simp add: callback_fine_def subscriber_new_def recording_def nine_def nines_def)
  ultimately show ?thesis
    by (simp add: node_joins_def connectable_def recorder_facts subscriber_short_def subscriber_new_def short_def nines_def)
qed

lemma speaker_joins: "node_joins nine nines run_server speaker []"
proof -
  let ?p = "publisher_new ''t'' ''T'' 1 5 17"
  have "node_publisher_ok ?p" "pu_waiting ?p = []"
    using publisher_new_inv [of 17 1 "''t''" "''T''" 5]
    by (simp_all add: node_publisher_ok_def publisher_new_def udp_buffer_size_def)
  then have "publisher_fine nine ?p" "node_inv speaker"
    by (simp_all add: publisher_fine_def node_inv_def speaker_facts prio_sorted_def publisher_new_def udp_buffer_size_def)
  then show ?thesis
    by (simp add: node_joins_def connectable_def speaker_facts publisher_short_def publisher_new_def short_def nines_def)
qed

text \<open>Connecting when nothing of others comes between the calls.\<close>

lemma quiet_step:
  fixes W :: "byte list list world"
  assumes W: "world_ok nine nines run_server W" and joins: "node_joins nine nines run_server n u"
    and may: "may_connect True run_server a n [[]] W"
    and quiet: "node_connect (broker_link run_server a True) n
      \<lparr>lk_broker = wo_broker W, lk_buffer = wo_buffer W, lk_inbox = [], lk_others = []\<rparr> = Inr (True, n', lk')"
  shows "world_step nine nines True run_server W
      (W\<lparr>wo_broker := lk_broker lk', wo_buffer := lk_buffer lk', wo_nodes := (wo_nodes W)(a \<mapsto> (n', u))\<rparr>)"
    and "link_ok run_server a n' lk'" and "lk_others lk' = []" and "node_agrees (lk_broker lk') a n'"
    and "broker_evolves (wo_broker W) (lk_broker lk')" and "registers n n'" and "node_inv n'"
proof -
  have n: "node_inv n" "connectable n" "nd_broker_address n = run_server" using joins by (simp_all add: node_joins_def)
  have link: "link_ok run_server a n \<lparr>lk_broker = wo_broker W, lk_buffer = wo_buffer W, lk_inbox = [], lk_others = []\<rparr>"
    by (rule joins_linked [OF W joins may])
  have "room (Suc (2 * length (nd_publishers n) + 2 * length (nd_subscribers n))) (wo_broker W)"
    using may by (simp add: may_connect_def)
  with node_connect_linked [OF link n(2), of True] quiet
  show 1: "link_ok run_server a n' lk'" "lk_others lk' = []" "node_agrees (lk_broker lk') a n'"
    "broker_evolves (wo_broker W) (lk_broker lk')" by (auto simp: link_step_def)
  show "registers n n'" by (rule node_connect_registers [OF quiet])
  show "node_inv n'"
    using keepsD [OF node_connect_keeps [of "length (nd_publishers n)" "length (nd_subscribers n)" n] quiet] n(1) by (simp add: node_ok_def)
  have "node_connect (busy_link run_server a True) n (world_exchange W [[]]) = Inr (True, n', \<lparr>ex_link = lk', ex_pending = []\<rparr>)"
    unfolding world_exchange_def by (rule connect_after_batch [OF n(3) _ quiet]) simp
  from node_connects [OF joins may this] 1(2)
  show "world_step nine nines True run_server W
      (W\<lparr>wo_broker := lk_broker lk', wo_buffer := lk_buffer lk', wo_nodes := (wo_nodes W)(a \<mapsto> (n', u))\<rparr>)" by (simp add: data_packets_def after_connect_def)
qed

text \<open>The two connect, the recorder first.\<close>

definition run_start :: "byte list list world" where
  "run_start = first_world ''1.2.3.4'' UDP 1000 (replicate udp_buffer_size 0)"

lemma recorder_connects:
  "\<exists>W n s. world_step nine nines True run_server run_start W \<and> world_ok nine nines run_server W \<and>
    wo_nodes W = [''h:2'' \<mapsto> (n, [])] \<and> wo_wire W = [] \<and> br_client_counters (wo_broker W) ''h:1'' = None \<and>
    br_nodes (wo_broker W) = [\<lparr>ni_name = ''m'', ni_address = ''h:2''\<rparr>] \<and> one_topic 1 [] [0] (wo_broker W) \<and>
    node_inv n \<and> node_agrees (wo_broker W) ''h:2'' n \<and>
    nd_subscribers n = [s] \<and> su_topic_name s = ''t'' \<and> su_message_size s = 1 \<and> su_callback s = recording \<and> su_waiting s = [] \<and>
    nd_topics_by_prio n = [(5, \<lparr>ti_publishers = [], ti_subscribers = [0]\<rparr>)]"
proof -
  let ?lk = "\<lparr>lk_broker = wo_broker run_start, lk_buffer = wo_buffer run_start, lk_inbox = [], lk_others = []\<rparr>"
  let ?s = "subscriber_new ''t'' ''T'' 1 recording 5"
  have start: "world_ok nine nines run_server run_start" unfolding run_start_def by (rule first_world_ok) simp
  have may: "may_connect True run_server ''h:2'' recorder [[]] run_start"
    by (simp add: may_connect_def run_start_def first_world_def broker_new_def room_def recorder_facts)
  have empty: "no_topic (wo_broker run_start)" "other_nodes ''m'' (wo_broker run_start)" "br_nodes (wo_broker run_start) = []"
      "br_client_counters (wo_broker run_start) = Map.empty"
    by (simp_all add: run_start_def first_world_def broker_new_def no_topic_def other_nodes_def)
  note joins = subscriber_joins [of recorder 1 recording "wo_broker run_start" "[]" "[]" run_server "''h:2''" ?lk True]
  from joins empty joins_linked [OF start recorder_joins may] obtain n lk s where
    1: "node_connect (broker_link run_server ''h:2'' True) recorder ?lk = Inr (True, n, lk)" and
    2: "nd_subscribers n = [s]" "su_topic_name s = ''t''" "nd_topics_by_prio n = [(5, \<lparr>ti_publishers = [], ti_subscribers = [0]\<rparr>)]"
      "br_nodes (lk_broker lk) = [\<lparr>ni_name = ''m'', ni_address = ''h:2''\<rparr>]" "one_topic 1 [] [0] (lk_broker lk)"
      "br_client_counters (lk_broker lk) = [''h:2'' \<mapsto> 4]"
    by (auto simp: recorder_facts short_def)
  note step = quiet_step [OF start recorder_joins may 1]
  have "identified_subscriber ?s s"
    using step(6) 2(1) by (simp add: registers_def recorder_facts)
  then have 3: "su_message_size s = 1" "su_callback s = recording" "su_waiting s = []"
    by (auto simp: identified_subscriber_def subscriber_new_def su_waiting_def)
  let ?W = "run_start\<lparr>wo_broker := lk_broker lk, wo_buffer := lk_buffer lk, wo_nodes := [''h:2'' \<mapsto> (n, [])]\<rparr>"
  have none: "wo_nodes run_start = Map.empty" "wo_wire run_start = []" by (simp_all add: run_start_def first_world_def)
  have w: "world_step nine nines True run_server run_start ?W" using step(1) by (simp add: none)
  show ?thesis
    by (rule exI [of _ ?W], rule exI [of _ n], rule exI [of _ s])
       (use w world_step_ok [OF w start] 2 3 step(4,7) none in simp)
qed

lemma speaker_connects:
  "\<exists>W n nB lk s p. (world_step nine nines True run_server)\<^sup>*\<^sup>* run_start W \<and> world_ok nine nines run_server W \<and>
    wo_nodes W = [''h:2'' \<mapsto> (nB, []), ''h:1'' \<mapsto> (n, [])] \<and> wo_wire W = [] \<and>
    lk = \<lparr>lk_broker = wo_broker W, lk_buffer = wo_buffer W, lk_inbox = [], lk_others = []\<rparr> \<and> link_ok run_server ''h:1'' n lk \<and>
    node_inv nB \<and> node_agrees (wo_broker W) ''h:2'' nB \<and>
    nd_subscribers nB = [s] \<and> su_topic_name s = ''t'' \<and> su_message_size s = 1 \<and> su_callback s = recording \<and> su_waiting s = [] \<and>
    nd_topics_by_prio nB = [(5, \<lparr>ti_publishers = [], ti_subscribers = [0]\<rparr>)] \<and>
    node_inv n \<and> node_agrees (wo_broker W) ''h:1'' n \<and>
    nd_publishers n = [p] \<and> pu_topic_name p = ''t'' \<and> pu_message_size p = 1 \<and> pu_waiting p = [] \<and>
    nd_topics_by_prio n = [(5, \<lparr>ti_publishers = [0], ti_subscribers = []\<rparr>)]"
proof -
  obtain W nB s where w: "world_step nine nines True run_server run_start W" "world_ok nine nines run_server W"
    and W: "wo_nodes W = [''h:2'' \<mapsto> (nB, [])]" "wo_wire W = []" "br_client_counters (wo_broker W) ''h:1'' = None"
      "br_nodes (wo_broker W) = [\<lparr>ni_name = ''m'', ni_address = ''h:2''\<rparr>]" "one_topic 1 [] [0] (wo_broker W)"
    and B: "node_inv nB" "node_agrees (wo_broker W) ''h:2'' nB"
      "nd_subscribers nB = [s]" "su_topic_name s = ''t''" "su_message_size s = 1" "su_callback s = recording" "su_waiting s = []"
      "nd_topics_by_prio nB = [(5, \<lparr>ti_publishers = [], ti_subscribers = [0]\<rparr>)]"
    using recorder_connects by blast
  let ?lk = "\<lparr>lk_broker = wo_broker W, lk_buffer = wo_buffer W, lk_inbox = [], lk_others = []\<rparr>"
  let ?p = "publisher_new ''t'' ''T'' 1 5 17"
  have may: "may_connect True run_server ''h:1'' speaker [[]] W"
    using W by (simp add: may_connect_def room_def speaker_facts one_topic_def)
  have other: "other_nodes ''p'' (wo_broker W)" using W(4) by (simp add: other_nodes_def)
  from publisher_joins [of speaker 1 "wo_broker W" "[]" "[0]" run_server "''h:1''" ?lk True]
    other W(5) joins_linked [OF w(2) speaker_joins may] obtain n lk p where
    1: "node_connect (broker_link run_server ''h:1'' True) speaker ?lk = Inr (True, n, lk)" and
    2: "nd_publishers n = [p]" "pu_topic_name p = ''t''" "nd_topics_by_prio n = [(5, \<lparr>ti_publishers = [0], ti_subscribers = []\<rparr>)]"
    by (auto simp: speaker_facts short_def)
  note step = quiet_step [OF w(2) speaker_joins may 1]
  have "identified_publisher ?p p" using step(6) 2(1) by (simp add: registers_def speaker_facts)
  then have 3: "pu_message_size p = 1" "pu_waiting p = []"
    by (auto simp: identified_publisher_def publisher_new_def pu_waiting_def)
  let ?W = "W\<lparr>wo_broker := lk_broker lk, wo_buffer := lk_buffer lk, wo_nodes := [''h:2'' \<mapsto> (nB, []), ''h:1'' \<mapsto> (n, [])]\<rparr>"
  have w': "world_step nine nines True run_server W ?W" using step(1) by (simp add: W(1))
  have lk: "lk = \<lparr>lk_broker = wo_broker ?W, lk_buffer = wo_buffer ?W, lk_inbox = [], lk_others = []\<rparr>"
    using step(2,3) by (simp add: link_ok_def)
  have B': "node_agrees (lk_broker lk) ''h:2'' nB" by (rule node_agrees_evolves [OF B(2) step(5)])
  have run: "(world_step nine nines True run_server)\<^sup>*\<^sup>* run_start ?W" using w(1) w' by auto
  show ?thesis
    by (rule exI [of _ ?W], rule exI [of _ n], rule exI [of _ nB], rule exI [of _ lk], rule exI [of _ s], rule exI [of _ p],
        intro conjI lk run world_step_ok [OF w' w(2)] step(2))
       (use B B' 2 3 step(4,7) W(2) in simp_all)
qed

section \<open>The whole run\<close>

lemma sample_run:
  "\<exists>W n. (world_step nine nines True run_server)\<^sup>*\<^sup>* run_start W \<and> wo_nodes W ''h:2'' = Some (n, [[9]])"
proof -
  obtain W n nB lk s p where run: "(world_step nine nines True run_server)\<^sup>*\<^sup>* run_start W" "world_ok nine nines run_server W"
    and W: "wo_nodes W = [''h:2'' \<mapsto> (nB, []), ''h:1'' \<mapsto> (n, [])]" "wo_wire W = []"
    and lk: "lk = \<lparr>lk_broker = wo_broker W, lk_buffer = wo_buffer W, lk_inbox = [], lk_others = []\<rparr>" "link_ok run_server ''h:1'' n lk"
    and B: "node_inv nB" "node_agrees (wo_broker W) ''h:2'' nB"
      "nd_subscribers nB = [s]" "su_topic_name s = ''t''" "su_message_size s = 1" "su_callback s = recording" "su_waiting s = []"
      "nd_topics_by_prio nB = [(5, \<lparr>ti_publishers = [], ti_subscribers = [0]\<rparr>)]"
    and A: "node_inv n" "node_agrees (wo_broker W) ''h:1'' n" "nd_publishers n = [p]" "pu_topic_name p = ''t''"
      "pu_message_size p = 1" "pu_waiting p = []" "nd_topics_by_prio n = [(5, \<lparr>ti_publishers = [0], ti_subscribers = []\<rparr>)]"
    using speaker_connects by blast
  let ?R = "world_step nine nines True run_server" and ?b = "wo_broker W"
  have p: "node_publisher_ok p" using node_inv_publisher [OF A(1), of 0] A(3) by simp
  from publish_room [of p "[9]"] p A(5,6) obtain p1 where
    p1: "publish [9] p = Inr (True, p1)" "node_publisher_ok p1" "pu_waiting p1 = [[9]]" "same_publisher p p1"
    by (auto simp: node_publisher_ok_def message_queue_capacity_def)
  let ?n1 = "n\<lparr>nd_publishers := [p1]\<rparr>"
  let ?W1 = "W\<lparr>wo_nodes := [''h:2'' \<mapsto> (nB, []), ''h:1'' \<mapsto> (?n1, [])]\<rparr>"
  have 1: "?R W ?W1"
    using program_publishes [of W "''h:1''" n "[]" 0 "[9]" nine True p1] p1(1) A(3-5) W(1) by (simp add: nine_def)
  have inv1: "node_inv ?n1" using node_inv_set_publisher [OF A(1) p1(2), of 0] A(3) by simp
  from sender_spins [OF inv1, of 0 "[9]" "[]" 5 "[]"] p1(3) A(7) obtain n2 where
    spin: "spin_once mailbox_network (?n1, [], mailbox_with []) = Inr (SpinSuccess, n2, [],
      \<lparr>mb_inbox = [], mb_sent = [(nd_broker_address ?n1, data_packet (nd_bp_counter ?n1 + 1) p1 [9])]\<rparr>)" by auto
  let ?packet = "data_packet (nd_bp_counter n + 1) p1 [9]"
  let ?W2 = "?W1\<lparr>wo_nodes := (wo_nodes ?W1)(''h:1'' \<mapsto> (n2, [])), wo_wire := [(run_server, ''h:1'', ?packet)]\<rparr>"
  have server: "nd_broker_address n = run_server" using lk(2) by (simp add: link_ok_def)
  have 2: "?R ?W1 ?W2"
    using node_spins [of ?W1 "''h:1''" ?n1 "[]" "[]", OF _ _ spin] W(2) server by (simp add: on_wire_def)
  have known: "publisher_known ?b (nd_node_id n) p" "subscriber_known ?b (nd_node_id nB) s"
    using A(2,3) B(2,3) by (simp_all add: node_agrees_def publishers_done_def subscribers_done_def)
  have inv: "broker_inv ?b" using world_okD(1) [OF run(2)] .
  have same: "pu_topic_id p1 = su_topic_id s" "pu_message_size p1 = 1" "publisher_known ?b (nd_node_id n) p1"
    using known_endpoints_agree [OF inv known] A(4,5) B(4) known(1) same_publisher_fields [OF p1(4)]
    by (simp_all add: publisher_known_def)
  have "link_ok run_server ''h:1'' n \<lparr>lk_broker = ?b, lk_buffer = wo_buffer W, lk_inbox = [], lk_others = []\<rparr>" using lk by simp
  from broker_forwards [OF this same(3) _ _ B(2), of "[9]" 0 True] B(3) same(1,2) obtain go_on b buf w where
    forward: "broker_spin_once mailbox_network True (?b, wo_buffer W, mailbox_with [(?packet, ''h:1'')]) = Inr (go_on, b, buf, w)"
      "(''h:2'', ?packet) \<in> set (mb_sent w)" by (auto simp: udp_buffer_size_def)
  let ?W3 = "?W2\<lparr>wo_broker := b, wo_buffer := buf, wo_wire := wo_wire ?W2 @ on_wire run_server w\<rparr>"
  have 3: "?R ?W2 ?W3"
    using broker_receives [of run_server "''h:1''" ?packet ?W2 True go_on b buf w] forward(1) by simp
  from recorder_spins [OF B(1,2,3,6,7) same(1), of "[9]" 5 "[]" "nd_bp_counter n + 1" run_server] B(5,8) same(2) obtain nB' w' where
    recorded: "spin_once mailbox_network (nB, [], mailbox_with [(?packet, run_server)]) = Inr (SpinSuccess, nB', [[9]], w')" by auto
  let ?W4 = "?W3\<lparr>wo_nodes := (wo_nodes ?W3)(''h:2'' \<mapsto> (nB', [[9]])), wo_wire := wo_wire ?W3 @ on_wire ''h:2'' w'\<rparr>"
  have "(''h:2'', run_server, ?packet) \<in> set (wo_wire ?W3)" using forward(2) by (auto simp: on_wire_def)
  then have 4: "?R ?W3 ?W4"
    using node_spins [of ?W3 "''h:2''" nB "[]" "[(?packet, run_server)]", OF _ _ recorded] by (simp add: W)
  have "(?R)\<^sup>*\<^sup>* run_start ?W4" using run(1) 1 2 3 4 by (meson rtranclp.rtrancl_into_rtrancl)
  then show ?thesis by (rule_tac exI [of _ ?W4], rule_tac exI [of _ nB']) simp
qed

section \<open>Properties\<close>

text \<open>
  C2: only what was published arrives, and connected nodes agree with the broker. Start with a broker as its
  constructor leaves it and let nodes connect, at any time, other clients make requests the broker survives, and broker,
  nodes and programs run in any interleaving. The network loses, delays, reorders and duplicates data packets; of the
  packets of a \<^verbatim>\<open>connect()\<close> it may lose any request or answer, or deliver a request twice, but it does not deliver an
  answer twice. The programs and the callbacks publish only messages that are allowed under the topic's name. Then, at
  any time, every connected node agrees with the broker on all its IDs, every message in the queue of any subscriber is
  allowed under the name of its topic and has the message size of the subscriber, and so is every message handed to a
  callback: whatever the callbacks establish from that about the user data holds. (With duplicated answers the
  agreement fails, since the node never compares the ID of an answer with that of its request.)
\<close>

theorem only_published_arrives:
  assumes "length buf = udp_buffer_size"
    and "(world_step allowed user_ok dbg server)\<^sup>*\<^sup>* (first_world ip proto port buf) W" and "wo_nodes W a = Some (n, u)"
  shows "user_ok u \<and> node_agrees (wo_broker W) a n \<and> (\<forall>s\<in>set (nd_subscribers n). \<forall>m\<in>set (su_waiting s).
    allowed (su_topic_name s) m \<and> length m = unat (su_message_size s))"
proof -
  have fine: "node_fine allowed user_ok (wo_broker W) server a n u"
    using world_okD(3) [OF reachable_world_ok [OF assms(2) first_world_ok [OF assms(1)]] assms(3)] .
  then show ?thesis
    using node_fineD(2,4,6) [OF fine] waiting_length by (auto simp: subscriber_fine_def)
qed

theorem only_published_arrives_witness:
  "\<exists>W n. (world_step nine nines True run_server)\<^sup>*\<^sup>* (first_world ''1.2.3.4'' UDP 1000 (replicate udp_buffer_size 0)) W \<and>
    wo_nodes W ''h:2'' = Some (n, [[9]]) \<and> nines [[9]] \<and> node_agrees (wo_broker W) ''h:2'' n \<and>
    (\<forall>s\<in>set (nd_subscribers n). \<forall>m\<in>set (su_waiting s). nine (su_topic_name s) m \<and> length m = unat (su_message_size s))"
proof -
  obtain W n where "(world_step nine nines True run_server)\<^sup>*\<^sup>* (first_world ''1.2.3.4'' UDP 1000 (replicate udp_buffer_size 0)) W"
    and "wo_nodes W ''h:2'' = Some (n, [[9]])"
    using sample_run unfolding run_start_def by blast
  with only_published_arrives [OF length_replicate this] show ?thesis by blast
qed

text \<open>
  C9: no interleaving makes the program fail. In every world that grows out of a new broker so, whichever packet of
  the wire the broker receives next, its loop neither faults nor ends; whichever packet a node
  receives next, or none, \<^verbatim>\<open>spin_once()\<close> neither faults nor reports an error; a request of any client, as a
  node makes it, leaves the loop of the broker running; and a further node that connects now, while the broker handles
  packets of the wire and requests of others between its calls and loses none of the node's own, gets an answer from
  \<^verbatim>\<open>connect()\<close>.
\<close>

theorem interleavings_never_fail:
  assumes "length buf = udp_buffer_size"
    and "(world_step allowed user_ok dbg server)\<^sup>*\<^sup>* (first_world ip proto port buf) W"
  shows "((server, client, packet) \<in> set (wo_wire W) \<longrightarrow>
      (\<exists>s. broker_spin_once mailbox_network dbg (wo_broker W, wo_buffer W, mailbox_with [(packet, client)]) = Inr (True, s))) \<and>
    (wo_nodes W a = Some (n, u) \<and>
        (inbox = [] \<or> (\<exists>packet sender. inbox = [(packet, sender)] \<and> (a, sender, packet) \<in> set (wo_wire W))) \<longrightarrow>
      (\<exists>r s. spin_once mailbox_network (n, u, mailbox_with inbox) = Inr (r, s) \<and> r \<noteq> SpinError)) \<and>
    (call_ok (wo_broker W) call \<and> call_request i call = Inr request \<and> bp_control_json_to_packet_buffer request c = Inr packet' \<longrightarrow>
      (\<exists>s. broker_spin_once mailbox_network dbg (wo_broker W, wo_buffer W, mailbox_with [(packet', client)]) = Inr (True, s))) \<and>
    (node_joins allowed user_ok server n u \<and> may_connect dbg server a n pending W \<longrightarrow>
      (\<exists>s. node_connect (busy_link server a dbg) n (world_exchange W pending) = Inr s))"
proof (intro conjI impI)
  note ok = reachable_world_ok [OF assms(2) first_world_ok [OF assms(1)]]
  note W = world_okD [OF ok]
  show "\<exists>s. broker_spin_once mailbox_network dbg (wo_broker W, wo_buffer W, mailbox_with [(packet, client)]) = Inr (True, s)"
    if "(server, client, packet) \<in> set (wo_wire W)"
    using broker_step_fine [OF W(1,2) W(4) [OF that], of dbg client] by blast
  show "\<exists>r s. spin_once mailbox_network (n, u, mailbox_with inbox) = Inr (r, s) \<and> r \<noteq> SpinError"
    if "wo_nodes W a = Some (n, u) \<and>
        (inbox = [] \<or> (\<exists>packet sender. inbox = [(packet, sender)] \<and> (a, sender, packet) \<in> set (wo_wire W)))"
  proof -
    have "inbox_fine allowed (wo_broker W) inbox" using that W(4) by (auto simp: inbox_fine_def)
    from spin_once_fine [OF W(3) this] that show ?thesis by blast
  qed
  show "\<exists>s. broker_spin_once mailbox_network dbg (wo_broker W, wo_buffer W, mailbox_with [(packet', client)]) = Inr (True, s)"
    if "call_ok (wo_broker W) call \<and> call_request i call = Inr request \<and> bp_control_json_to_packet_buffer request c = Inr packet'"
    using call_handled [OF _ W(1,2), of call i request c packet' dbg client] that by (auto simp: mailbox_with_def)
  show "\<exists>s. node_connect (busy_link server a dbg) n (world_exchange W pending) = Inr s"
    if "node_joins allowed user_ok server n u \<and> may_connect dbg server a n pending W"
    using connect_fine(1) [OF ok] that by blast
qed

theorem interleavings_never_fail_witness:
  "\<exists>W n s. (world_step nine nines True run_server)\<^sup>*\<^sup>* (first_world ''1.2.3.4'' UDP 1000 (replicate udp_buffer_size 0)) W \<and>
    wo_nodes W ''h:2'' = Some (n, [[9]]) \<and> spin_once mailbox_network (n, [[9]], mailbox_with []) = Inr s \<and> fst s \<noteq> SpinError"
proof -
  obtain W n where run: "(world_step nine nines True run_server)\<^sup>*\<^sup>* (first_world ''1.2.3.4'' UDP 1000 (replicate udp_buffer_size 0)) W"
    and W: "wo_nodes W ''h:2'' = Some (n, [[9]])"
    using sample_run unfolding run_start_def by blast
  have "\<exists>r s. spin_once mailbox_network (n, [[9]], mailbox_with []) = Inr (r, s) \<and> r \<noteq> SpinError"
    using interleavings_never_fail [OF length_replicate run, where a = "''h:2''" and n = n and u = "[[9]]" and inbox = "[]"] W by blast
  then obtain r s where "spin_once mailbox_network (n, [[9]], mailbox_with []) = Inr (r, s)" "r \<noteq> SpinError" by blast
  with W run show ?thesis by (intro exI [of _ W] exI [of _ n] exI [of _ "(r, s)"]) simp
qed

end
