(* ===== verification/Logger.thy ===== *)
theory Logger
  imports Json_Roundtrip "HOL-Library.Signed_Division"
begin

text \<open>
  Logging (\<^verbatim>\<open>include/crps/logger.h\<close>, \<^verbatim>\<open>src/logger.cpp\<close>) and the operating system interface that gives
  out loggers (\<^verbatim>\<open>os.h\<close>, \<^verbatim>\<open>os.cpp\<close>, \<^verbatim>\<open>linux_os.h\<close>, \<^verbatim>\<open>linux_os.cpp\<close>). A logger is a temporary object: it
  is created by a log statement, takes a prefix and the text, and hands its stream to the write
  function when it is destroyed at the end of the statement, if its level reaches the global one.
  The system clock is read as a number of nanoseconds since the epoch.
\<close>

section \<open>Levels\<close>

datatype log_level = Debug | Info | Warn | Error | Fatal

fun level_number :: "log_level \<Rightarrow> nat" where
  "level_number Debug = 1"
| "level_number Info = 2"
| "level_number Warn = 3"
| "level_number Error = 4"
| "level_number Fatal = 5"

lemma level_number_inject [simp]: "level_number a = level_number b \<longleftrightarrow> a = b"
  by (cases a; cases b) simp_all

instantiation log_level :: linorder
begin

definition less_eq_log_level :: "log_level \<Rightarrow> log_level \<Rightarrow> bool" where
  "less_eq_log_level a b = (level_number a \<le> level_number b)"

definition less_log_level :: "log_level \<Rightarrow> log_level \<Rightarrow> bool" where
  "less_log_level a b = (level_number a < level_number b)"

instance
  by standard (auto simp: less_eq_log_level_def less_log_level_def)

end

fun level_tag :: "log_level \<Rightarrow> string" where
  "level_tag Debug = ''[DEBUG] ''"
| "level_tag Info = ''[INFO] ''"
| "level_tag Warn = ''[WARN] ''"
| "level_tag Error = ''[ERROR] ''"
| "level_tag Fatal = ''[FATAL] ''"

section \<open>Loggers\<close>

record logger =
  lg_log_level :: log_level
  lg_stream :: string

definition logger_new :: logger where
  "logger_new = \<lparr>lg_log_level = Debug, lg_stream = ''''\<rparr>"

text \<open>\<^verbatim>\<open>std::setw(9) << std::setfill('0')\<close>: the fill characters go in front of the whole number.\<close>

definition set_width :: "nat \<Rightarrow> string \<Rightarrow> string" where
  "set_width n s = replicate (n - length s) (CHR ''0'') @ s"

text \<open>\<open>duration_cast\<close> to seconds truncates towards zero; what is left are the nanoseconds.\<close>

definition log :: "int \<Rightarrow> log_level \<Rightarrow> logger \<Rightarrow> logger" where
  "log now level l =
     (let seconds = now sdiv 10 ^ 9; nanoseconds = now - seconds * 10 ^ 9
      in l\<lparr>lg_log_level := level,
           lg_stream := lg_stream l @ ''['' @ to_string seconds @ ''.'' @ set_width 9 (to_string nanoseconds) @ ''] '' @
                        level_tag level\<rparr>)"

definition put_text :: "string \<Rightarrow> logger \<Rightarrow> logger" where
  "put_text s l = l\<lparr>lg_stream := lg_stream l @ s\<rparr>"

text \<open>The destructor: what is handed to the write function, if anything.\<close>

definition logger_destroy :: "log_level \<Rightarrow> logger \<Rightarrow> string option" where
  "logger_destroy global l = (if global \<le> lg_log_level l then Some (lg_stream l) else None)"

section \<open>The console of \<^verbatim>\<open>LinuxOS\<close>\<close>

record console =
  con_flush :: bool
  con_buffered :: string
  con_written :: string

definition linux_os_new :: "bool \<Rightarrow> console" where
  "linux_os_new flush = \<lparr>con_flush = flush, con_buffered = '''', con_written = ''''\<rparr>"

definition write_log :: "string \<Rightarrow> console \<Rightarrow> console" where
  "write_log s c =
     (let c1 = c\<lparr>con_buffered := con_buffered c @ s\<rparr>
      in if con_flush c then c1\<lparr>con_buffered := '''', con_written := con_written c1 @ con_buffered c1\<rparr> else c1)"

text \<open>A log statement \<^verbatim>\<open>os->logger().level() << text\<close>.\<close>

definition log_statement :: "log_level \<Rightarrow> int \<Rightarrow> log_level \<Rightarrow> string \<Rightarrow> console \<Rightarrow> console" where
  "log_statement global now level text c =
     (case logger_destroy global (put_text text (log now level logger_new)) of
        None \<Rightarrow> c
      | Some s \<Rightarrow> write_log s c)"

text \<open>Several statements.\<close>

fun log_statements :: "log_level \<Rightarrow> (int \<times> log_level \<times> string) list \<Rightarrow> console \<Rightarrow> console" where
  "log_statements global [] c = c"
| "log_statements global ((now, level, text) # ls) c = log_statements global ls (log_statement global now level text c)"

section \<open>Lemmas\<close>

text \<open>Reading a line back: the seconds up to the dot, nine digits, the rest.\<close>

definition line_time :: "string \<Rightarrow> nat" where
  "line_time s =
     decimal_value 0 (takeWhile (\<lambda>c. c \<noteq> CHR ''.'') (tl s)) * 10 ^ 9 +
     decimal_value 0 (take 9 (tl (dropWhile (\<lambda>c. c \<noteq> CHR ''.'') s)))"

lemma length_decimal: "n < 10 ^ k \<Longrightarrow> 0 < k \<Longrightarrow> length (decimal n) \<le> k"
proof (induction n arbitrary: k rule: decimal.induct)
  case (1 n)
  show ?case
  proof (cases "n < 10")
    case True
    then show ?thesis using "1.prems" by (simp add: decimal.simps [of n])
  next
    case False
    with "1.prems" obtain j where j: "k = Suc j" "0 < j" by (cases k; cases "k - 1") auto
    with "1.prems" have "n div 10 < 10 ^ j" by (simp add: less_mult_imp_div_less mult.commute)
    with "1.IH" [OF False this j(2)] False j show ?thesis by (simp add: decimal.simps [of n])
  qed
qed

lemma decimal_value_zeros: "decimal_value 0 (replicate k (CHR ''0'') @ s) = decimal_value 0 s"
  by (induction k) simp_all

lemma set_width_decimal:
  assumes "n < 10 ^ 9"
  shows "length (set_width 9 (decimal n)) = 9" "decimal_value 0 (set_width 9 (decimal n)) = n"
    "c \<in> set (set_width 9 (decimal n)) \<Longrightarrow> is_digit c"
proof -
  show "length (set_width 9 (decimal n)) = 9" using length_decimal [OF assms] by (simp add: set_width_def)
  show "decimal_value 0 (set_width 9 (decimal n)) = n"
    by (simp add: set_width_def decimal_value_zeros decimal_value_decimal)
  show "c \<in> set (set_width 9 (decimal n)) \<Longrightarrow> is_digit c"
    by (auto simp: set_width_def is_digit_def dest: decimal_digits)
qed

lemma sdiv_nonneg: "0 \<le> now \<Longrightarrow> 0 < b \<Longrightarrow> now sdiv b = now div (b :: int)"
  by (simp add: signed_divide_int_def sgn_if)

lemma log_prefix:
  assumes "0 \<le> now"
  shows "lg_stream (log now level logger_new) =
    ''['' @ decimal (nat (now div 10 ^ 9)) @ ''.'' @ set_width 9 (decimal (nat (now mod 10 ^ 9))) @ ''] '' @ level_tag level"
proof -
  have "now - now div 10 ^ 9 * 10 ^ 9 = now mod 10 ^ 9" by (simp add: minus_div_mult_eq_mod)
  moreover have "0 \<le> now div 10 ^ 9" "0 \<le> now mod 10 ^ 9" using assms by (simp_all add: pos_imp_zdiv_nonneg_iff)
  moreover have "\<not> now < now div 1000000000 * 1000000000"
    using minus_div_mult_eq_mod [of now 1000000000] pos_mod_sign [of 1000000000 now] by linarith
  ultimately show ?thesis
    using assms by (simp add: log_def logger_new_def sdiv_nonneg to_string_def Let_def)
qed

lemma no_dot: "c \<in> set (decimal n) \<Longrightarrow> c \<noteq> CHR ''.''"
  by (auto simp: is_digit_def dest: decimal_digits)

lemma line_time_log:
  assumes "0 \<le> now"
  shows "line_time (lg_stream (log now level logger_new) @ text) = nat now"
proof -
  let ?s = "nat (now div 10 ^ 9)" and ?n = "nat (now mod 10 ^ 9)"
  have n: "?n < 10 ^ 9" by (simp add: nat_less_iff)
  have "takeWhile (\<lambda>c. c \<noteq> CHR ''.'') (decimal ?s) = decimal ?s" "dropWhile (\<lambda>c. c \<noteq> CHR ''.'') (decimal ?s) = []"
    using no_dot by (auto simp: takeWhile_eq_all_conv dropWhile_eq_Nil_conv)
  moreover have "int ?s * 10 ^ 9 + int ?n = now"
    using assms by (simp add: pos_imp_zdiv_nonneg_iff)
  then have "int (?s * 10 ^ 9 + ?n) = now" by simp
  then have "?s * 10 ^ 9 + ?n = nat now" using nat_int [of "?s * 10 ^ 9 + ?n"] by argo
  ultimately show ?thesis
    using set_width_decimal(1,2) [OF n]
    by (simp add: log_prefix [OF assms] line_time_def takeWhile_append dropWhile_append decimal_value_decimal)
qed

section \<open>Properties\<close>

text \<open>
  C32: a log line carries the exact time. A statement at or above the global level, at a time after the
  epoch, appends one line to the console, at once when flushing is on; the nine-digit fraction
  makes the time recoverable to the nanosecond from the text, whatever the text of the statement is.
  A statement below the level writes nothing.
\<close>

theorem log_statement_time:
  assumes "0 \<le> now" and "con_flush c" and "con_buffered c = ''''"
  shows "\<exists>line. con_written (log_statement global now level text c) = con_written c @ (if global \<le> level then line @ text else '''') \<and>
    con_buffered (log_statement global now level text c) = '''' \<and>
    line_time (line @ text) = nat now \<and> (\<exists>prefix. line = prefix @ level_tag level)"
proof (intro exI conjI)
  let ?line = "lg_stream (log now level logger_new)"
  show "line_time (?line @ text) = nat now" by (rule line_time_log [OF assms(1)])
  show "?line = (''['' @ decimal (nat (now div 10 ^ 9)) @ ''.'' @ set_width 9 (decimal (nat (now mod 10 ^ 9))) @ ''] '') @
      level_tag level" by (simp add: log_prefix [OF assms(1)])
  have level: "lg_log_level (log now level logger_new) = level" by (simp add: log_def Let_def)
  show "con_written (log_statement global now level text c) = con_written c @ (if global \<le> level then ?line @ text else '''')"
    "con_buffered (log_statement global now level text c) = ''''"
    using assms(2,3) level
    by (simp_all add: log_statement_def logger_destroy_def put_text_def write_log_def Let_def)
qed

theorem log_statement_time_witness:
  "\<exists>line. con_written (log_statement Info 5000000042 Warn ''x'' (linux_os_new True)) =
      con_written (linux_os_new True) @ (if Info \<le> Warn then line @ ''x'' else '''') \<and>
    con_buffered (log_statement Info 5000000042 Warn ''x'' (linux_os_new True)) = '''' \<and>
    line_time (line @ ''x'') = nat 5000000042 \<and> (\<exists>prefix. line = prefix @ level_tag Warn)"
  by (rule log_statement_time) (simp_all add: linux_os_new_def)

end
