(* ===== verification/Parse_Options.thy ===== *)
theory Parse_Options
  imports Linux_Network
begin

text \<open>
  The command line of the demo programs (\<^verbatim>\<open>demo/parse_options.cpp\<close>) and the numeric conversions their
  \<^verbatim>\<open>main\<close> functions apply to it. \<^verbatim>\<open>argv\<close> is a list whose first element is the program; after its last
  element stands a null pointer, and assigning that to a \<^verbatim>\<open>std::string\<close> is undefined.
\<close>

type_synonym options = "string \<rightharpoonup> string"

definition option_names :: "string list" where
  "option_names =
     [''node_name'', ''topic_name'', ''topic_priority'', ''message_type_name'', ''broker_ip'', ''bench_node_type'',
      ''message_size'', ''publish_period_ms'', ''publish_count'']"

text \<open>The inner loop: the first option name that the argument is, after two dashes.\<close>

definition recognized :: "string \<Rightarrow> string option" where
  "recognized a = find (\<lambda>name. a = ''--'' @ name) option_names"

definition unknown_option :: "string \<Rightarrow> string" where
  "unknown_option a = ''Unknown option '' @ [CHR 0x27] @ a @ [CHR 0x27]"

text \<open>The loop from position \<^verbatim>\<open>i\<close>, over the remaining arguments, with what is printed.\<close>

fun parse_from :: "string list \<Rightarrow> options \<Rightarrow> string list \<Rightarrow> (options \<times> string list) res" where
  "parse_from [] options out = Inr (options, out)"
| "parse_from (a # args) options out =
     (case recognized a of
        Some name \<Rightarrow>
          (case args of
             [] \<Rightarrow> Inl OutOfBounds
           | v # rest \<Rightarrow> parse_from rest (options(name \<mapsto> v)) out)
      | None \<Rightarrow> parse_from args options (out @ [unknown_option a]))"

definition parse_options :: "string list \<Rightarrow> (options \<times> string list) res" where
  "parse_options argv = parse_from (drop 1 argv) Map.empty []"

definition option_or_default :: "options \<Rightarrow> string \<Rightarrow> string \<Rightarrow> string" where
  "option_or_default options name d = (case options name of Some v \<Rightarrow> v | None \<Rightarrow> d)"

text \<open>
  \<^verbatim>\<open>std::stoul\<close>: as \<^const>\<open>stoi\<close>, but with the 64 bits of an \<^verbatim>\<open>unsigned long\<close>; a minus sign negates the value
  modulo 2 to the 64.
\<close>

definition stoul :: "string \<Rightarrow> u64 res" where
  "stoul s =
     (let t = dropWhile is_space s;
          negative = (t \<noteq> [] \<and> hd t = CHR ''-'');
          u = (if t \<noteq> [] \<and> (hd t = CHR ''-'' \<or> hd t = CHR ''+'') then tl t else t);
          digits = takeWhile is_digit u;
          v = decimal_value 0 digits
      in if digits = [] then Inl StdInvalidArgument
         else if 2 ^ 64 \<le> v then Inl StdOutOfRange
         else Inr (if negative then - of_nat v else of_nat v))"

text \<open>The conversions as the programs write them: a priority is cut to 8 bits, other numbers to 32.\<close>

definition priority_option :: "options \<Rightarrow> string \<Rightarrow> i8 res" where
  "priority_option options d =
     rbind (stoi (option_or_default options ''topic_priority'' d)) (\<lambda>v. Inr (word_of_int v))"

definition number_option :: "options \<Rightarrow> string \<Rightarrow> string \<Rightarrow> u32 res" where
  "number_option options name d = rbind (stoul (option_or_default options name d)) (\<lambda>v. Inr (ucast v))"

section \<open>Lemmas\<close>

lemma find_unique:
  assumes "\<And>x y. P x \<Longrightarrow> P y \<Longrightarrow> x = y"
  shows "find P xs = Some x \<longleftrightarrow> x \<in> set xs \<and> P x"
  using assms by (induction xs) auto

lemma recognized_Some: "recognized a = Some name \<longleftrightarrow> name \<in> set option_names \<and> a = ''--'' @ name"
  unfolding recognized_def by (rule find_unique) simp

text \<open>Arguments that are parsed to the end leave the loop at the boundary of the next argument.\<close>

lemma parse_from_append:
  "parse_from pre options out = Inr (o1, out1) \<Longrightarrow> parse_from (pre @ post) options out = parse_from post o1 out1"
proof (induction pre options out rule: parse_from.induct)
  case (1 options out)
  then show ?case by simp
next
  case (2 a args options out)
  show ?case
  proof (cases "recognized a")
    case None
    with "2.IH"(1) "2.prems" show ?thesis by simp
  next
    case (Some name)
    show ?thesis
    proof (cases args)
      case Nil
      with "2.prems" Some show ?thesis by simp
    next
      case (Cons v rest)
      from "2.IH"(2) [OF Some Cons] "2.prems" Some Cons show ?thesis by (simp del: fun_upd_apply)
    qed
  qed
qed

lemma parse_from_fails_at_end:
  "parse_from args options out = Inl e \<Longrightarrow>
   e = OutOfBounds \<and> (\<exists>pre a r. args = pre @ [a] \<and> parse_from pre options out = Inr r \<and> recognized a \<noteq> None)"
proof (induction args options out rule: parse_from.induct)
  case (1 options out)
  then show ?case by simp
next
  case (2 a args options out)
  note IH = "2.IH" and prems = "2.prems"
  show ?case
  proof (cases "recognized a")
    case None
    with prems have "parse_from args options (out @ [unknown_option a]) = Inl e" by simp
    from IH(1) [OF None this] obtain pre b r where "e = OutOfBounds" "args = pre @ [b]"
      "parse_from pre options (out @ [unknown_option a]) = Inr r" "recognized b \<noteq> None" by blast
    with None show ?thesis by (intro conjI exI [of _ "a # pre"] exI [of _ b] exI [of _ r]) simp_all
  next
    case (Some name)
    show ?thesis
    proof (cases args)
      case Nil
      with prems Some show ?thesis by (auto intro!: exI [of _ "[]"])
    next
      case (Cons v rest)
      with prems Some have "parse_from rest (options(name \<mapsto> v)) out = Inl e" by simp
      from IH(2) [OF Some Cons this] obtain pre b r where "e = OutOfBounds" "rest = pre @ [b]"
        "parse_from pre (options(name \<mapsto> v)) out = Inr r" "recognized b \<noteq> None" by blast
      with Some Cons show ?thesis by (intro conjI exI [of _ "a # v # pre"] exI [of _ b] exI [of _ r]) simp_all
    qed
  qed
qed

lemma parse_from_pairs:
  "set (map fst kvs) \<subseteq> set option_names \<Longrightarrow>
   parse_from (concat (map (\<lambda>(k, v). [''--'' @ k, v]) kvs)) options out = Inr (options ++ map_of (rev kvs), out)"
proof (induction kvs arbitrary: options)
  case Nil
  then show ?case by simp
next
  case (Cons kv kvs)
  obtain k v where kv: "kv = (k, v)" by (cases kv)
  with Cons.prems have "recognized (''--'' @ k) = Some k" by (simp add: recognized_Some)
  with Cons kv show ?case by (simp add: map_add_def fun_eq_iff split: option.splits)
qed

section \<open>Properties\<close>

text \<open>
  C31: options given on the command line are read back. For any sequence of recognised options with
  their values, whatever the values look like, a later option of the same name winning, each lookup
  gives the last value given, or the default; nothing is reported as unknown.
\<close>

theorem options_roundtrip:
  assumes "set (map fst kvs) \<subseteq> set option_names"
  shows "\<exists>options. parse_options (program # concat (map (\<lambda>(k, v). [''--'' @ k, v]) kvs)) = Inr (options, []) \<and>
    (\<forall>name d. option_or_default options name d = (case map_of (rev kvs) name of Some v \<Rightarrow> v | None \<Rightarrow> d))"
  using parse_from_pairs [OF assms, of Map.empty "[]"]
  by (simp add: parse_options_def option_or_default_def)

theorem options_roundtrip_witness:
  "\<exists>options. parse_options (''p'' # concat (map (\<lambda>(k, v). [''--'' @ k, v])
      [(''topic_name'', ''a''), (''node_name'', ''--topic_name''), (''topic_name'', ''b'')])) = Inr (options, []) \<and>
    (\<forall>name d. option_or_default options name d =
      (case map_of (rev [(''topic_name'', ''a''), (''node_name'', ''--topic_name''), (''topic_name'', ''b'')]) name of
         Some v \<Rightarrow> v | None \<Rightarrow> d))"
  by (rule options_roundtrip) (simp add: option_names_def)

text \<open>
  C39: the only way to crash the parser. The command line is read beyond its end exactly when its last
  argument is a recognised option and the arguments before it have been parsed to their end, so that
  the last one is not itself the value of an option.
\<close>

theorem parse_options_overruns_iff:
  "parse_options (program # args) = Inl OutOfBounds \<longleftrightarrow>
     (\<exists>pre name r. args = pre @ [''--'' @ name] \<and> name \<in> set option_names \<and> parse_options (program # pre) = Inr r)"
proof
  assume "parse_options (program # args) = Inl OutOfBounds"
  then obtain pre a r where a: "args = pre @ [a]" "parse_from pre Map.empty [] = Inr r" "recognized a \<noteq> None"
    using parse_from_fails_at_end [of args Map.empty "[]"] by (auto simp: parse_options_def)
  from a(3) obtain name where "recognized a = Some name" by auto
  with a show "\<exists>pre name r. args = pre @ [''--'' @ name] \<and> name \<in> set option_names \<and> parse_options (program # pre) = Inr r"
    by (auto simp: parse_options_def recognized_Some)
next
  assume "\<exists>pre name r. args = pre @ [''--'' @ name] \<and> name \<in> set option_names \<and> parse_options (program # pre) = Inr r"
  then obtain pre name r where a: "args = pre @ [''--'' @ name]" "name \<in> set option_names" "parse_from pre Map.empty [] = Inr r"
    by (auto simp: parse_options_def)
  obtain o1 out1 where r: "r = (o1, out1)" by (cases r)
  have "recognized (''--'' @ name) = Some name" using a(2) by (simp add: recognized_Some)
  with a r parse_from_append [of pre Map.empty "[]" o1 out1 "[''--'' @ name]"]
  show "parse_options (program # args) = Inl OutOfBounds" by (simp add: parse_options_def)
qed

end
