(* ===== verification/Benchmark.thy ===== *)
theory Benchmark
  imports Node_Correct Parse_Options
begin

text \<open>
  The benchmark program (\<^verbatim>\<open>src/benchmark_main.cpp\<close>): a generator publishes time stamps, a reflector sends
  them back with its ID, and the generator collects the round-trip times per reflector. The callbacks
  capture the benchmark object; their user data holds what they use of it, the node's ID (known after
  \<^verbatim>\<open>connect()\<close>) included. Every reading of the steady clock takes the next value of a sequence. Numbers
  in messages are in host byte order, little-endian here. The average is computed in floating point,
  which is a parameter.
\<close>

section \<open>Numbers in host byte order\<close>

definition host_bytes :: "nat \<Rightarrow> 'a::len word \<Rightarrow> byte list" where
  "host_bytes n w = map (\<lambda>i. ucast (drop_bit (8 * i) w)) [0..<n]"

definition host_word :: "byte list \<Rightarrow> 'a::len word" where
  "host_word bs = foldr (\<lambda>b a. ucast b OR push_bit 8 a) bs 0"

lemma length_host_bytes [simp]: "length (host_bytes n w) = n"
  by (simp add: host_bytes_def)

lemma host_bytes_Suc: "host_bytes (Suc n) w = ucast w # host_bytes n (drop_bit 8 w)"
proof -
  have "[0..<Suc n] = 0 # map Suc [0..<n]" by (simp add: upt_conv_Cons map_Suc_upt)
  then show ?thesis by (simp add: host_bytes_def comp_def drop_bit_drop_bit algebra_simps)
qed

lemma host_word_bytes: "host_word (host_bytes n w) = take_bit (8 * n) w"
proof (induction n arbitrary: w)
  case 0
  then show ?case by (simp add: host_word_def host_bytes_def)
next
  case (Suc n)
  have "host_word (host_bytes (Suc n) w) = ucast (ucast w :: byte) OR push_bit 8 (host_word (host_bytes n (drop_bit 8 w)))"
    by (simp add: host_bytes_Suc host_word_def)
  also have "\<dots> = take_bit (8 * Suc n) w"
    unfolding Suc by (rule bit_word_eqI) (auto simp: bit_simps)
  finally show ?case .
qed

lemma host_word_u32 [simp]: "host_word (host_bytes 4 (w :: u32)) = w"
  using host_word_bytes [of 4 w] by (simp add: take_bit_word_eq_self)

lemma host_word_u64 [simp]: "host_word (host_bytes 8 (w :: u64)) = w"
  using host_word_bytes [of 8 w] by (simp add: take_bit_word_eq_self)

section \<open>Histogram\<close>

record histogram =
  hg_values :: "u64 list"
  hg_next_index :: u32

definition histogram_new :: "nat \<Rightarrow> histogram" where
  "histogram_new n = \<lparr>hg_values = replicate n 0, hg_next_index = 0\<rparr>"

definition histogram_add :: "u64 \<Rightarrow> histogram \<Rightarrow> bool \<times> histogram" where
  "histogram_add v h =
     (if length (hg_values h) \<le> unat (hg_next_index h) then (False, h)
      else (True, h\<lparr>hg_values := (hg_values h)[unat (hg_next_index h) := v], hg_next_index := hg_next_index h + 1\<rparr>))"

text \<open>One pass of the loop over the values, for the smallest and the largest.\<close>

definition min_max_step :: "u64 \<times> u64 \<Rightarrow> u64 \<Rightarrow> u64 \<times> u64" where
  "min_max_step = (\<lambda>(mn, mx) v. (if v < mn then v else mn, if mx < v then v else mx))"

definition histogram_json_data :: "(u64 list \<Rightarrow> json) \<Rightarrow> histogram \<Rightarrow> json res" where
  "histogram_json_data average h =
     rbind (read_at 0 (unat (hg_next_index h)) (hg_values h)) (\<lambda>vs.
     case foldl min_max_step (- 1, 0) vs of
       (mn, mx) \<Rightarrow>
         json_assign_all
           [([''min''], JUInt mn), ([''max''], JUInt mx), ([''average''], average vs),
            ([''values_count''], json_of_unsigned (hg_next_index h)), ([''values''], JArray (map JUInt vs))] JNull)"

section \<open>State\<close>

text \<open>The header of a message: two 32-bit IDs, then the time stamp and the counter with 64 bits.\<close>

definition benchmark_header_size :: nat where "benchmark_header_size = 24"
definition histogram_size :: nat where "histogram_size = 1000 * 600"

record bench =
  bn_node_id :: u32
  bn_message_size :: u32
  bn_counter :: u64
  bn_histograms :: "(u32 \<times> histogram) list"
  bn_clock :: "nat \<Rightarrow> int"
  bn_tick :: nat

definition read_clock :: "bench \<Rightarrow> int \<times> bench" where
  "read_clock b = (bn_clock b (bn_tick b), b\<lparr>bn_tick := Suc (bn_tick b)\<rparr>)"

definition now_timestamp :: "bench \<Rightarrow> u64 \<times> bench" where
  "now_timestamp b = (case read_clock b of (t, b1) \<Rightarrow> (word_of_int t, b1))"

text \<open>\<^verbatim>\<open>m_histograms\<close> is a map ordered by the reflector ID; \<open>histogram_put\<close> emplaces or overwrites.\<close>

fun histogram_put :: "u32 \<Rightarrow> histogram \<Rightarrow> (u32 \<times> histogram) list \<Rightarrow> (u32 \<times> histogram) list" where
  "histogram_put i h [] = [(i, h)]"
| "histogram_put i h ((j, g) # m) =
     (if i = j then (i, h) # m else if i < j then (i, h) # (j, g) # m else (j, g) # histogram_put i h m)"

definition add_latency :: "u32 \<Rightarrow> u64 \<Rightarrow> bench \<Rightarrow> bench" where
  "add_latency reflector latency b =
     (let h = (case map_of (bn_histograms b) reflector of None \<Rightarrow> histogram_new histogram_size | Some h \<Rightarrow> h)
      in b\<lparr>bn_histograms := histogram_put reflector (snd (histogram_add latency h)) (bn_histograms b)\<rparr>)"

section \<open>Callbacks\<close>

text \<open>
  Both compare the size first. The log statements of \<^verbatim>\<open>ping\<close> read the header too, which is there when
  the message has at least the header size.
\<close>

definition ping_callback :: "bench callback" where
  "ping_callback message msize ctx =
     (case ctx of (pubs, b) \<Rightarrow>
        if bn_message_size b \<noteq> msize then Inr (pubs, b)
        else
          rbind (read_at 0 benchmark_header_size message) (\<lambda>_.
          rbind (write_at 4 (host_bytes 4 (bn_node_id b)) message) (\<lambda>message1.
          rbind (at pubs 0) (\<lambda>p.
          rbind (publish message1 p) (\<lambda>(ok, p1). Inr (pubs[0 := p1], b))))))"

definition pong_callback :: "bench callback" where
  "pong_callback message msize ctx =
     (case ctx of (pubs, b) \<Rightarrow>
        if bn_message_size b \<noteq> msize then Inr (pubs, b)
        else
          (case now_timestamp b of
             (now, b1) \<Rightarrow>
               rbind (read_at 0 benchmark_header_size message) (\<lambda>header.
               let latency = now - host_word (slice 8 8 header)
               in Inr (pubs, add_latency (host_word (slice 4 4 header)) latency b1))))"

section \<open>The generator\<close>

text \<open>The header is written over the first bytes of the padded buffer, then the buffer is published.\<close>

definition generate :: "byte list \<Rightarrow> bench node \<Rightarrow> bench \<Rightarrow> (byte list \<times> bench node \<times> bench) res" where
  "generate buffer n b =
     rbind (write_at 0 (host_bytes 4 (nd_node_id n)) buffer) (\<lambda>buffer1.
     case now_timestamp b of
       (now, b1) \<Rightarrow>
         rbind (write_at 8 (host_bytes 8 now) buffer1) (\<lambda>buffer2.
         rbind (write_at 16 (host_bytes 8 (bn_counter b1)) buffer2) (\<lambda>buffer3.
         rbind (at (nd_publishers n) 0) (\<lambda>p.
         rbind (publish buffer3 p) (\<lambda>(ok, p1).
         Inr (buffer3, n\<lparr>nd_publishers := (nd_publishers n)[0 := p1]\<rparr>, b1\<lparr>bn_counter := bn_counter b1 + 1\<rparr>))))))"

text \<open>
  The busy wait until the next iteration, for at most \<open>k\<close> rounds: \<open>False\<close> when it has not ended by then.
  The clock is read after every \<^verbatim>\<open>spin_once()\<close>.
\<close>

fun busy_wait :: "nat \<Rightarrow> 'w network \<Rightarrow> int \<Rightarrow> (bench, 'w) node_state \<Rightarrow> (bool \<times> (bench, 'w) node_state) res" where
  "busy_wait 0 nw deadline s = Inr (False, s)"
| "busy_wait (Suc k) nw deadline s =
     rbind (spin_once nw s) (\<lambda>(result, n, b, w).
     case read_clock b of
       (now, b1) \<Rightarrow>
         if 0 < deadline - now \<and> (result = SpinSuccess \<or> result = SpinNoWork) then busy_wait k nw deadline (n, b1, w)
         else Inr (True, n, b1, w))"

text \<open>
  The main loop of the generator for at most \<open>k\<close> messages, each with at most \<open>m\<close> rounds of waiting;
  \<open>None\<close> while it is still running.
\<close>

fun generator_loop ::
    "nat \<Rightarrow> nat \<Rightarrow> 'w network \<Rightarrow> u32 \<Rightarrow> u32 \<Rightarrow> byte list \<Rightarrow> (bench, 'w) node_state \<Rightarrow> (bool option \<times> (bench, 'w) node_state) res" where
  "generator_loop 0 m nw period count buffer s = Inr (None, s)"
| "generator_loop (Suc k) m nw period count buffer s =
     (case s of (n, b, w) \<Rightarrow>
        rbind (generate buffer n b) (\<lambda>(buffer1, n1, b1).
        case read_clock b1 of
          (now, b2) \<Rightarrow>
            rbind (busy_wait m nw (now + int (unat period) * 10 ^ 6) (n1, b2, w)) (\<lambda>(ended, n2, b3, w1).
            if \<not> ended then Inr (None, n2, b3, w1)
            else if count \<noteq> 0 \<and> ucast count \<le> bn_counter b3 then Inr (Some True, n2, b3, w1)
            else generator_loop k m nw period count buffer1 (n2, b3, w1))))"

section \<open>The program\<close>

record bench_config =
  bc_broker_ip :: string
  bc_node_name :: string
  bc_topic_name :: string
  bc_message_type_name :: string
  bc_message_size :: u32
  bc_topic_priority :: i8
  bc_publish_period_ms :: u32
  bc_publish_count :: u32
  bc_node_type :: string

definition bench_options :: "options \<Rightarrow> bench_config res" where
  "bench_options o1 =
     rbind (number_option o1 ''message_size'' (to_string (int benchmark_header_size))) (\<lambda>msize.
     rbind (priority_option o1 ''1'') (\<lambda>priority.
     rbind (number_option o1 ''publish_period_ms'' ''500'') (\<lambda>period.
     rbind (number_option o1 ''publish_count'' ''0'') (\<lambda>count.
     Inr \<lparr>bc_broker_ip = option_or_default o1 ''broker_ip'' ''127.0.0.1'',
          bc_node_name = option_or_default o1 ''node_name'' ''bench_node'',
          bc_topic_name = option_or_default o1 ''topic_name'' ''bench_topic'',
          bc_message_type_name = option_or_default o1 ''message_type_name'' ''bench_type'',
          bc_message_size = msize, bc_topic_priority = priority, bc_publish_period_ms = period,
          bc_publish_count = count,
          bc_node_type = option_or_default o1 ''bench_node_type'' ''generator''\<rparr>))))"

text \<open>
  The constructor stores its arguments, the name of the node with the type of the node appended. (The number of
  messages is an argument of \<^verbatim>\<open>run()\<close>.)
\<close>

definition benchmark_node_new :: "bench_config \<Rightarrow> bench_config" where
  "benchmark_node_new cfg = cfg\<lparr>bc_node_name := bc_node_name cfg @ ''_'' @ bc_node_type cfg\<rparr>"

text \<open>The node with its publisher and its subscriber, or \<open>None\<close> for an unknown type.\<close>

definition bench_node :: "bench_config \<Rightarrow> bench node option" where
  "bench_node cfg =
     (let n = node_new (bc_node_name cfg) (bc_broker_ip cfg) UDP broker_default_port;
          make = (\<lambda>out inp callback.
            create_subscriber (\<lambda>_ q. q) (bc_topic_name cfg @ inp) (bc_message_type_name cfg) (bc_message_size cfg) callback
              (bc_topic_priority cfg)
              (create_publisher (\<lambda>_ q. q) (bc_topic_name cfg @ out) (bc_message_type_name cfg) (bc_message_size cfg)
                 (bc_topic_priority cfg) n))
      in if bc_node_type cfg = ''generator'' then Some (make ''_ping'' ''_pong'' pong_callback)
         else if bc_node_type cfg = ''reflector'' then Some (make ''_pong'' ''_ping'' ping_callback)
         else None)"

text \<open>
  \<^verbatim>\<open>run()\<close>, for at most \<open>k\<close> messages or iterations and \<open>m\<close> rounds of waiting. Without an event the
  result is the start state.
\<close>

definition bench_run ::
    "nat \<Rightarrow> nat \<Rightarrow> 'w network \<Rightarrow> bench_config \<Rightarrow> (nat \<Rightarrow> int) \<Rightarrow> 'w \<Rightarrow> (bool option \<times> (bench, 'w) node_state option) res" where
  "bench_run k m nw cfg clock w =
     (if unat (bc_message_size cfg) < benchmark_header_size then Inr (Some False, None)
      else
        (case bench_node cfg of
           None \<Rightarrow> Inr (Some False, None)
         | Some n \<Rightarrow>
             rbind (node_connect nw n w) (\<lambda>(ok, n1, w1).
             let b = \<lparr>bn_node_id = nd_node_id n1, bn_message_size = bc_message_size cfg, bn_counter = 0,
                      bn_histograms = [], bn_clock = clock, bn_tick = 0\<rparr>
             in if \<not> ok then Inr (Some False, Some (n1, b, w1))
                else if bc_node_type cfg = ''generator'' then
                  rbind (generator_loop k m nw (bc_publish_period_ms cfg) (bc_publish_count cfg)
                           (replicate (unat (bc_message_size cfg)) 0x42) (n1, b, w1)) (\<lambda>(r, s). Inr (r, Some s))
                else rbind (node_spin k nw (n1, b, w1)) (\<lambda>(r, s).
                     Inr (map_option (\<lambda>_. True) r, Some s)))))"

text \<open>\<^verbatim>\<open>print_results()\<close>: one object per reflector, in the order of their IDs.\<close>

fun histogram_results :: "(u64 list \<Rightarrow> json) \<Rightarrow> u32 \<Rightarrow> (u32 \<times> histogram) list \<Rightarrow> json list res" where
  "histogram_results average node_id [] = Inr []"
| "histogram_results average node_id ((i, h) # m) =
     rbind (histogram_json_data average h) (\<lambda>data.
     rbind (json_assign_all [([''generator_id''], json_of_unsigned node_id), ([''reflector_id''], json_of_unsigned i),
                             ([''data''], data)] JNull) (\<lambda>r.
     rbind (histogram_results average node_id m) (\<lambda>rs. Inr (r # rs))))"

definition print_results :: "(u64 list \<Rightarrow> json) \<Rightarrow> u32 \<Rightarrow> bench \<Rightarrow> string res" where
  "print_results average node_id b =
     rbind (histogram_results average node_id (bn_histograms b)) (\<lambda>rs.
     rbind (json_dump (JArray rs)) (\<lambda>s. Inr (s @ [CHR 0x0A])))"

section \<open>Collecting values\<close>

text \<open>Values added one after the other.\<close>

fun add_all :: "u64 list \<Rightarrow> histogram \<Rightarrow> bool list \<times> histogram" where
  "add_all [] h = ([], h)"
| "add_all (v # vs) h =
     (case histogram_add v h of (ok, h1) \<Rightarrow> (case add_all vs h1 of (oks, h2) \<Rightarrow> (ok # oks, h2)))"

text \<open>The histogram with \<open>n\<close> places that has taken the values \<open>vs\<close>.\<close>

definition holds :: "nat \<Rightarrow> u64 list \<Rightarrow> histogram \<Rightarrow> bool" where
  "holds n vs h \<longleftrightarrow> n < 2 ^ 32 \<and> length (hg_values h) = n \<and> unat (hg_next_index h) = length vs \<and>
     take (length vs) (hg_values h) = vs"

lemma holds_new: "n < 2 ^ 32 \<Longrightarrow> holds n [] (histogram_new n)"
  by (simp add: holds_def histogram_new_def)

lemma holds_length: "holds n vs h \<Longrightarrow> length vs \<le> n"
  unfolding holds_def by (metis length_take min.cobounded1 order.trans nle_le length_take min.absorb_iff2)

lemma holds_add:
  assumes "holds n vs h"
  shows "length vs < n \<Longrightarrow> \<exists>h1. histogram_add v h = (True, h1) \<and> holds n (vs @ [v]) h1"
    and "length vs = n \<Longrightarrow> histogram_add v h = (False, h)"
proof -
  have h: "n < 2 ^ 32" "length (hg_values h) = n" "unat (hg_next_index h) = length vs" "take (length vs) (hg_values h) = vs"
    using assms by (simp_all add: holds_def)
  show "length vs = n \<Longrightarrow> histogram_add v h = (False, h)" using h by (simp add: histogram_add_def)
  assume less: "length vs < n"
  have "unat (hg_next_index h + 1) = Suc (length vs)"
    using h less by (subst unat_add_lem [THEN iffD1]) simp_all
  moreover have "take (Suc (length vs)) ((hg_values h)[length vs := v]) = vs @ [v]"
    using h less by (simp add: take_Suc_conv_app_nth take_update_swap)
  ultimately show "\<exists>h1. histogram_add v h = (True, h1) \<and> holds n (vs @ [v]) h1"
    using h less by (simp add: histogram_add_def holds_def)
qed

lemma add_all_holds:
  "holds n us h \<Longrightarrow>
   \<exists>h'. add_all vs h = (map (\<lambda>i. length us + i < n) [0..<length vs], h') \<and> holds n (take n (us @ vs)) h'"
proof (induction vs arbitrary: us h)
  case Nil
  then show ?case using holds_length [OF Nil] by simp
next
  case (Cons v vs)
  note IH = Cons.IH and us = Cons.prems
  have idx: "map (\<lambda>i. length us + i < n) [0..<length (v # vs)] =
      (length us < n) # map (\<lambda>i. length us + Suc i < n) [0..<length vs]"
    by (simp add: upt_conv_Cons map_Suc_upt [symmetric] comp_def del: upt_Suc)
  show ?case
  proof (cases "length us < n")
    case True
    from holds_add(1) [OF us True, of v] obtain h1 where h1: "histogram_add v h = (True, h1)" "holds n (us @ [v]) h1" by blast
    from IH [OF h1(2)] h1(1) True show ?thesis unfolding idx by auto
  next
    case False
    then have full: "length us = n" using holds_length [OF us] by simp
    from IH [OF us] holds_add(2) [OF us full, of v] full show ?thesis unfolding idx by auto
  qed
qed

lemma min_max_foldl:
  "foldl min_max_step (mn, mx) vs = (foldl min mn vs, foldl max mx vs)"
proof (induction vs arbitrary: mn mx)
  case (Cons v vs)
  have "min_max_step (mn, mx) v = (min mn v, max mx v)"
    by (auto simp: min_max_step_def min_def max_def)
  with Cons show ?case by simp
qed simp

lemma foldl_Min: "foldl min (a :: u64) vs = Min (insert a (set vs))"
proof (induction vs arbitrary: a)
  case (Cons v vs)
  then show ?case by (cases "vs = []") (simp_all add: min.assoc)
qed simp

lemma foldl_Max: "foldl max (a :: u64) vs = Max (insert a (set vs))"
proof (induction vs arbitrary: a)
  case (Cons v vs)
  then show ?case by (cases "vs = []") (simp_all add: max.assoc)
qed simp

lemma foldl_min_max:
  assumes "vs \<noteq> []"
  shows "foldl min (- 1) vs = Min (set vs)" "foldl max 0 vs = Max (set (vs :: u64 list))"
  using assms by (simp_all add: foldl_Min foldl_Max min_absorb2 max_absorb2)

lemma json_data_holds:
  assumes "holds n vs h"
  shows "histogram_json_data average h =
    Inr (JObject [(''average'', average vs), (''max'', JUInt (foldl max 0 vs)), (''min'', JUInt (foldl min (- 1) vs)),
                  (''values'', JArray (map JUInt vs)), (''values_count'', json_of_unsigned (hg_next_index h))])"
  using assms holds_length [OF assms]
  by (simp add: holds_def histogram_json_data_def read_at_def slice_def min_max_foldl)

section \<open>Ping and pong\<close>

text \<open>What the generator publishes, and what the reflector makes of it.\<close>

definition ping_message :: "u32 \<Rightarrow> u64 \<Rightarrow> u64 \<Rightarrow> byte list \<Rightarrow> byte list" where
  "ping_message generator stamp counter buffer =
     host_bytes 4 generator @ slice 4 4 buffer @ host_bytes 8 stamp @ host_bytes 8 counter @ drop 24 buffer"

definition reflected :: "u32 \<Rightarrow> byte list \<Rightarrow> byte list" where
  "reflected reflector message = take 4 message @ host_bytes 4 reflector @ drop 8 message"

lemma publish_here:
  assumes "publisher_inv p" and "pu_waiting p = []" and "length message = unat (pu_message_size p)"
  shows "\<exists>p1. publish message p = Inr (True, p1) \<and> publisher_inv p1 \<and> pu_waiting p1 = [message]"
  using publish_room [OF assms(1), of message] assms(2,3) by (auto simp: message_queue_capacity_def)

lemma generate_message:
  fixes b :: bench
  assumes p: "nd_publishers n = p # ps" "publisher_inv p" "pu_waiting p = []"
    and buffer: "length buffer = unat (pu_message_size p)" "24 \<le> length buffer"
  defines "message \<equiv> ping_message (nd_node_id n) (word_of_int (bn_clock b (bn_tick b))) (bn_counter b) buffer"
  shows "\<exists>p1. generate buffer n b = Inr (message, n\<lparr>nd_publishers := p1 # ps\<rparr>,
      b\<lparr>bn_tick := Suc (bn_tick b), bn_counter := bn_counter b + 1\<rparr>) \<and> publisher_inv p1 \<and> pu_waiting p1 = [message]"
proof -
  let ?t = "word_of_int (bn_clock b (bn_tick b)) :: u64"
  define b1 where "b1 = host_bytes 4 (nd_node_id n) @ drop 4 buffer"
  define b2 where "b2 = host_bytes 4 (nd_node_id n) @ slice 4 4 buffer @ host_bytes 8 ?t @ drop 16 buffer"
  have 1: "write_at 0 (host_bytes 4 (nd_node_id n)) buffer = Inr b1"
    using buffer by (simp add: write_at_def b1_def)
  have 2: "write_at 8 (host_bytes 8 ?t) b1 = Inr b2"
    using buffer by (simp add: write_at_def b1_def b2_def slice_def)
  have 3: "write_at 16 (host_bytes 8 (bn_counter b)) b2 = Inr message"
    using buffer by (simp add: write_at_def b2_def message_def ping_message_def)
  have "length message = length buffer"
    using buffer by (simp add: message_def ping_message_def)
  with publish_here [OF p(2,3), of message] buffer(1) obtain p1 where
    p1: "publish message p = Inr (True, p1)" "publisher_inv p1" "pu_waiting p1 = [message]" by auto
  have "at (nd_publishers n) 0 = Inr p" by (simp add: p(1))
  then show ?thesis
    using 1 2 3 p1 by (intro exI [of _ p1]) (simp add: generate_def now_timestamp_def read_clock_def p(1))
qed

lemma ping_reflects:
  assumes q: "publisher_inv q" "pu_waiting q = []"
    and m: "length message = unat (pu_message_size q)" "24 \<le> length message" and size: "bn_message_size r = pu_message_size q"
  shows "\<exists>q1. ping_callback message (pu_message_size q) (q # qs, r) = Inr (q1 # qs, r) \<and>
    publisher_inv q1 \<and> pu_waiting q1 = [reflected (bn_node_id r) message]"
proof -
  have w: "write_at 4 (host_bytes 4 (bn_node_id r)) message = Inr (reflected (bn_node_id r) message)"
    using m(2) by (simp add: write_at_def reflected_def)
  have "length (reflected (bn_node_id r) message) = length message"
    using m(2) by (simp add: reflected_def)
  with publish_here [OF q, of "reflected (bn_node_id r) message"] m(1) obtain q1 where
    "publish (reflected (bn_node_id r) message) q = Inr (True, q1)" "publisher_inv q1"
    "pu_waiting q1 = [reflected (bn_node_id r) message]" by auto
  with w m(2) size show ?thesis
    by (intro exI [of _ q1]) (simp add: ping_callback_def read_at_def benchmark_header_size_def)
qed

lemma pong_measures:
  assumes "24 \<le> length buffer" and size: "bn_message_size g = msize"
  shows "pong_callback (reflected i (ping_message generator stamp c buffer)) msize (ps, g) =
    Inr (ps, add_latency i (word_of_int (bn_clock g (bn_tick g)) - stamp) (g\<lparr>bn_tick := Suc (bn_tick g)\<rparr>))"
proof -
  let ?m = "reflected i (ping_message generator stamp c buffer)"
  have m: "?m = host_bytes 4 generator @ host_bytes 4 i @ host_bytes 8 stamp @ host_bytes 8 c @ drop 24 buffer"
    using assms(1) by (simp add: reflected_def ping_message_def)
  have "slice 4 4 (slice 0 24 ?m) = host_bytes 4 i" "slice 8 8 (slice 0 24 ?m) = host_bytes 8 stamp"
    by (simp_all add: m slice_def)
  moreover have "24 \<le> length ?m" by (simp add: m)
  ultimately show ?thesis
    by (simp add: pong_callback_def now_timestamp_def read_clock_def read_at_def benchmark_header_size_def size Let_def)
qed

section \<open>Properties\<close>

text \<open>
  C28: the measured latency is the round-trip time. What the generator publishes at clock reading \<open>t0\<close> is
  a message that the reflector's callback publishes again with only its own ID entered; when the
  generator's callback gets that message at clock reading \<open>t1\<close>, it adds \<open>t1 - t0\<close> (in nanoseconds,
  modulo 2 to the 64) to the histogram of that reflector. The content of the buffer plays no part.
\<close>

theorem round_trip_latency:
  assumes "nd_publishers n = p # ps" and "publisher_inv p" and "pu_waiting p = []"
    and "length buffer = unat (pu_message_size p)" and "benchmark_header_size \<le> length buffer"
    and "publisher_inv q" and "pu_waiting q = []" and "pu_message_size q = pu_message_size p"
    and "bn_message_size r = pu_message_size p" and "bn_message_size g = pu_message_size p"
  shows "\<exists>buffer1 n1 b1 ping q1 pong.
    generate buffer n b = Inr (buffer1, n1, b1) \<and> pu_waiting (nd_publishers n1 ! 0) = [ping] \<and>
    ping_callback ping (pu_message_size p) (q # qs, r) = Inr (q1 # qs, r) \<and> pu_waiting q1 = [pong] \<and>
    pong_callback pong (pu_message_size p) (ps', g) =
      Inr (ps', add_latency (bn_node_id r) (word_of_int (bn_clock g (bn_tick g) - bn_clock b (bn_tick b)))
                  (g\<lparr>bn_tick := Suc (bn_tick g)\<rparr>))"
proof -
  let ?ping = "ping_message (nd_node_id n) (word_of_int (bn_clock b (bn_tick b))) (bn_counter b) buffer"
  have big: "24 \<le> length buffer" using assms(5) by (simp add: benchmark_header_size_def)
  from generate_message [OF assms(1-4) big, of b] obtain p1 where
    1: "generate buffer n b = Inr (?ping, n\<lparr>nd_publishers := p1 # ps\<rparr>,
      b\<lparr>bn_tick := Suc (bn_tick b), bn_counter := bn_counter b + 1\<rparr>)" "pu_waiting p1 = [?ping]" by blast
  have "length ?ping = length buffer" using big by (simp add: ping_message_def)
  with ping_reflects [OF assms(6,7), of ?ping r qs] assms(4,8,9) big obtain q1 where
    2: "ping_callback ?ping (pu_message_size p) (q # qs, r) = Inr (q1 # qs, r)"
    "pu_waiting q1 = [reflected (bn_node_id r) ?ping]" by auto
  from pong_measures [OF big assms(10)] 1 2 show ?thesis
    by (intro exI conjI) (assumption | simp)+
qed

text \<open>A concrete generator and reflector, with clock readings 1000 and 5000.\<close>

definition sample_bench :: "u32 \<Rightarrow> int \<Rightarrow> bench" where
  "sample_bench i t = \<lparr>bn_node_id = i, bn_message_size = 24, bn_counter = 0, bn_histograms = [],
                       bn_clock = (\<lambda>_. t), bn_tick = 0\<rparr>"

theorem round_trip_latency_witness:
  "\<exists>buffer1 n1 b1 ping q1 pong.
    generate (replicate 24 0x42) ((node_new ''n'' ''h'' UDP 1)\<lparr>nd_publishers := [publisher_new ''a'' ''T'' 24 1 17]\<rparr>)
      (sample_bench 1 1000) = Inr (buffer1, n1, b1) \<and> pu_waiting (nd_publishers n1 ! 0) = [ping] \<and>
    ping_callback ping (pu_message_size (publisher_new ''a'' ''T'' 24 1 17))
      (publisher_new ''b'' ''T'' 24 1 17 # [], sample_bench 2 0) = Inr (q1 # [], sample_bench 2 0) \<and> pu_waiting q1 = [pong] \<and>
    pong_callback pong (pu_message_size (publisher_new ''a'' ''T'' 24 1 17)) ([], sample_bench 1 5000) =
      Inr ([], add_latency (bn_node_id (sample_bench 2 0))
        (word_of_int (bn_clock (sample_bench 1 5000) (bn_tick (sample_bench 1 5000)) -
           bn_clock (sample_bench 1 1000) (bn_tick (sample_bench 1 1000))))
        (sample_bench 1 5000\<lparr>bn_tick := Suc (bn_tick (sample_bench 1 5000))\<rparr>))"
proof (rule round_trip_latency)
  show "publisher_inv (publisher_new ''a'' ''T'' 24 1 17)" "pu_waiting (publisher_new ''a'' ''T'' 24 1 17) = []"
    "publisher_inv (publisher_new ''b'' ''T'' 24 1 17)" "pu_waiting (publisher_new ''b'' ''T'' 24 1 17) = []"
    by (simp_all add: publisher_new_inv)
qed (simp_all add: publisher_new_def sample_bench_def benchmark_header_size_def)

text \<open>
  C33: a histogram keeps the first values it gets. From a new histogram of size \<open>n\<close>, adding values
  succeeds exactly for the first \<open>n\<close>; the JSON data then holds these values in their order, their
  number, and, when there are any, their smallest and largest; reading them is never out of bounds.
\<close>

theorem histogram_collects:
  assumes "n < 2 ^ 32"
  shows "\<exists>h data. add_all vs (histogram_new n) = (map (\<lambda>i. i < n) [0..<length vs], h) \<and>
    histogram_json_data average h = Inr data \<and>
    json_at data ''values'' = Inr (JArray (map JUInt (take n vs))) \<and>
    json_at data ''values_count'' = Inr (JUInt (of_nat (length (take n vs)))) \<and>
    (take n vs \<noteq> [] \<longrightarrow> json_at data ''min'' = Inr (JUInt (Min (set (take n vs)))) \<and>
                       json_at data ''max'' = Inr (JUInt (Max (set (take n vs)))))"
proof -
  from add_all_holds [OF holds_new [OF assms], of vs] obtain h where
    h: "add_all vs (histogram_new n) = (map (\<lambda>i. i < n) [0..<length vs], h)" "holds n (take n vs) h" by auto
  have "unat (hg_next_index h) = length (take n vs)" using h(2) by (simp add: holds_def)
  then have "json_of_unsigned (hg_next_index h) = JUInt (of_nat (length (take n vs)))"
    unfolding json_of_unsigned_def by (metis of_nat_unat)
  with h json_data_holds [OF h(2), of average] foldl_min_max [of "take n vs"] show ?thesis
    by (intro exI [of _ h] exI conjI) (assumption | simp)+
qed

theorem histogram_collects_witness:
  "\<exists>h data. add_all [7, 3, 9] (histogram_new 2) = (map (\<lambda>i. i < 2) [0..<length [7, 3, 9 :: u64]], h) \<and>
    histogram_json_data (\<lambda>_. JNull) h = Inr data \<and>
    json_at data ''values'' = Inr (JArray (map JUInt (take 2 [7, 3, 9]))) \<and>
    json_at data ''values_count'' = Inr (JUInt (of_nat (length (take 2 [7, 3, 9 :: u64])))) \<and>
    (take 2 [7, 3, 9 :: u64] \<noteq> [] \<longrightarrow> json_at data ''min'' = Inr (JUInt (Min (set (take 2 [7, 3, 9])))) \<and>
                       json_at data ''max'' = Inr (JUInt (Max (set (take 2 [7, 3, 9])))))"
  by (rule histogram_collects) simp

end
