(* ===== verification/Benchmark_Run.thy ===== *)
theory Benchmark_Run
  imports Benchmark
begin

text \<open>
  A whole run of the benchmark's generator: every busy wait ends because the steady clock advances, whatever
  arrives meanwhile, and the program stops after the number of messages that was asked for.
\<close>

section \<open>What spinning leaves of the node\<close>

text \<open>The callbacks and the sizes of messages, of subscribers and of publishers.\<close>

definition frame :: "'u node \<Rightarrow> ('u callback \<times> u32) list \<times> u32 list" where
  "frame n = (map (\<lambda>s. (su_callback s, su_message_size s)) (nd_subscribers n), map pu_message_size (nd_publishers n))"

definition sizes_kept :: "('u callback \<times> u32) list \<times> u32 list \<Rightarrow> bool" where
  "sizes_kept fr \<longleftrightarrow> (\<forall>(cb, sz)\<in>set (fst fr). \<forall>m ps u ps' u'. cb m sz (ps, u) = Inr (ps', u') \<longrightarrow>
     map pu_message_size ps' = map pu_message_size ps)"

lemma map_update_same: "i < length xs \<Longrightarrow> f x = f (xs ! i) \<Longrightarrow> map f (xs[i := x]) = map f xs"
  by (simp add: map_update list_update_same_conv)

lemma run_callback_frame:
  "run_callback s (ps, u) = Inr (ok, s', ps', u') \<Longrightarrow>
   su_callback s' = su_callback s \<and> su_message_size s' = su_message_size s \<and>
   (ps' = ps \<or> (\<exists>m. su_callback s m (su_message_size s) (ps, u) = Inr (ps', u')))"
  by (auto simp: run_callback_def split: option.splits prod.splits elim!: rbind_InrE)

lemma run_callbacks_frame:
  "run_callbacks is n u = Inr (ok, n', u') \<Longrightarrow> sizes_kept (frame n) \<Longrightarrow> frame n' = frame n"
proof (induction "is" arbitrary: n u)
  case Nil
  then show ?case by simp
next
  case (Cons i "is")
  note IH = Cons.IH and prems = Cons.prems
  let ?s = "nd_subscribers n ! i"
  have i: "i < length (nd_subscribers n)" using prems(1) by (auto simp: at_eq_Inr_iff elim!: rbind_InrE)
  show ?case
  proof (cases "su_messages_queued ?s = 0")
    case True
    with prems i IH [of n u] show ?thesis by simp
  next
    case False
    with prems(1) i obtain ok1 s1 ps u1 where
      1: "run_callback ?s (nd_publishers n, u) = Inr (ok1, s1, ps, u1)"
      and n': "(if \<not> ok1 then Inr (False, n\<lparr>nd_subscribers := (nd_subscribers n)[i := s1], nd_publishers := ps\<rparr>, u1)
        else run_callbacks is (n\<lparr>nd_subscribers := (nd_subscribers n)[i := s1], nd_publishers := ps\<rparr>) u1) = Inr (ok, n', u')"
      by (auto simp: Let_def elim!: rbind_InrE)
    let ?n1 = "n\<lparr>nd_subscribers := (nd_subscribers n)[i := s1], nd_publishers := ps\<rparr>"
    note s1 = run_callback_frame [OF 1]
    have "(su_callback ?s, su_message_size ?s) \<in> set (fst (frame n))" using i by (auto simp: frame_def)
    with s1 prems(2) have "map pu_message_size ps = map pu_message_size (nd_publishers n)"
      unfolding sizes_kept_def by fast
    with s1 i have "frame ?n1 = frame n" by (simp add: frame_def map_update_same)
    with n' IH [of ?n1 u1] prems(2) show ?thesis by (auto split: if_splits)
  qed
qed

lemma node_send_data_frame: "node_send_data nw i n w = Inr (ok, n', w') \<Longrightarrow> frame n' = frame n"
  by (auto simp: node_send_data_def next_bp_counter_def change_publisher_def frame_def at_eq_Inr_iff map_update_same Let_def
      split: option.splits elim!: rbind_InrE)

lemma send_messages_frame: "send_messages nw is work n w = Inr (ok, work', n', w') \<Longrightarrow> frame n' = frame n"
proof (induction "is" arbitrary: work n w)
  case Nil
  then show ?case by simp
next
  case (Cons i "is")
  have popped: "frame (change_publisher i (\<lambda>p. snd (pu_pop_message p)) n1) = frame n1" if "i < length (nd_publishers n1)" for n1 :: "'a node"
    using that by (simp add: frame_def change_publisher_def pu_pop_message_def map_update_same split: prod.split)
  have i: "i < length (nd_publishers n)" using Cons.prems by (auto simp: at_eq_Inr_iff elim!: rbind_InrE)
  show ?case
  proof (cases "pu_messages_queued (nd_publishers n ! i) = 0")
    case True
    with Cons.prems i Cons.IH [of work n w] show ?thesis by simp
  next
    case False
    with Cons.prems i obtain ok1 n1 w1 where
      1: "node_send_data nw i n w = Inr (ok1, n1, w1)"
      and n': "(if \<not> ok1 then Inr (False, work, n1, w1)
        else send_messages nw is True (change_publisher i (\<lambda>p. snd (pu_pop_message p)) n1) w1) = Inr (ok, work', n', w')"
      by (auto elim!: rbind_InrE)
    note f = node_send_data_frame [OF 1]
    from f have "length (nd_publishers n1) = length (nd_publishers n)" by (simp add: frame_def) (metis length_map)
    with f popped [of n1] i n' Cons.IH show ?thesis by (auto split: if_splits)
  qed
qed

lemma spin_topics_frame:
  "spin_topics nw ts work n u w = Inr (ok, work', n', u', w') \<Longrightarrow> sizes_kept (frame n) \<Longrightarrow> frame n' = frame n"
proof (induction ts arbitrary: work n u w)
  case Nil
  then show ?case by simp
next
  case (Cons t ts)
  obtain prio ti where t: "t = (prio, ti)" by (cases t)
  from Cons.prems(1) t obtain ok1 n1 u1 where 1: "run_callbacks (ti_subscribers ti) n u = Inr (ok1, n1, u1)"
    and n': "(if \<not> ok1 then Inr (False, work, n1, u1, w)
      else rbind (send_messages nw (ti_publishers ti) work n1 w) (\<lambda>(ok, work1, n2, w1).
        if \<not> ok then Inr (False, work1, n2, u1, w1) else spin_topics nw ts work1 n2 u1 w1)) = Inr (ok, work', n', u', w')"
    by (auto elim!: rbind_InrE)
  note f = run_callbacks_frame [OF 1 Cons.prems(2)]
  show ?case
    using n' f Cons.IH Cons.prems(2) by (auto split: if_splits elim!: rbind_InrE dest!: send_messages_frame)
qed

lemma process_incoming_frame: "process_incoming_message nw n w = Inr (r, n', w') \<Longrightarrow> frame n' = frame n"
  by (auto simp: process_incoming_message_def deliver_message_def receive_message_def frame_def Let_def
      simp del: queue_all.simps split: recv_result.splits receive_outcome.splits if_splits option.splits list.splits
      elim!: rbind_InrE dest!: deliver_message_callbacks)

lemma spin_once_frame:
  assumes "spin_once nw (n, u, w) = Inr (r, n', u', w')" and "sizes_kept (frame n)"
  shows "frame n' = frame n"
  using assms by (auto simp: spin_once_def elim!: rbind_InrE dest!: process_incoming_frame spin_topics_frame)

section \<open>The generator's node\<close>

definition bench_keeps :: "(nat \<Rightarrow> int) \<Rightarrow> u64 \<Rightarrow> nat \<Rightarrow> bench \<Rightarrow> bool" where
  "bench_keeps c k t b \<longleftrightarrow> bn_clock b = c \<and> bn_counter b = k \<and> t \<le> bn_tick b"

lemma pong_callback_ok:
  assumes "su_callback s = pong_callback" and "benchmark_header_size \<le> unat (su_message_size s)"
  shows "callback_ok (bench_keeps c k t) np s"
proof -
  have "bench_keeps c k t (add_latency i v b) = bench_keeps c k t b" for i v b
    by (simp add: add_latency_def bench_keeps_def Let_def)
  with assms show ?thesis
    by (auto simp: callback_ok_def pong_callback_def now_timestamp_def read_clock_def read_at_def bench_keeps_def Let_def)
qed

text \<open>
  A node as \<^verbatim>\<open>run()\<close> has it in the generator's loop: publishers for messages of at most the size of the buffer, and
  subscribers that call \<^verbatim>\<open>pong_callback\<close>.
\<close>

definition generator_frame :: "nat \<Rightarrow> (bench callback \<times> u32) list \<times> u32 list \<Rightarrow> bool" where
  "generator_frame len fr \<longleftrightarrow>
     (\<forall>(cb, sz)\<in>set (fst fr). cb = pong_callback \<and> benchmark_header_size \<le> unat sz) \<and>
     snd fr \<noteq> [] \<and> (\<forall>sz\<in>set (snd fr). unat sz \<le> len)"

definition generator_ready :: "string \<Rightarrow> nat \<Rightarrow> bench node \<Rightarrow> bool" where
  "generator_ready peer len n \<longleftrightarrow>
     node_inv n \<and> nd_broker_address n = peer \<and> generator_frame len (frame n)"

lemma pong_sizes: "pong_callback m sz (ps, u) = Inr (ps', u') \<Longrightarrow> ps' = ps"
  by (auto simp: pong_callback_def Let_def split: if_splits prod.splits elim!: rbind_InrE)

lemma generator_sizes: "generator_frame len fr \<Longrightarrow> sizes_kept fr"
  by (fastforce simp: generator_frame_def sizes_kept_def dest: pong_sizes)

lemma generator_safe:
  assumes "generator_ready peer len n" and "bench_keeps c k t b"
  shows "node_safe (bench_keeps c k t) peer (length (nd_publishers n)) (length (nd_subscribers n)) n b"
  using assms pong_callback_ok
  by (fastforce simp: node_safe_def node_ok_def generator_ready_def generator_frame_def frame_def)

lemma generator_spins:
  assumes nw: "network_safe peer good nw" and n: "generator_ready peer len n" and b: "bench_keeps c k t b" and w: "good w"
  shows "\<exists>r n' b' w'. spin_once nw (n, b, w) = Inr (r, n', b', w') \<and> generator_ready peer len n' \<and> bench_keeps c k t b' \<and> good w'"
proof -
  from spin_once_safe_step [OF nw generator_safe [OF n b] w] obtain r n' b' w' where
    1: "spin_once nw (n, b, w) = Inr (r, n', b', w')" "good w'"
      "node_safe (bench_keeps c k t) peer (length (nd_publishers n)) (length (nd_subscribers n)) n' b'" by blast
  have "frame n' = frame n"
    using spin_once_frame [OF 1(1)] generator_sizes [of len "frame n"] n by (simp add: generator_ready_def)
  with 1 n show ?thesis by (auto simp: generator_ready_def node_safe_def node_ok_def)
qed

lemma busy_wait_ends:
  assumes nw: "network_safe peer good nw" and clock: "\<And>i. c i < c (Suc i)"
  shows "generator_ready peer len n \<Longrightarrow> bench_keeps c k t b \<Longrightarrow> good w \<Longrightarrow> deadline \<le> c t + int m \<Longrightarrow>
    \<exists>n' b' w'. busy_wait (Suc m) nw deadline (n, b, w) = Inr (True, n', b', w') \<and> generator_ready peer len n' \<and>
      bench_keeps c k t b' \<and> good w'"
proof (induction m arbitrary: n b w t)
  case 0
  from generator_spins [OF nw 0(1-3)] obtain r n1 b1 w1 where
    1: "spin_once nw (n, b, w) = Inr (r, n1, b1, w1)" "generator_ready peer len n1" "bench_keeps c k t b1" "good w1" by blast
  have "c t \<le> c (bn_tick b1)" using 1(3) lift_Suc_mono_less [of c] clock
    by (auto simp: bench_keeps_def le_less)
  with 0(4) 1 show ?case by (auto simp: read_clock_def bench_keeps_def)
next
  case (Suc m)
  from generator_spins [OF nw Suc.prems(1-3)] obtain r n1 b1 w1 where
    1: "spin_once nw (n, b, w) = Inr (r, n1, b1, w1)" "generator_ready peer len n1" "bench_keeps c k t b1" "good w1" by blast
  let ?b = "b1\<lparr>bn_tick := Suc (bn_tick b1)\<rparr>"
  have b: "bench_keeps c k t ?b" "bench_keeps c k (Suc t) ?b" using 1(3) by (simp_all add: bench_keeps_def)
  have "deadline \<le> c (Suc t) + int m" using Suc.prems(4) clock [of t] by simp
  from Suc.IH [OF 1(2) b(2) 1(4) this] obtain n' b' w' where
    2: "busy_wait (Suc m) nw deadline (n1, ?b, w1) = Inr (True, n', b', w')" "generator_ready peer len n'" "good w'"
      "bench_keeps c k (Suc t) b'" by blast
  have "bench_keeps c k t b'" using 2(4) by (simp add: bench_keeps_def)
  with 1 2 b(1) show ?case by (auto simp: read_clock_def)
qed

section \<open>The loop ends\<close>

lemma generate_step:
  assumes n: "generator_ready peer (length buffer) n" and b: "bench_keeps c k t b" and size: "benchmark_header_size \<le> length buffer"
  shows "\<exists>buffer' n' b'. generate buffer n b = Inr (buffer', n', b') \<and> length buffer' = length buffer \<and>
    generator_ready peer (length buffer) n' \<and> bench_keeps c (k + 1) (Suc t) b'"
proof -
  obtain p ps where p: "nd_publishers n = p # ps" "node_publisher_ok p" "unat (pu_message_size p) \<le> length buffer"
    using n node_inv_publisher [of n 0] by (cases "nd_publishers n") (auto simp: generator_ready_def generator_frame_def frame_def)
  obtain b1 b2 b3 where w: "write_at 0 (host_bytes 4 (nd_node_id n)) buffer = Inr b1"
      "write_at 8 (host_bytes 8 (word_of_int (bn_clock b (bn_tick b)) :: u64)) b1 = Inr b2"
      "write_at 16 (host_bytes 8 (bn_counter b)) b2 = Inr b3" and len: "length b3 = length buffer"
    using size by (simp add: write_at_def benchmark_header_size_def)
  have "\<exists>ok q. publish b3 p = Inr (ok, p\<lparr>pu_message_queue := q\<rparr>) \<and> publisher_inv (p\<lparr>pu_message_queue := q\<rparr>)"
  proof (cases "length (pu_waiting p) < message_queue_capacity")
    case True
    with publish_room [of p b3] p(2,3) len show ?thesis by (auto simp: node_publisher_ok_def)
  next
    case False
    then have "length (pu_waiting p) = message_queue_capacity"
      using pu_waiting_bounded [of p] p(2) by (simp add: node_publisher_ok_def)
    with publish_full [of p b3] p(2) show ?thesis
      by (intro exI [of _ False] exI [of _ "pu_message_queue p"]) (simp add: node_publisher_ok_def)
  qed
  then obtain ok q where q: "publish b3 p = Inr (ok, p\<lparr>pu_message_queue := q\<rparr>)" "publisher_inv (p\<lparr>pu_message_queue := q\<rparr>)" by blast
  let ?n = "n\<lparr>nd_publishers := (nd_publishers n)[0 := p\<lparr>pu_message_queue := q\<rparr>]\<rparr>"
  have "node_publisher_ok (p\<lparr>pu_message_queue := q\<rparr>)" using p(2) q(2) by (simp add: node_publisher_ok_def)
  then have "node_inv ?n" using node_inv_set_publisher [of n _ 0] n by (simp add: generator_ready_def)
  then have "generator_ready peer (length buffer) ?n"
    using n p(1) by (simp add: generator_ready_def frame_def)
  then show ?thesis
    using w q(1) len b p(1) by (simp add: generate_def now_timestamp_def read_clock_def bench_keeps_def)
qed

lemma generator_loop_ends:
  assumes nw: "network_safe peer good nw" and clock: "\<And>i. c i < c (Suc i)" and count: "count \<noteq> 0"
    and m: "unat period * 10 ^ 6 < m"
  shows "generator_ready peer (length buffer) n \<Longrightarrow> bench_keeps c x t b \<Longrightarrow> good w \<Longrightarrow> benchmark_header_size \<le> length buffer \<Longrightarrow>
    unat x < unat (count :: u32) \<Longrightarrow> unat count \<le> unat x + k \<Longrightarrow>
    \<exists>n' b' w'. generator_loop k m nw period count buffer (n, b, w) = Inr (Some True, n', b', w') \<and>
      generator_ready peer (length buffer) n' \<and> bn_counter b' = ucast count"
proof (induction k arbitrary: n b w buffer x t)
  case 0
  then show ?case by simp
next
  case (Suc k)
  from generate_step [OF Suc.prems(1,2,4)] obtain buffer1 n1 b1 where
    1: "generate buffer n b = Inr (buffer1, n1, b1)" "length buffer1 = length buffer"
      "generator_ready peer (length buffer) n1" "bench_keeps c (x + 1) (Suc t) b1" by blast
  let ?b = "b1\<lparr>bn_tick := Suc (bn_tick b1)\<rparr>" and ?now = "c (bn_tick b1)"
  have b: "read_clock b1 = (?now, ?b)" "bench_keeps c (x + 1) (Suc (bn_tick b1)) ?b"
    using 1(4) by (simp_all add: read_clock_def bench_keeps_def)
  obtain m' where m': "m = Suc m'" "unat period * 10 ^ 6 \<le> m'" using m by (cases m) auto
  have "?now + int (unat period) * 10 ^ 6 \<le> c (Suc (bn_tick b1)) + int m'"
  proof -
    have "int (unat period * 10 ^ 6) \<le> int m'" using m'(2) by (rule zle_int [THEN iffD2])
    with clock [of "bn_tick b1"] show ?thesis by simp
  qed
  from busy_wait_ends [OF nw clock 1(3) b(2) Suc.prems(3) this] m'(1) obtain n2 b2 w2 where
    2: "busy_wait m nw (?now + int (unat period) * 10 ^ 6) (n1, ?b, w) = Inr (True, n2, b2, w2)"
      "generator_ready peer (length buffer) n2" "bench_keeps c (x + 1) (Suc (bn_tick b1)) b2" "good w2" by auto
  have "unat x < 2 ^ 32" using Suc.prems(5) unsigned_less [of count, where 'a = nat] by simp
  then have next_x: "unat (x + 1) = unat x + 1" by (subst unat_add_lem [THEN iffD1]) simp_all
  have counted: "bn_counter b2 = x + 1" using 2(3) by (simp add: bench_keeps_def)
  have wide: "unat (ucast count :: u64) = unat count"
    using unsigned_less [of count, where 'a = nat] by (simp add: unsigned_ucast_eq take_bit_nat_eq_self)
  have step: "generator_loop (Suc k) m nw period count buffer (n, b, w) =
      (if ucast count \<le> x + 1 then Inr (Some True, n2, b2, w2) else generator_loop k m nw period count buffer1 (n2, b2, w2))"
    using 1(1) b(1) 2(1) counted count by simp
  show ?case
  proof (cases "ucast count \<le> x + 1")
    case True
    then have "unat count \<le> unat x + 1" using next_x wide by (simp add: word_le_nat_alt)
    with Suc.prems(5) have "unat (x + 1) = unat (ucast count :: u64)" using next_x wide by simp
    then have "x + 1 = ucast count" by (simp add: word_unat_eq_iff)
    with True step 2(2) counted show ?thesis by simp
  next
    case False
    then have "unat (x + 1) < unat count" using next_x wide by (simp add: word_le_nat_alt not_le)
    have run: "generator_loop (Suc k) m nw period count buffer (n, b, w) = generator_loop k m nw period count buffer1 (n2, b2, w2)"
      unfolding step using False by simp
    have ready: "generator_ready peer (length buffer1) n2" "benchmark_header_size \<le> length buffer1"
      using 1(2) 2(2) Suc.prems(4) by simp_all
    have "unat count \<le> unat (x + 1) + k" using Suc.prems(6) next_x by simp
    from Suc.IH [OF ready(1) 2(3,4) ready(2) \<open>unat (x + 1) < unat count\<close> this] show ?thesis
      unfolding run 1(2) .
  qed
qed

section \<open>Properties\<close>

text \<open>
  C29: the generator stops after the messages it was asked for. With a positive \<^verbatim>\<open>publish_count\<close>, a steady clock that
  advances with every reading, and a network that does not throw and delivers no control packet the decoder rejects, whatever else it
  delivers, the loop of the generator returns \<open>true\<close> without a fault after exactly that many messages, when it is given that
  many iterations and one round of waiting more than the period has nanoseconds; the node is well-formed at
  every time. Without a count it would run for ever.
\<close>

theorem generator_finishes:
  assumes "network_safe peer good nw" and "good w" and "generator_ready peer (length buffer) n"
    and "benchmark_header_size \<le> length buffer" and "\<And>i. bn_clock b i < bn_clock b (Suc i)" and "bn_counter b = 0"
    and "count \<noteq> 0" and "unat (count :: u32) \<le> k" and "unat period * 10 ^ 6 < m"
  shows "\<exists>n' b' w'. generator_loop k m nw period count buffer (n, b, w) = Inr (Some True, n', b', w') \<and>
    generator_ready peer (length buffer) n' \<and> bn_counter b' = ucast count"
proof -
  have start: "bench_keeps (bn_clock b) 0 0 b" using assms(6) by (simp add: bench_keeps_def)
  have "unat (0 :: u64) < unat count" using assms(7) by (simp add: unat_gt_0)
  then show ?thesis
    using generator_loop_ends [where c = "bn_clock b" and t = 0 and x = 0, OF assms(1,5,7,9,3) start assms(2,4), of k] assms(8) by simp
qed

text \<open>The program's own node, with its default options, before it is connected; three messages, one every millisecond.\<close>

definition bench_defaults :: bench_config where
  "bench_defaults = \<lparr>bc_broker_ip = ''127.0.0.1'', bc_node_name = ''bench_node'', bc_topic_name = ''bench_topic'',
     bc_message_type_name = ''bench_type'', bc_message_size = 24, bc_topic_priority = 1, bc_publish_period_ms = 1,
     bc_publish_count = 3, bc_node_type = ''generator''\<rparr>"

theorem generator_finishes_witness:
  "\<exists>n n' b' w'. bench_node (benchmark_node_new bench_defaults) = Some n \<and>
    generator_loop 3 1000001 mailbox_network 1 3 (replicate 24 0x42)
      (n, sample_bench 0 0\<lparr>bn_clock := int\<rparr>, \<lparr>mb_inbox = [], mb_sent = []\<rparr>) = Inr (Some True, n', b', w') \<and>
    bn_counter b' = 3"
proof -
  obtain n where n: "bench_node (benchmark_node_new bench_defaults) = Some n" and
    fields: "n = create_subscriber (\<lambda>_ q. q) ''bench_topic_pong'' ''bench_type'' 24 pong_callback 1
      (create_publisher (\<lambda>_ q. q) ''bench_topic_ping'' ''bench_type'' 24 1
        (node_new ''bench_node_generator'' ''127.0.0.1'' UDP broker_default_port))"
    by (simp add: bench_node_def benchmark_node_new_def bench_defaults_def)
  have "node_inv n"
    unfolding fields
    by (intro create_subscriber_inv create_publisher_inv node_new_inv)
       (simp_all add: create_subscriber_def create_publisher_def node_new_def udp_buffer_size_def)
  moreover have "generator_frame 24 (frame n)"
    by (simp add: fields generator_frame_def frame_def create_subscriber_def create_publisher_def node_new_def
        subscriber_new_def publisher_new_def benchmark_header_size_def)
  ultimately have ready: "generator_ready (nd_broker_address n) (length (replicate 24 (0x42 :: byte))) n"
    by (simp add: generator_ready_def)
  have "\<exists>n' b' w'. generator_loop 3 1000001 mailbox_network 1 3 (replicate 24 0x42)
      (n, sample_bench 0 0\<lparr>bn_clock := int\<rparr>, \<lparr>mb_inbox = [], mb_sent = []\<rparr>) = Inr (Some True, n', b', w') \<and>
    generator_ready (nd_broker_address n) (length (replicate 24 (0x42 :: byte))) n' \<and> bn_counter b' = ucast (3 :: u32)"
    by (rule generator_finishes [OF mailbox_safe _ ready])
       (simp_all add: mailbox_good_def sample_bench_def benchmark_header_size_def)
  with n show ?thesis by auto
qed

end
