(* ===== verification/Demos.thy ===== *)
theory Demos
  imports Benchmark_Run Broker Node_Delivery
begin

text \<open>
  The programs: the broker (\<^verbatim>\<open>src/broker_main.cpp\<close>), the publisher and the subscriber demo
  (\<^verbatim>\<open>src/demo_pub_main.cpp\<close>, \<^verbatim>\<open>src/demo_sub_main.cpp\<close>) and the benchmark's \<^verbatim>\<open>main\<close>. Each takes the
  command line and a network and gives the exit code, or \<open>None\<close> while it is running after the given
  number of iterations. Sleeping and log output are left out.
\<close>

section \<open>The broker\<close>

definition broker_listen_ip :: "string list \<Rightarrow> string" where
  "broker_listen_ip argv =
     (if length argv = 3 \<and> argv ! 1 = ''--listen_ip'' then argv ! 2 else ''127.0.0.1'')"

definition broker_main :: "nat \<Rightarrow> 'w network \<Rightarrow> bool \<Rightarrow> string list \<Rightarrow> 'w \<Rightarrow> (int option \<times> 'w broker_state) res" where
  "broker_main k nw dbg argv w =
     (let b = broker_new (broker_listen_ip argv) UDP broker_default_port; buffer = replicate udp_buffer_size 0
      in rbind (broker_start nw b w) (\<lambda>(ok, w1).
         if \<not> ok then Inr (Some 1, b, buffer, w1)
         else rbind (broker_spin k nw dbg (b, buffer, w1)) (\<lambda>(running, s).
              Inr (if running then None else Some 0, s))))"

section \<open>The publisher\<close>

text \<open>
  \<^verbatim>\<open>publish\<close> reads the 8 bytes of the counter \<^verbatim>\<open>value\<close>. The outcome is undefined (\<open>None\<close>) when
  \<^verbatim>\<open>spin_while_work\<close> does not return.
\<close>

fun demo_pub_loop ::
    "nat \<Rightarrow> 'w network \<Rightarrow> u64 \<Rightarrow> ('u, 'w) node_state \<Rightarrow> (int option \<times> ('u, 'w) node_state) res option" where
  "demo_pub_loop 0 nw value s = Some (Inr (None, s))"
| "demo_pub_loop (Suc k) nw value s =
     (case s of (n, u, w) \<Rightarrow>
        (case rbind (at (nd_publishers n) 0) (publish (host_bytes 8 value)) of
           Inl e \<Rightarrow> Some (Inl e)
         | Inr (_, p) \<Rightarrow>
             (case spin_while_work nw (n\<lparr>nd_publishers := (nd_publishers n)[0 := p]\<rparr>, u, w) of
                None \<Rightarrow> None
              | Some (Inl e) \<Rightarrow> Some (Inl e)
              | Some (Inr (ok, s1)) \<Rightarrow>
                  if \<not> ok then Some (Inr (Some 0, s1)) else demo_pub_loop k nw (value + 1) s1)))"

definition demo_pub_node :: "options \<Rightarrow> 'u node res" where
  "demo_pub_node o1 =
     rbind (priority_option o1 ''1'') (\<lambda>priority.
     rbind (number_option o1 ''publish_period_ms'' ''500'') (\<lambda>period.
     Inr (create_publisher (\<lambda>_ q. q) (option_or_default o1 ''topic_name'' ''test_topic'')
            (option_or_default o1 ''message_type_name'' ''test_type'') 8 priority
            (node_new (option_or_default o1 ''node_name'' ''test_pub'')
               (option_or_default o1 ''broker_ip'' ''127.0.0.1'') UDP broker_default_port))))"

definition demo_pub_main ::
    "nat \<Rightarrow> 'w network \<Rightarrow> string list \<Rightarrow> 'w \<Rightarrow> (int option \<times> (unit, 'w) node_state) res option" where
  "demo_pub_main k nw argv w =
     (case rbind (parse_options argv) (\<lambda>(o1, _). rbind (demo_pub_node o1) (\<lambda>n. node_connect nw n w)) of
        Inl e \<Rightarrow> Some (Inl e)
      | Inr (ok, n, w1) \<Rightarrow>
          if \<not> ok then Some (Inr (Some 1, n, (), w1)) else demo_pub_loop k nw 0 (n, (), w1))"

section \<open>The subscriber\<close>

text \<open>The callback reads 8 bytes and prints; the user data is the output so far.\<close>

definition test_callback :: "string callback" where
  "test_callback message msize ctx =
     (case ctx of (pubs, out) \<Rightarrow>
        rbind (read_at 0 8 message) (\<lambda>bytes.
        Inr (pubs, out @ ''Got message: '' @ to_string (uint (host_word bytes :: u64)) @ [CHR 0x0A])))"

definition demo_sub_node :: "options \<Rightarrow> string node res" where
  "demo_sub_node o1 =
     rbind (priority_option o1 ''1'') (\<lambda>priority.
     Inr (create_subscriber (\<lambda>_ q. q) (option_or_default o1 ''topic_name'' ''test_topic'')
            (option_or_default o1 ''message_type_name'' ''test_type'') 8 test_callback priority
            (node_new (option_or_default o1 ''node_name'' ''test_sub'')
               (option_or_default o1 ''broker_ip'' ''127.0.0.1'') UDP broker_default_port)))"

definition demo_sub_main ::
    "nat \<Rightarrow> 'w network \<Rightarrow> string list \<Rightarrow> 'w \<Rightarrow> (int option \<times> (string, 'w) node_state) res" where
  "demo_sub_main k nw argv w =
     rbind (parse_options argv) (\<lambda>(o1, _).
     rbind (demo_sub_node o1) (\<lambda>n.
     rbind (node_connect nw n w) (\<lambda>(ok, n1, w1).
     if \<not> ok then Inr (Some 1, n1, '''', w1)
     else rbind (node_spin k nw (n1, '''', w1)) (\<lambda>(r, s). Inr (map_option (\<lambda>_. 0) r, s)))))"

section \<open>The benchmark\<close>

definition bench_main ::
    "nat \<Rightarrow> nat \<Rightarrow> 'w network \<Rightarrow> (u64 list \<Rightarrow> json) \<Rightarrow> (nat \<Rightarrow> int) \<Rightarrow> string list \<Rightarrow> 'w \<Rightarrow> (int option \<times> string) res" where
  "bench_main k m nw average clock argv w =
     rbind (parse_options argv) (\<lambda>(o1, _).
     rbind (bench_options o1) (\<lambda>cfg.
     rbind (bench_run k m nw (benchmark_node_new cfg) clock w) (\<lambda>(r, s).
     case (r, s) of
       (Some True, Some (n, b, w1)) \<Rightarrow> rbind (print_results average (nd_node_id n) b) (\<lambda>out. Inr (Some 0, out))
     | (Some _, _) \<Rightarrow> Inr (Some 1, '''')
     | (None, _) \<Rightarrow> Inr (None, ''''))))"

section \<open>The publisher's loop\<close>

text \<open>The state of the publisher after it has connected: one publisher, found under its priority.\<close>

definition demo_pub_ready :: "'u node \<Rightarrow> publisher \<Rightarrow> bool" where
  "demo_pub_ready n p \<longleftrightarrow>
     node_inv n \<and> nd_publishers n = [p] \<and> nd_topics_by_prio n = [(pu_topic_priority p, \<lparr>ti_publishers = [0], ti_subscribers = []\<rparr>)]"

lemma demo_pub_ready_sent:
  assumes "demo_pub_ready n p" and "node_publisher_ok (p\<lparr>pu_message_queue := q\<rparr>)"
  shows "demo_pub_ready (sent_with 0 q n) (p\<lparr>pu_message_queue := q\<rparr>)"
    "demo_pub_ready (n\<lparr>nd_publishers := [p\<lparr>pu_message_queue := q\<rparr>]\<rparr>) (p\<lparr>pu_message_queue := q\<rparr>)"
  using assms node_inv_set_publisher [of n "p\<lparr>pu_message_queue := q\<rparr>" 0]
    node_inv_set_publisher [of "n\<lparr>nd_bp_counter := nd_bp_counter n + 1\<rparr>" "p\<lparr>pu_message_queue := q\<rparr>" 0]
  by (simp_all add: demo_pub_ready_def sent_with_def)

lemma spin_while_work_sends_one:
  assumes n: "demo_pub_ready n p" and m: "pu_waiting p = [m]" and w: "mb_inbox w = []"
  shows "\<exists>q. spin_while_work mailbox_network (n, u, w) =
      Some (Inr (True, sent_with 0 q n, u,
        w\<lparr>mb_sent := mb_sent w @ [(nd_broker_address n, data_packet (nd_bp_counter n + 1) p m)]\<rparr>)) \<and>
    demo_pub_ready (sent_with 0 q n) (p\<lparr>pu_message_queue := q\<rparr>) \<and> pu_waiting (p\<lparr>pu_message_queue := q\<rparr>) = []"
proof -
  let ?w = "w\<lparr>mb_sent := mb_sent w @ [(nd_broker_address n, data_packet (nd_bp_counter n + 1) p m)]\<rparr>"
  have inv: "node_inv n" "node_publisher_ok (nd_publishers n ! 0)" "0 < length (nd_publishers n)" "nd_publishers n ! 0 = p"
    "nd_topics_by_prio n = [(pu_topic_priority p, \<lparr>ti_publishers = [0], ti_subscribers = []\<rparr>)]"
    using n node_inv_publisher [of n 0] by (simp_all add: demo_pub_ready_def)
  have "pu_waiting (nd_publishers n ! 0) = m # []" using m inv(4) by simp
  from send_messages_waiting [OF inv(2,3) this, of mailbox_network "[]" False w] inv(4) obtain q where
    q: "send_messages mailbox_network [0] False n w = Inr (True, True, sent_with 0 q n, ?w)"
    "node_publisher_ok (p\<lparr>pu_message_queue := q\<rparr>)" "pu_waiting (p\<lparr>pu_message_queue := q\<rparr>) = []"
    by (auto simp: mailbox_network_def)
  note ready = demo_pub_ready_sent(1) [OF n q(2)]
  have 1: "spin_once mailbox_network (n, u, w) = Inr (SpinSuccess, sent_with 0 q n, u, ?w)"
    using receive_nothing [OF inv(1) w] q(1) inv(5) by (simp add: spin_once_def)
  have ready': "node_inv (sent_with 0 q n)" "nd_publishers (sent_with 0 q n) = [p\<lparr>pu_message_queue := q\<rparr>]"
    "nd_topics_by_prio (sent_with 0 q n) = [(pu_topic_priority p, \<lparr>ti_publishers = [0], ti_subscribers = []\<rparr>)]"
    using ready by (simp_all add: demo_pub_ready_def)
  have 2: "spin_once mailbox_network (sent_with 0 q n, u, ?w) = Inr (SpinNoWork, sent_with 0 q n, u, ?w)"
    using receive_nothing [OF ready'(1), of ?w] w ready'(2,3) q(3) by (simp add: spin_once_def messages_queued_waiting)
  have "spin_while_work mailbox_network (n, u, w) = Some (Inr (True, sent_with 0 q n, u, ?w))"
    using 1 2 by (simp add: spin_while_work.simps [of mailbox_network "(n, u, w)"]
        spin_while_work.simps [of mailbox_network "(sent_with 0 q n, u, ?w)"])
  with ready q(3) show ?thesis by blast
qed

lemma demo_pub_loop_sends:
  assumes "demo_pub_ready n p" and "pu_waiting p = []" and "pu_message_size p = 8" and "mb_inbox w = []"
  shows "\<exists>n' p'. demo_pub_loop k mailbox_network v (n, u, w) = Some (Inr (None, n', u,
      w\<lparr>mb_sent := mb_sent w @ map (\<lambda>i. (nd_broker_address n,
           data_packet (nd_bp_counter n + 1 + of_nat i) p (host_bytes 8 (v + of_nat i)))) [0..<k]\<rparr>)) \<and>
    demo_pub_ready n' p' \<and> pu_waiting p' = []"
  using assms
proof (induction k arbitrary: n p v w)
  case 0
  then show ?case by auto
next
  case (Suc k)
  note IH = Suc.IH and prems = Suc.prems
  have n: "nd_publishers n = [p]" "node_publisher_ok p" using prems(1) by (simp_all add: demo_pub_ready_def node_inv_def)
  then have "publisher_inv p" by (simp add: node_publisher_ok_def)
  from publish_room [OF this, of "host_bytes 8 v"] prems(2,3) obtain q where
    q: "publish (host_bytes 8 v) p = Inr (True, p\<lparr>pu_message_queue := q\<rparr>)" "publisher_inv (p\<lparr>pu_message_queue := q\<rparr>)"
    "pu_waiting (p\<lparr>pu_message_queue := q\<rparr>) = [host_bytes 8 v]" by (auto simp: message_queue_capacity_def)
  let ?p = "p\<lparr>pu_message_queue := q\<rparr>"
  let ?n = "n\<lparr>nd_publishers := [?p]\<rparr>"
  have "node_publisher_ok ?p" using q(2) n(2) by (simp add: node_publisher_ok_def)
  from demo_pub_ready_sent(2) [OF prems(1) this] have ready: "demo_pub_ready ?n ?p" .
  from spin_while_work_sends_one [OF ready q(3) prems(4), of u] obtain q2 where
    s: "spin_while_work mailbox_network (?n, u, w) = Some (Inr (True, sent_with 0 q2 ?n, u,
        w\<lparr>mb_sent := mb_sent w @ [(nd_broker_address n, data_packet (nd_bp_counter n + 1) p (host_bytes 8 v))]\<rparr>))"
    "demo_pub_ready (sent_with 0 q2 ?n) (p\<lparr>pu_message_queue := q2\<rparr>)" "pu_waiting (p\<lparr>pu_message_queue := q2\<rparr>) = []"
    by (auto simp: data_packet_def)
  let ?w = "w\<lparr>mb_sent := mb_sent w @ [(nd_broker_address n, data_packet (nd_bp_counter n + 1) p (host_bytes 8 v))]\<rparr>"
  have step: "demo_pub_loop (Suc k) mailbox_network v (n, u, w) =
      demo_pub_loop k mailbox_network (v + 1) (sent_with 0 q2 ?n, u, ?w)"
    using q(1) s(1) n(1) by simp
  have list: "map (\<lambda>i. f i) [0..<Suc k] = f 0 # map (\<lambda>i. f (Suc i)) [0..<k]" for f :: "nat \<Rightarrow> string \<times> byte list"
    by (simp only: upt_conv_Cons [OF zero_less_Suc] map_Suc_upt [symmetric] list.map map_map comp_def)
  from IH [OF s(2,3), of ?w "v + 1"] prems(3,4) obtain n' p' where
    "demo_pub_loop k mailbox_network (v + 1) (sent_with 0 q2 ?n, u, ?w) = Some (Inr (None, n', u,
      ?w\<lparr>mb_sent := mb_sent ?w @ map (\<lambda>i. (nd_broker_address n,
           data_packet (nd_bp_counter n + 1 + 1 + of_nat i) p (host_bytes 8 (v + 1 + of_nat i)))) [0..<k]\<rparr>))"
    "demo_pub_ready n' p'" "pu_waiting p' = []"
    by (auto simp: sent_with_def data_packet_def)
  then show ?case unfolding step list by (auto simp: algebra_simps)
qed

section \<open>Properties\<close>

text \<open>
  C30: the publisher demo counts. Connected, with an empty queue and nothing to receive, each iteration
  of its loop sends exactly one packet to the broker, with the next packet counter and the next value,
  starting from the given one and wrapping at 2 to the 64; every \<^verbatim>\<open>spin_while_work()\<close> in between returns
  \<open>true\<close>, and the loop goes on. The subscriber's callback prints the value a message was made from.
\<close>

theorem demo_pub_counts:
  assumes "demo_pub_ready n p" and "pu_waiting p = []" and "pu_message_size p = 8" and "mb_inbox w = []"
  shows "(\<exists>n'. demo_pub_loop k mailbox_network v (n, u, w) = Some (Inr (None, n', u,
      w\<lparr>mb_sent := mb_sent w @ map (\<lambda>i. (nd_broker_address n,
           data_packet (nd_bp_counter n + 1 + of_nat i) p (host_bytes 8 (v + of_nat i)))) [0..<k]\<rparr>))) \<and>
    test_callback (host_bytes 8 v) 8 (pubs, out) = Inr (pubs, out @ ''Got message: '' @ to_string (uint v) @ [CHR 0x0A])"
  using demo_pub_loop_sends [OF assms, of k v u]
  by (auto simp: test_callback_def read_at_def slice_def)

definition counting_node :: "unit node" where
  "counting_node = enter_publisher 0 0 5
     (create_publisher (\<lambda>_ q. q) ''t'' ''T'' 8 5 (node_new ''n'' ''s'' UDP 1))"

theorem demo_pub_counts_witness:
  "(\<exists>n'. demo_pub_loop 3 mailbox_network 7 (counting_node, (), \<lparr>mb_inbox = [], mb_sent = []\<rparr>) = Some (Inr (None, n', (),
      \<lparr>mb_inbox = [], mb_sent = []\<rparr>\<lparr>mb_sent := mb_sent \<lparr>mb_inbox = [], mb_sent = []\<rparr> @ map (\<lambda>i. (nd_broker_address counting_node,
           data_packet (nd_bp_counter counting_node + 1 + of_nat i) (publisher_new ''t'' ''T'' 8 5 17)
             (host_bytes 8 ((7 :: u64) + of_nat i)))) [0..<3]\<rparr>))) \<and>
    test_callback (host_bytes 8 (7 :: u64)) 8 ([], []) = Inr ([], [] @ ''Got message: '' @ to_string (uint (7 :: u64)) @ [CHR 0x0A])"
proof (rule demo_pub_counts)
  have "node_inv counting_node"
    unfolding counting_node_def
    by (intro enter_publisher_inv create_publisher_inv node_new_inv) (simp_all add: create_publisher_def)
  then show "demo_pub_ready counting_node (publisher_new ''t'' ''T'' 8 5 17)"
    by (simp add: demo_pub_ready_def)
       (simp add: counting_node_def create_publisher_def enter_publisher_def node_new_def bp_sizes prio_get_def
         topic_info_empty_def publisher_new_def Let_def)
  show "pu_waiting (publisher_new ''t'' ''T'' 8 5 17) = []" by (simp add: publisher_new_inv)
qed (simp_all add: publisher_new_def)

end
