(* ===== verification/Spec2Isabelle.thy ===== *)
theory Spec2Isabelle
  imports Broker_Correct Node_Delivery Node_Sockets World_Run Logger Demos
begin

text \<open>
  \<^bold>\<open>A verification development for cpp_rt_pubsub.\<close> The program is a publish/subscribe library in C++.
  One broker process keeps the registries of nodes, message types and topics. Node processes hold
  publishers and subscribers; they register them with the broker by remote procedure calls (JSON in
  control packets) and then exchange messages of fixed size in data packets, which the broker forwards
  to the nodes that subscribe to the topic. In a node, topics are handled by priority. Everything
  travels in UDP datagrams, and messages wait in queues of buffers that are allocated once.

  \<^bold>\<open>Theories and what they model\<close> (paths under \<^verbatim>\<open>src/\<close>; definitions keep the names of the code where
  they can, and record fields those of the members, with a prefix for the class):

  \<^item> \<open>Crps_Prelude\<close>: words for the machine integers, the faults that end a run (reads and writes out of
    bounds, an exception nobody catches, a floating-point number in JSON), results as a sum with the
    combinator \<open>rbind\<close>, reading and writing ranges of byte buffers, searches in vectors.
  \<^item> \<open>Message_Queue\<close>: \<^verbatim>\<open>include/crps/message_queue.h\<close>, \<^verbatim>\<open>src/message_queue.cpp\<close>. The contract of a bounded
    queue is the locale \<open>bounded_fifo\<close>; it is interpreted on the queue with headers, and in \<open>Pubsub\<close> on
    publishers and on subscribers.
  \<^item> \<open>Json\<close>, \<open>Json_Dump\<close>, \<open>Json_Parse\<close>, \<open>Json_Roundtrip\<close>: what the program uses of the vendored
    \<^verbatim>\<open>nlohmann/json.hpp\<close>: values and conversions, \<^verbatim>\<open>dump()\<close>, \<^verbatim>\<open>parse()\<close>, and the contract between the two
    (locale \<open>json_codec\<close>, interpreted on the two routines).
  \<^item> \<open>Broker_Protocol\<close>: \<^verbatim>\<open>broker_protocol.h\<close>, \<^verbatim>\<open>broker_protocol.cpp\<close>, the packets and their decoder.
  \<^item> \<open>Network\<close>: the abstract class of \<^verbatim>\<open>network.h\<close> as a record of operations over a state, the constants of
    \<^verbatim>\<open>defaults.h\<close> and \<^verbatim>\<open>topic.h\<close>, and a recording network for concrete runs. \<open>Linux_Network\<close>: its
    implementation by sockets, \<^verbatim>\<open>linux_network.h\<close>, \<^verbatim>\<open>linux_network.cpp\<close>, over a record of system calls.
  \<^item> \<open>Broker\<close>: \<^verbatim>\<open>broker.h\<close>, \<^verbatim>\<open>broker.cpp\<close>. \<open>broker_spin_once\<close> is one iteration of \<^verbatim>\<open>Broker::spin()\<close>:
    receive, decode, check the client's counter, answer a control request or forward a data packet.
    \<open>Registry\<close> is the contract of the three registries (locale \<open>registry\<close>), interpreted on each of them in
    \<open>Broker_Correct\<close>.
  \<^item> \<open>Pubsub\<close>: \<^verbatim>\<open>publisher.h\<close>, \<^verbatim>\<open>publisher.cpp\<close>, \<^verbatim>\<open>subscriber.h\<close>, \<^verbatim>\<open>subscriber.cpp\<close>. \<open>Node\<close>: \<^verbatim>\<open>node.h\<close>,
    \<^verbatim>\<open>node.cpp\<close>, with \<open>node_connect\<close> for \<^verbatim>\<open>connect()\<close>, \<open>spin_once\<close>, \<open>node_spin\<close> and \<open>spin_while_work\<close> for the loops.
  \<^item> \<open>Logger\<close>: \<^verbatim>\<open>logger.h\<close>, \<^verbatim>\<open>logger.cpp\<close>, \<^verbatim>\<open>os.h\<close>, \<^verbatim>\<open>os.cpp\<close>, \<^verbatim>\<open>linux_os.h\<close>, \<^verbatim>\<open>linux_os.cpp\<close>.
    \<open>Parse_Options\<close>: \<^verbatim>\<open>demo/parse_options.cpp\<close>. \<open>Benchmark\<close>, \<open>Benchmark_Run\<close>: \<^verbatim>\<open>benchmark_main.cpp\<close>. \<open>Demos\<close>: the four
    \<^verbatim>\<open>main\<close> functions.

  \<^bold>\<open>What the lemmas show.\<close>

  \<^item> The parts: queues are bounded FIFO lists of messages; JSON text parses back to the value, and
    packets decode to what was packed; \<open>Broker_Correct\<close> has the invariant of the registries, their
    monotone growth (an ID that was given out keeps its meaning), the counters of the clients, the
    forwarding to every subscribed node, and the answers; \<open>Node_Correct\<close> the invariant of a node and the
    memory safety of its loop over any network, whose faults are the only ones; \<open>Node_Delivery\<close> the delivery to every
    subscriber and the termination of \<^verbatim>\<open>spin_while_work()\<close>; \<open>Node_Priority\<close> that a node works through
    its topics by the priorities its publishers asked for, from \<^verbatim>\<open>connect()\<close> to the packets; \<open>Benchmark_Run\<close> that the generator stops
    after the messages it was asked for; \<open>Linux_Network\<close> that a reply reaches the sender.
  \<^item> Remote calls: \<open>Rpc_Link\<close> and \<open>Rpc_Calls\<close> connect a node with the loop of a broker and carry a
    remote call through serialisation, packets, dispatch and answer: it returns what the broker's
    operation returns. They also follow a call whose answer is preceded by a data packet: the broker does
    what it was asked for, the node is told that it failed, and the next call gets the answer of this one
    (\<open>next_call_gets_old_answer\<close> in \<open>System\<close>).
  \<^item> \<^verbatim>\<open>connect()\<close>: \<open>Agreement\<close> says what the broker's operations promise and what it means that node and
    broker agree (\<open>node_agrees\<close>: stored IDs name the topics and types that were asked for, and the node
    finds its publishers and subscribers in its own tables). \<open>Registration\<close> states the contract of the
    remote calls as a locale (\<open>registration_service\<close>) and proves in it that \<^verbatim>\<open>connect()\<close> returns and leads
    to agreement. The contract is met three times: in \<open>Connect\<close> by a broker that serves nobody else meanwhile, in
    \<open>Busy_Link\<close> by a broker that handles any packets of other clients between the calls, and in \<open>Lossy_Link\<close> when
    moreover requests are lost or arrive twice and answers are lost.
  \<^item> \<open>Requests\<close>: every request a node makes leaves the loop of the broker running; one without a key the broker reads
    ends it, by an exception or by an access outside of an object.
  \<^item> The whole: \<open>System\<close> adds a second node: both use one topic alike, and a published message arrives there.
    \<open>Node_Sockets\<close> puts the node on the sockets. \<open>Interleaving\<close> runs any number of nodes and the broker in
    any order, as an inductive step relation, over a network that loses, delays, reorders and
    duplicates data packets; nodes connect while others run, over the busy or the lossy link, and strangers make requests. \<open>World_Run\<close> starts from a new broker: no step fails, every
    connected node agrees with the broker, and only what was published under a topic arrives under
    it; one run is followed from the first \<^verbatim>\<open>connect()\<close> to the callback.

  \<^bold>\<open>State and effects.\<close> State is passed explicitly; the pointers a node keeps into its vectors, and the
  buffer pointers of a queue, are positions. A callback is a function on the publishers of its node and
  the user's data. Operations of the network may fail or throw; what the results ask of them is stated as hypotheses, each met by a
  concrete network or kernel: \<open>network_fits\<close> and \<open>kernel_receives\<close> (no more bytes than asked for, of
  any kind), \<open>inet_laws\<close>, and \<open>network_safe\<close>, for the programs whose loops do not stop early (nothing is thrown, and no
  control packet arrives that the decoder rejects: such a packet ends a node, \<open>node_spin_safe\<close>).
  In the worlds of \<open>Interleaving\<close>, the \<^verbatim>\<open>connect()\<close> of one node is one step. Between its calls the broker may
  handle packets of the wire and requests of others, registrations included; but of two nodes whose
  \<^verbatim>\<open>connect()\<close> overlap, only one is followed as a node, the other is a stranger whose requests have their effect on
  the broker. The node's own requests may be lost or arrive twice and its answers may be lost; the call fails then,
  where the code would wait for ever or until a data packet comes, and in neither case is the node connected. An
  answer is not delivered twice: then agreement would fail, as the IDs of answers are not compared.

  \<^bold>\<open>Bounds.\<close> \<open>broker_spin\<close>, \<open>node_spin\<close> and the loops of the demo and benchmark programs run for ever in the
  code; they take a number of iterations and say whether they are still running, so facts for
  every number hold along the whole run. \<open>spin_while_work\<close> is a partial function whose result is proved
  to exist when finitely many packets are left to receive, also for callbacks that publish. Integers
  are words of the width of the code; where a
  result needs room for more 32-bit IDs (\<open>room\<close>) or short names (\<open>short\<close>: requests that fit one
  datagram), it says so.

  \<^bold>\<open>Not modelled.\<close> The text of log statements in broker, node and network, but not the vector accesses in
  them, which are always evaluated at the informational level, and at the debug level by the parameter
  \<open>debug_log\<close>; floating-point and binary JSON values and the average in the benchmark (a parameter);
  \<^verbatim>\<open>inet_pton\<close>, \<^verbatim>\<open>inet_ntop\<close> and the socket calls (parameters); the clocks (an argument or a
  sequence of readings) and sleeping; whether a growing vector moves or copies its elements (a
  parameter); creating publishers or subscribers after \<^verbatim>\<open>connect()\<close>; the plain getters and setters,
  the plot script, the build files.

  \<^bold>\<open>What modelling showed.\<close> The length check of data packets uses the wrong header size; the end offset of
  a control text can wrap; the debug log of \<^verbatim>\<open>forward_data\<close> indexes the topics before the check; an unknown
  message type is logged but not refused when a topic is registered, and a wrong one when a message is delivered; a
  lost packet makes the broker reject the client for good; two subscribers of one node on a topic get every
  message twice; callbacks do not count as work, so \<^verbatim>\<open>spin_while_work()\<close> can stop with messages waiting;
  a data packet in front of the answer breaks a remote call and shifts the answers of the later ones, since nobody
  compares their IDs; an incomplete request ends the broker, and a control packet without a JSON text a node; the messages of a publisher with
  the don't-care priority leave after all others, whatever the priority of the topic; an option without a value reads past
  the arguments. The theorems for these state what the code does.
\<close>

end
